(* ===== verification/Prelude.thy ===== *)
theory Prelude
  imports Main "HOL-Library.Word"
begin

unbundle bit_operations_syntax

text \<open>
  Shared vocabulary of the development: the machine types of the C++ code, the result
  type of code that may fail, the named collections of rewrite rules, and the generic
  list and word lemmas the component theories use.

  A byte is an 8-bit word, a ZeroMQ frame a list of bytes, a \<open>zmsg_t\<close> a list of
  frames. Unsigned C++ integers are words of their width (addition wraps); an
  \<open>int64_t\<close> is an \<open>int\<close>, and the implementation-defined conversion from
  \<open>uint64_t\<close> to \<open>int64_t\<close> is \<open>to_i64\<close> (two's complement).
\<close>

type_synonym byte = "8 word"
type_synonym u16 = "16 word"
type_synonym u32 = "32 word"
type_synonym u64 = "64 word"
type_synonym frame = "byte list"
type_synonym zmsg = "frame list"

named_theorems icl_simps \<open>first and last element of the interval operations\<close>
named_theorems seg_simps \<open>denotation of the segment lists of an interval map\<close>
named_theorems codec_simps \<open>encoders and decoders of the wire format\<close>
named_theorems frame_simps \<open>state fields an operation leaves alone\<close>

section \<open>Failure\<close>

text \<open>
  What the code does where C++ gives up: a failed \<open>assert\<close> aborts, a null or
  dangling pointer that is dereferenced and a signed overflow are undefined behaviour.
\<close>

datatype fault = AssertFailed | NullPointer | UseAfterFree | SignedOverflow | Uninitialised

primrec bind_fault :: "fault + 'a \<Rightarrow> ('a \<Rightarrow> fault + 'b) \<Rightarrow> fault + 'b" where
  "bind_fault (Inl e) f = Inl e"
| "bind_fault (Inr a) f = f a"

lemma bind_fault_Inr_iff: "bind_fault r f = Inr b \<longleftrightarrow> (\<exists>a. r = Inr a \<and> f a = Inr b)"
  by (cases r) auto

lemma bind_fault_assoc: "bind_fault (bind_fault r f) g = bind_fault r (\<lambda>a. bind_fault (f a) g)"
  by (cases r) auto

lemma bind_fault_cong [fundef_cong]:
  "m = m' \<Longrightarrow> (\<And>a. m' = Inr a \<Longrightarrow> f a = f' a) \<Longrightarrow> bind_fault m f = bind_fault m' f'"
  by (cases m') auto

lemma bind_fault_InrE:
  assumes "bind_fault r f = Inr b"
  obtains a where "r = Inr a" "f a = Inr b"
  using assms by (cases r) auto

section \<open>Signed 64-bit integers\<close>

definition to_i64 :: "u64 \<Rightarrow> int" where
  "to_i64 w = sint w"

definition of_i64 :: "int \<Rightarrow> u64" where
  "of_i64 i = word_of_int i"

definition is_i64 :: "int \<Rightarrow> bool" where
  "is_i64 i \<longleftrightarrow> - (2 ^ 63) \<le> i \<and> i < 2 ^ 63"

text \<open>Signed addition and subtraction overflow into undefined behaviour.\<close>

definition add_i64 :: "int \<Rightarrow> int \<Rightarrow> fault + int" where
  "add_i64 a b = (if is_i64 (a + b) then Inr (a + b) else Inl SignedOverflow)"

definition sub_i64 :: "int \<Rightarrow> int \<Rightarrow> fault + int" where
  "sub_i64 a b = (if is_i64 (a - b) then Inr (a - b) else Inl SignedOverflow)"

lemma is_i64_to_i64 [simp]: "is_i64 (to_i64 w)"
  using sint_greater_eq [of w] sint_lt [of w] by (simp add: is_i64_def to_i64_def)

lemma to_i64_of_i64: "is_i64 i \<Longrightarrow> to_i64 (of_i64 i) = i"
  by (simp add: is_i64_def to_i64_def of_i64_def signed_take_bit_int_eq_self sint_sbintrunc')

lemma of_i64_to_i64 [simp]: "of_i64 (to_i64 w) = w"
  by (simp add: to_i64_def of_i64_def)

lemma to_i64_small: "uint w < 2 ^ 63 \<Longrightarrow> to_i64 w = uint w"
proof -
  assume a: "uint w < 2 ^ 63"
  have "to_i64 w = to_i64 (of_i64 (uint w))" by (simp add: of_i64_def)
  also have "\<dots> = uint w" using a by (intro to_i64_of_i64) (simp add: is_i64_def order_trans [of _ 0])
  finally show ?thesis .
qed

section \<open>Lists\<close>

lemma takeWhile_append_dropWhile_prefix:
  assumes "\<forall>x\<in>set xs. P x" "ys = [] \<or> \<not> P (hd ys)"
  shows "takeWhile P (xs @ ys) = xs" "dropWhile P (xs @ ys) = ys"
  using assms by (induction xs; cases ys; auto)+

lemma sorted_wrt_rev_append:
  "sorted_wrt R (rev xs @ ys) \<longleftrightarrow>
     sorted_wrt (\<lambda>a b. R b a) xs \<and> sorted_wrt R ys \<and> (\<forall>x\<in>set xs. \<forall>y\<in>set ys. R x y)"
  by (simp add: sorted_wrt_append sorted_wrt_rev)

lemma successively_snoc:
  "successively P (xs @ [x]) \<longleftrightarrow> successively P xs \<and> (xs = [] \<or> P (last xs) x)"
  by (auto simp: successively_append_iff)

lemma sort_key_map_list: "sort_key f (map g xs) = map g (sort_key (\<lambda>x. f (g x)) xs)"
proof -
  have "insort_key f (g x) (map g ys) = map g (insort_key (\<lambda>x. f (g x)) x ys)" for x ys
    by (induction ys) simp_all
  then show ?thesis by (induction xs) simp_all
qed

end
