(* ===== verification/IclInterval.thy ===== *)
theory IclInterval
  imports Prelude
begin

text \<open>
  Intervals of the interval container library under \<open>src/icl\<close>: the bounds bit set
  (\<open>interval_bounds.hpp\<close>), \<open>discrete_interval\<close> with dynamic bounds over
  \<open>int64_t\<close> (the type \<open>iminterval_t\<close> of \<open>tpq_server.cpp\<close>), and the
  overloads of \<open>concept/interval.hpp\<close> that the compiler selects for it
  (\<open>has_dynamic_bounds\<close> and \<open>is_discrete_interval\<close>). Every operation is
  characterised by its first and last element; the meaning of an interval is the set
  \<open>iset\<close> of the integers between them.
\<close>

section \<open>Bounds\<close>

type_synonym interval_bounds = "8 word"

definition bounds_open :: interval_bounds where "bounds_open = 0"
definition bounds_left_open :: interval_bounds where "bounds_left_open = 1"
definition bounds_right_open :: interval_bounds where "bounds_right_open = 2"
definition bounds_closed :: interval_bounds where "bounds_closed = 3"

definition left_bound :: "interval_bounds \<Rightarrow> interval_bounds" where
  "left_bound b = b AND 2"

definition right_bound :: "interval_bounds \<Rightarrow> interval_bounds" where
  "right_bound b = b AND 1"

definition reverse_left :: "interval_bounds \<Rightarrow> interval_bounds" where
  "reverse_left b = drop_bit 1 (NOT b) AND 1"

definition reverse_right :: "interval_bounds \<Rightarrow> interval_bounds" where
  "reverse_right b = push_bit 1 (NOT b) AND 2"

definition is_left_closed :: "interval_bounds \<Rightarrow> bool" where
  "is_left_closed b \<longleftrightarrow> left_bound b = 2"

definition is_right_closed :: "interval_bounds \<Rightarrow> bool" where
  "is_right_closed b \<longleftrightarrow> right_bound b = 1"

definition valid_bounds :: "interval_bounds \<Rightarrow> bool" where
  "valid_bounds b \<longleftrightarrow> b = bounds_open \<or> b = bounds_left_open \<or> b = bounds_right_open \<or> b = bounds_closed"

lemmas bounds_defs = bounds_open_def bounds_left_open_def bounds_right_open_def bounds_closed_def
  left_bound_def right_bound_def reverse_left_def reverse_right_def
  is_left_closed_def is_right_closed_def

lemma valid_bounds_cases [consumes 1]:
  assumes "valid_bounds b"
  obtains "b = 0" | "b = 1" | "b = 2" | "b = 3"
  using assms by (auto simp: valid_bounds_def bounds_defs)

section \<open>Discrete intervals with dynamic bounds\<close>

record discrete_interval =
  lwb :: int
  upb :: int
  bnds :: interval_bounds

type_synonym bounded_value = "int \<times> interval_bounds"

definition construct :: "int \<Rightarrow> int \<Rightarrow> interval_bounds \<Rightarrow> discrete_interval" where
  "construct lo up b = \<lparr>lwb = lo, upb = up, bnds = b\<rparr>"

definition construct_bounded :: "bounded_value \<Rightarrow> bounded_value \<Rightarrow> discrete_interval" where
  "construct_bounded lo up =
     construct (fst lo) (fst up) (left_bound (snd lo) OR right_bound (snd up))"

definition right_open :: "int \<Rightarrow> int \<Rightarrow> discrete_interval" where
  "right_open lo up = construct lo up bounds_right_open"

text \<open>\<open>identity_element<Type>::value()\<close> of an interval is the default constructor's \<open>[0,0)\<close>.\<close>

definition identity_interval :: discrete_interval where
  "identity_interval = right_open 0 0"

definition domain_next :: "int \<Rightarrow> int" where
  "domain_next v = v + 1"

definition domain_prior :: "int \<Rightarrow> int" where
  "domain_prior v = v - 1"

definition first_ivl :: "discrete_interval \<Rightarrow> int" where
  "first_ivl i = (if is_left_closed (bnds i) then lwb i else domain_next (lwb i))"

definition last_ivl :: "discrete_interval \<Rightarrow> int" where
  "last_ivl i = (if is_right_closed (bnds i) then upb i else domain_prior (upb i))"

definition last_next :: "discrete_interval \<Rightarrow> int" where
  "last_next i = (if is_right_closed (bnds i) then domain_next (upb i) else upb i)"

definition bounded_lower :: "discrete_interval \<Rightarrow> bounded_value" where
  "bounded_lower i = (lwb i, left_bound (bnds i))"

definition reverse_bounded_lower :: "discrete_interval \<Rightarrow> bounded_value" where
  "reverse_bounded_lower i = (lwb i, reverse_left (bnds i))"

definition bounded_upper :: "discrete_interval \<Rightarrow> bounded_value" where
  "bounded_upper i = (upb i, right_bound (bnds i))"

definition reverse_bounded_upper :: "discrete_interval \<Rightarrow> bounded_value" where
  "reverse_bounded_upper i = (upb i, reverse_right (bnds i))"

definition is_empty_ivl :: "discrete_interval \<Rightarrow> bool" where
  "is_empty_ivl i =
     (if bnds i = bounds_closed then upb i < lwb i
      else if bnds i = bounds_open then upb i \<le> lwb i \<or> upb i \<le> domain_next (lwb i)
      else upb i \<le> lwb i)"

section \<open>Orderings\<close>

text \<open>
  \<open>non_empty::exclusive_less\<close>, the comparison of the implementing \<open>std::map\<close>
  (\<open>exclusive_less_than\<close>), asserts that both intervals are non-empty and compares
  \<open>last\<close> with \<open>first\<close>; \<open>exclusive_less\<close> also accepts empty intervals.
\<close>

definition non_empty_exclusive_less :: "discrete_interval \<Rightarrow> discrete_interval \<Rightarrow> bool" where
  "non_empty_exclusive_less l r \<longleftrightarrow> last_ivl l < first_ivl r"

definition exclusive_less :: "discrete_interval \<Rightarrow> discrete_interval \<Rightarrow> bool" where
  "exclusive_less l r \<longleftrightarrow> is_empty_ivl l \<or> is_empty_ivl r \<or> last_ivl l < first_ivl r"

definition lower_less :: "discrete_interval \<Rightarrow> discrete_interval \<Rightarrow> bool" where
  "lower_less l r \<longleftrightarrow> first_ivl l < first_ivl r"

definition upper_less :: "discrete_interval \<Rightarrow> discrete_interval \<Rightarrow> bool" where
  "upper_less l r \<longleftrightarrow> last_ivl l < last_ivl r"

definition lower_equal :: "discrete_interval \<Rightarrow> discrete_interval \<Rightarrow> bool" where
  "lower_equal l r \<longleftrightarrow> first_ivl l = first_ivl r"

definition upper_equal :: "discrete_interval \<Rightarrow> discrete_interval \<Rightarrow> bool" where
  "upper_equal l r \<longleftrightarrow> last_ivl l = last_ivl r"

definition lower_less_equal :: "discrete_interval \<Rightarrow> discrete_interval \<Rightarrow> bool" where
  "lower_less_equal l r \<longleftrightarrow> lower_less l r \<or> lower_equal l r"

definition upper_less_equal :: "discrete_interval \<Rightarrow> discrete_interval \<Rightarrow> bool" where
  "upper_less_equal l r \<longleftrightarrow> upper_less l r \<or> upper_equal l r"

definition lower_min :: "discrete_interval \<Rightarrow> discrete_interval \<Rightarrow> bounded_value" where
  "lower_min l r = (if lower_less l r then bounded_lower l else bounded_lower r)"

definition lower_max :: "discrete_interval \<Rightarrow> discrete_interval \<Rightarrow> bounded_value" where
  "lower_max l r = (if lower_less l r then bounded_lower r else bounded_lower l)"

definition upper_max :: "discrete_interval \<Rightarrow> discrete_interval \<Rightarrow> bounded_value" where
  "upper_max l r = (if upper_less l r then bounded_upper r else bounded_upper l)"

definition upper_min :: "discrete_interval \<Rightarrow> discrete_interval \<Rightarrow> bounded_value" where
  "upper_min l r = (if upper_less l r then bounded_upper l else bounded_upper r)"

definition eq_ivl :: "discrete_interval \<Rightarrow> discrete_interval \<Rightarrow> bool" where
  "eq_ivl l r \<longleftrightarrow> (is_empty_ivl l \<and> is_empty_ivl r) \<or> (lower_equal l r \<and> upper_equal l r)"

definition less_ivl :: "discrete_interval \<Rightarrow> discrete_interval \<Rightarrow> bool" where
  "less_ivl l r \<longleftrightarrow> (if is_empty_ivl l then \<not> is_empty_ivl r
     else lower_less l r \<or> (lower_equal l r \<and> upper_less l r))"

definition contains_ivl :: "discrete_interval \<Rightarrow> discrete_interval \<Rightarrow> bool" where
  "contains_ivl super sub \<longleftrightarrow>
     is_empty_ivl sub \<or> (lower_less_equal super sub \<and> upper_less_equal sub super)"

definition contains_elem :: "discrete_interval \<Rightarrow> int \<Rightarrow> bool" where
  "contains_elem super e \<longleftrightarrow>
     (if is_left_closed (bnds super) then lwb super \<le> e else lwb super < e) \<and>
     (if is_right_closed (bnds super) then e \<le> upb super else e < upb super)"

definition touches :: "discrete_interval \<Rightarrow> discrete_interval \<Rightarrow> bool" where
  "touches l r \<longleftrightarrow> domain_next (last_ivl l) = first_ivl r"

section \<open>Size, hull, difference, intersection\<close>

definition cardinality_ivl :: "discrete_interval \<Rightarrow> int" where
  "cardinality_ivl i = (if is_empty_ivl i then 0 else last_next i - first_ivl i)"

definition hull_ivl :: "discrete_interval \<Rightarrow> discrete_interval \<Rightarrow> discrete_interval" where
  "hull_ivl l r =
     (if is_empty_ivl r then l else if is_empty_ivl l then r
      else construct_bounded (lower_min l r) (upper_max l r))"

definition left_subtract :: "discrete_interval \<Rightarrow> discrete_interval \<Rightarrow> discrete_interval" where
  "left_subtract right left_minuend =
     (if exclusive_less left_minuend right then right
      else construct_bounded (reverse_bounded_upper left_minuend) (bounded_upper right))"

definition right_subtract :: "discrete_interval \<Rightarrow> discrete_interval \<Rightarrow> discrete_interval" where
  "right_subtract left right_minuend =
     (if exclusive_less left right_minuend then left
      else construct_bounded (bounded_lower left) (reverse_bounded_lower right_minuend))"

definition and_ivl :: "discrete_interval \<Rightarrow> discrete_interval \<Rightarrow> discrete_interval" where
  "and_ivl l r =
     (if is_empty_ivl l \<or> is_empty_ivl r then identity_interval
      else construct_bounded (lower_max l r) (upper_min l r))"

definition intersects_ivl :: "discrete_interval \<Rightarrow> discrete_interval \<Rightarrow> bool" where
  "intersects_ivl l r \<longleftrightarrow>
     \<not> (is_empty_ivl l \<or> is_empty_ivl r \<or> exclusive_less l r \<or> exclusive_less r l)"

definition disjoint_ivl :: "discrete_interval \<Rightarrow> discrete_interval \<Rightarrow> bool" where
  "disjoint_ivl l r \<longleftrightarrow>
     is_empty_ivl l \<or> is_empty_ivl r \<or> exclusive_less l r \<or> exclusive_less r l"

definition inner_complement :: "discrete_interval \<Rightarrow> discrete_interval \<Rightarrow> discrete_interval" where
  "inner_complement l r =
     (if is_empty_ivl l \<or> is_empty_ivl r then identity_interval
      else if exclusive_less l r then right_subtract (left_subtract (hull_ivl l r) l) r
      else if exclusive_less r l then right_subtract (left_subtract (hull_ivl r l) r) l
      else identity_interval)"

definition distance_ivl :: "discrete_interval \<Rightarrow> discrete_interval \<Rightarrow> int" where
  "distance_ivl x1 x2 =
     (if is_empty_ivl x1 \<or> is_empty_ivl x2 then 0
      else if last_ivl x1 < first_ivl x2 then first_ivl x2 - last_ivl x1 - 1
      else if last_ivl x2 < first_ivl x1 then first_ivl x1 - last_ivl x2 - 1
      else 0)"

section \<open>Meaning\<close>

definition valid_ivl :: "discrete_interval \<Rightarrow> bool" where
  "valid_ivl i \<longleftrightarrow> valid_bounds (bnds i)"

definition iset :: "discrete_interval \<Rightarrow> int set" where
  "iset i = {first_ivl i .. last_ivl i}"

lemmas ivl_defs = first_ivl_def last_ivl_def last_next_def is_empty_ivl_def
  domain_next_def domain_prior_def

lemma valid_right_open [simp]: "valid_ivl (right_open a b)"
  by (simp add: valid_ivl_def valid_bounds_def right_open_def construct_def)

lemma first_right_open [simp, icl_simps]: "first_ivl (right_open a b) = a"
  by (simp add: ivl_defs bounds_defs right_open_def construct_def)

lemma last_right_open [simp, icl_simps]: "last_ivl (right_open a b) = b - 1"
  by (simp add: ivl_defs bounds_defs right_open_def construct_def)

lemma is_empty_iff: "valid_ivl i \<Longrightarrow> is_empty_ivl i \<longleftrightarrow> last_ivl i < first_ivl i"
  unfolding valid_ivl_def
  by (erule valid_bounds_cases) (auto simp: ivl_defs bounds_defs)

lemma last_next_eq: "valid_ivl i \<Longrightarrow> last_next i = last_ivl i + 1"
  by (simp add: ivl_defs)

lemma iset_empty_iff: "valid_ivl i \<Longrightarrow> iset i = {} \<longleftrightarrow> is_empty_ivl i"
  by (auto simp: iset_def is_empty_iff)

lemma contains_elem_iff: "contains_elem i x \<longleftrightarrow> x \<in> iset i"
  by (auto simp: contains_elem_def iset_def ivl_defs)

lemma bounds_bits:
  "left_bound (left_bound b OR right_bound c) = left_bound b"
  "right_bound (left_bound b OR right_bound c) = right_bound c"
  "left_bound (left_bound b) = left_bound b"
  "right_bound (right_bound b) = right_bound b"
  "right_bound (reverse_left b) = reverse_left b"
  "left_bound (reverse_right b) = reverse_right b"
  by (rule bit_word_eqI; auto simp: bounds_defs bit_simps numeral_eq_Suc)+

lemma left_bound_bit: "left_bound b = (if bit b 1 then 2 else 0)"
  by (rule bit_word_eqI) (auto simp: bounds_defs bit_simps numeral_eq_Suc)

lemma right_bound_bit: "right_bound b = (if bit b 0 then 1 else 0)"
  by (rule bit_word_eqI) (auto simp: bounds_defs bit_simps intro: gr0I)

lemma is_left_closed_bit: "is_left_closed b \<longleftrightarrow> bit b 1"
  by (simp add: is_left_closed_def left_bound_bit)

lemma is_right_closed_bit: "is_right_closed b \<longleftrightarrow> bit b 0"
  by (simp add: is_right_closed_def right_bound_bit)

lemma is_closed_bits [simp]:
  "is_left_closed (left_bound b OR right_bound c) = is_left_closed b"
  "is_right_closed (left_bound b OR right_bound c) = is_right_closed c"
  "is_left_closed (left_bound b) = is_left_closed b"
  "is_right_closed (right_bound b) = is_right_closed b"
  by (simp_all add: is_left_closed_def is_right_closed_def bounds_bits)

lemma is_closed_reverse [simp]:
  "is_right_closed (reverse_left b) = (\<not> is_left_closed b)"
  "is_left_closed (reverse_right b) = (\<not> is_right_closed b)"
  unfolding is_left_closed_bit is_right_closed_bit reverse_left_def reverse_right_def
    bit_and_iff bit_push_bit_iff bit_drop_bit_eq bit_not_iff
  by (simp_all add: bit_simps numeral_eq_Suc)

lemma valid_bounds_or [simp]: "valid_bounds (left_bound b OR right_bound c)"
  by (auto simp: valid_bounds_def left_bound_bit right_bound_bit bounds_defs)

lemma construct_bounded_valid [simp]: "valid_ivl (construct_bounded lo up)"
  by (simp add: valid_ivl_def construct_bounded_def construct_def)

lemma first_construct_bounded [icl_simps]:
  "first_ivl (construct_bounded lo up) = (if is_left_closed (snd lo) then fst lo else fst lo + 1)"
  by (simp add: construct_bounded_def construct_def first_ivl_def domain_next_def)

lemma last_construct_bounded [icl_simps]:
  "last_ivl (construct_bounded lo up) = (if is_right_closed (snd up) then fst up else fst up - 1)"
  by (simp add: construct_bounded_def construct_def last_ivl_def domain_prior_def)

lemma bounded_value_ends [icl_simps]:
  "(if is_left_closed (snd (bounded_lower i)) then fst (bounded_lower i) else fst (bounded_lower i) + 1) = first_ivl i"
  "(if is_right_closed (snd (bounded_upper i)) then fst (bounded_upper i) else fst (bounded_upper i) - 1) = last_ivl i"
  "(if is_left_closed (snd (reverse_bounded_upper i)) then fst (reverse_bounded_upper i)
    else fst (reverse_bounded_upper i) + 1) = last_ivl i + 1"
  "(if is_right_closed (snd (reverse_bounded_lower i)) then fst (reverse_bounded_lower i)
    else fst (reverse_bounded_lower i) - 1) = first_ivl i - 1"
  by (simp_all add: bounded_lower_def bounded_upper_def reverse_bounded_upper_def
      reverse_bounded_lower_def ivl_defs)

section \<open>Ends of the operations\<close>

lemma left_subtract_ends [icl_simps]:
  assumes "\<not> exclusive_less l r"
  shows "first_ivl (left_subtract r l) = last_ivl l + 1" "last_ivl (left_subtract r l) = last_ivl r"
  using assms by (simp_all only: left_subtract_def if_False first_construct_bounded
      last_construct_bounded bounded_value_ends)

lemma right_subtract_ends [icl_simps]:
  assumes "\<not> exclusive_less l r"
  shows "first_ivl (right_subtract l r) = first_ivl l" "last_ivl (right_subtract l r) = first_ivl r - 1"
  using assms by (simp_all only: right_subtract_def if_False first_construct_bounded
      last_construct_bounded bounded_value_ends)

lemma left_subtract_same: "exclusive_less l r \<Longrightarrow> left_subtract r l = r"
  by (simp add: left_subtract_def)

lemma right_subtract_same: "exclusive_less l r \<Longrightarrow> right_subtract l r = l"
  by (simp add: right_subtract_def)

lemma valid_left_subtract [simp]: "valid_ivl r \<Longrightarrow> valid_ivl (left_subtract r l)"
  by (simp add: left_subtract_def)

lemma valid_right_subtract [simp]: "valid_ivl l \<Longrightarrow> valid_ivl (right_subtract l r)"
  by (simp add: right_subtract_def)

lemma lower_minmax_ends [icl_simps]:
  "(if is_left_closed (snd (lower_min l r)) then fst (lower_min l r) else fst (lower_min l r) + 1)
     = min (first_ivl l) (first_ivl r)"
  "(if is_left_closed (snd (lower_max l r)) then fst (lower_max l r) else fst (lower_max l r) + 1)
     = max (first_ivl l) (first_ivl r)"
  "(if is_right_closed (snd (upper_max l r)) then fst (upper_max l r) else fst (upper_max l r) - 1)
     = max (last_ivl l) (last_ivl r)"
  "(if is_right_closed (snd (upper_min l r)) then fst (upper_min l r) else fst (upper_min l r) - 1)
     = min (last_ivl l) (last_ivl r)"
  using bounded_value_ends(1,2)[of l] bounded_value_ends(1,2)[of r]
  by (auto simp: lower_min_def lower_max_def upper_max_def upper_min_def lower_less_def upper_less_def
      simp del: bounded_value_ends)

lemma hull_ends [icl_simps]:
  assumes "\<not> is_empty_ivl l" "\<not> is_empty_ivl r"
  shows "first_ivl (hull_ivl l r) = min (first_ivl l) (first_ivl r)"
    "last_ivl (hull_ivl l r) = max (last_ivl l) (last_ivl r)"
  using assms by (simp_all only: hull_ivl_def if_False first_construct_bounded last_construct_bounded
      lower_minmax_ends)

lemma and_ends [icl_simps]:
  assumes "\<not> is_empty_ivl l" "\<not> is_empty_ivl r"
  shows "first_ivl (and_ivl l r) = max (first_ivl l) (first_ivl r)"
    "last_ivl (and_ivl l r) = min (last_ivl l) (last_ivl r)"
  using assms by (simp_all only: and_ivl_def if_False simp_thms first_construct_bounded
      last_construct_bounded lower_minmax_ends)

lemma valid_hull [simp]: "valid_ivl l \<Longrightarrow> valid_ivl r \<Longrightarrow> valid_ivl (hull_ivl l r)"
  by (simp add: hull_ivl_def)

lemma valid_and [simp]: "valid_ivl (and_ivl l r)"
  by (simp add: and_ivl_def identity_interval_def)

lemma exclusive_less_iff:
  "valid_ivl l \<Longrightarrow> valid_ivl r \<Longrightarrow>
     exclusive_less l r \<longleftrightarrow> iset l = {} \<or> iset r = {} \<or> last_ivl l < first_ivl r"
  by (simp add: exclusive_less_def iset_empty_iff)

section \<open>Meaning of the operations as sets of integers\<close>

lemma iset_left_subtract:
  assumes "valid_ivl l" "valid_ivl r" "\<not> is_empty_ivl l"
  shows "iset (left_subtract r l) = {x \<in> iset r. last_ivl l < x \<or> last_ivl l < first_ivl r}"
proof (cases "exclusive_less l r")
  case True
  then show ?thesis using assms
    by (auto simp: left_subtract_same exclusive_less_iff iset_empty_iff [symmetric])
next
  case False
  then show ?thesis using assms
    by (auto simp: exclusive_less_iff iset_def icl_simps)
qed

lemma iset_right_subtract:
  assumes "valid_ivl l" "valid_ivl r" "\<not> is_empty_ivl r"
  shows "iset (right_subtract l r) = {x \<in> iset l. x < first_ivl r \<or> last_ivl l < first_ivl r}"
proof (cases "exclusive_less l r")
  case True
  then show ?thesis using assms
    by (auto simp: right_subtract_same exclusive_less_iff iset_empty_iff [symmetric])
next
  case False
  then show ?thesis using assms
    by (auto simp: exclusive_less_iff iset_def icl_simps)
qed

lemma iset_and:
  assumes "valid_ivl l" "valid_ivl r"
  shows "iset (and_ivl l r) = iset l \<inter> iset r"
proof (cases "is_empty_ivl l \<or> is_empty_ivl r")
  case True
  then have "iset (and_ivl l r) = {}"
    by (simp add: and_ivl_def identity_interval_def iset_def)
  then show ?thesis using True assms by (auto simp: iset_empty_iff [symmetric])
next
  case False
  then show ?thesis by (auto simp: iset_def icl_simps)
qed

lemma iset_hull_touching:
  assumes "valid_ivl l" "valid_ivl r" "\<not> is_empty_ivl l" "\<not> is_empty_ivl r" "touches l r"
  shows "iset (hull_ivl l r) = iset l \<union> iset r"
    "first_ivl (hull_ivl l r) = first_ivl l" "last_ivl (hull_ivl l r) = last_ivl r"
  using assms by (auto simp: iset_def icl_simps touches_def domain_next_def is_empty_iff)

end
