(* ===== verification/IclMap.thy ===== *)
theory IclMap
  imports IclInterval
begin

text \<open>
  \<open>interval_map\<close> of the container library (\<open>interval_base_map.hpp\<close>,
  \<open>interval_map.hpp\<close>, \<open>detail/interval_set_algo.hpp\<close>,
  \<open>concept/interval_map.hpp\<close>, \<open>concept/interval_associator.hpp\<close>) with the
  default traits \<open>partial_absorber\<close>, for any codomain type.

  The implementing \<open>std::map\<close>, ordered by \<open>exclusive_less_than\<close>, is the list of
  its (interval, value) pairs in key order. An iterator is a cursor: the reversed list of
  the pairs before it, the pair it points to, and the list of the pairs after it, so that
  \<open>--it\<close> and \<open>++it\<close> are the heads of the two lists and insertion or erasure next
  to an iterator leaves it valid, as in \<open>std::map\<close>. \<open>cyclic_prior\<close> is the head
  of the left list, and \<open>end()\<close> where that list is empty. The combiner functor is
  the pair of \<open>comb\<close> (its \<open>operator()\<close>) and \<open>idel\<close> (its
  \<open>identity_element()\<close>).
\<close>

type_synonym 'c segment = "discrete_interval \<times> 'c"
type_synonym 'c imap = "'c segment list"
type_synonym 'c cursor = "'c segment list \<times> 'c segment \<times> 'c segment list"

fun flatten :: "'c cursor \<Rightarrow> 'c imap" where
  "flatten (pre, cur, suf) = rev pre @ cur # suf"

section \<open>Joining neighbours\<close>

definition joinable :: "'c segment \<Rightarrow> 'c segment \<Rightarrow> bool" where
  "joinable some nxt \<longleftrightarrow> touches (fst some) (fst nxt) \<and> snd some = snd nxt"

definition join_nodes :: "'c segment \<Rightarrow> 'c segment \<Rightarrow> 'c segment" where
  "join_nodes l r = (hull_ivl (fst l) (fst r), snd l)"

fun join_left :: "'c cursor \<Rightarrow> 'c cursor" where
  "join_left ([], cur, suf) = ([], cur, suf)"
| "join_left (pred # pre, cur, suf) =
     (if joinable pred cur then (pre, join_nodes pred cur, suf) else (pred # pre, cur, suf))"

fun join_right :: "'c cursor \<Rightarrow> 'c cursor" where
  "join_right (pre, cur, []) = (pre, cur, [])"
| "join_right (pre, cur, succ # suf) =
     (if joinable cur succ then (pre, join_nodes cur succ, suf) else (pre, cur, succ # suf))"

definition join_neighbours :: "'c cursor \<Rightarrow> 'c cursor" where
  "join_neighbours z = join_right (join_left z)"

section \<open>Handlers of interval\_map\<close>

text \<open>\<open>on_absorbtion::is_absorbable\<close>\<close>

definition is_absorbable :: "'c \<Rightarrow> 'c \<Rightarrow> bool" where
  "is_absorbable idel co_value \<longleftrightarrow> co_value = idel"

text \<open>\<open>handle_inserted(it_)\<close>\<close>

definition handle_inserted :: "'c cursor \<Rightarrow> 'c cursor" where
  "handle_inserted z = join_neighbours z"

text \<open>
  \<open>handle_inserted(prior_, it_)\<close> after \<open>gap_insert\<close> put \<open>ins\<close> right
  behind \<open>prior_\<close>: the left list with \<open>ins\<close> in it. With \<open>prior_\<close> at
  \<open>end()\<close> nothing is joined.
\<close>

fun handle_inserted_after :: "'c segment list \<Rightarrow> 'c segment \<Rightarrow> 'c segment list" where
  "handle_inserted_after [] ins = [ins]"
| "handle_inserted_after (prior # pre) ins =
     (if joinable prior ins then join_nodes prior ins # pre else ins # prior # pre)"

text \<open>
  \<open>handle_left_combined(it_++)\<close>: the left list as seen from the iterator after
  \<open>it_\<close>.
\<close>

definition handle_left_combined :: "'c \<Rightarrow> 'c segment list \<Rightarrow> 'c segment \<Rightarrow> 'c segment list" where
  "handle_left_combined idel pre cur =
     (if is_absorbable idel (snd cur) then pre
      else (case join_left (pre, cur, []) of (pre', cur', _) \<Rightarrow> cur' # pre'))"

text \<open>\<open>handle_preceeded_combined(prior_, it_)\<close>: the whole map afterwards.\<close>

definition handle_preceeded_combined :: "'c \<Rightarrow> 'c cursor \<Rightarrow> 'c imap" where
  "handle_preceeded_combined idel z =
     (case z of (pre, cur, suf) \<Rightarrow>
        if is_absorbable idel (snd cur) then rev pre @ suf else flatten (join_neighbours z))"

text \<open>
  \<open>handle_reinserted(insertion_)\<close>: the list from the reinserted pair on (its left
  neighbour plays no part).
\<close>

definition handle_reinserted :: "'c segment \<Rightarrow> 'c segment list \<Rightarrow> 'c segment list" where
  "handle_reinserted ins suf = (case join_right ([], ins, suf) of (_, ins', suf') \<Rightarrow> ins' # suf')"

text \<open>\<open>gap_insert_at(it_, prior_, end_gap, co_val)\<close>: the whole map afterwards.\<close>

definition gap_insert_at :: "'c \<Rightarrow> 'c cursor \<Rightarrow> discrete_interval \<Rightarrow> 'c \<Rightarrow> 'c imap" where
  "gap_insert_at idel z end_gap co_val =
     (case z of (pre, cur, suf) \<Rightarrow>
        if is_absorbable idel (snd cur)
        then flatten (join_right (pre, (end_gap, co_val), suf))
        else (case join_left z of (pre', cur', suf') \<Rightarrow>
                flatten (join_neighbours (cur' # pre', (end_gap, co_val), suf'))))"

section \<open>Addition\<close>

definition add_front :: "discrete_interval \<Rightarrow> 'c cursor \<Rightarrow> 'c cursor" where
  "add_front inter_val z =
     (case z of (pre, cur, suf) \<Rightarrow>
        let left_resid = right_subtract (fst cur) inter_val
        in if \<not> is_empty_ivl left_resid
           then ((left_resid, snd cur) # pre, (left_subtract (fst cur) left_resid, snd cur), suf)
           else z)"

text \<open>
  In \<open>add_segment\<close> a lead gap before \<open>begin()\<close> calls
  \<open>handle_inserted(it_, inserted_)\<close>, with \<open>it_\<close> for \<open>prior_\<close>: they are in
  the wrong order to touch, so nothing is joined (lemma \<open>lead_gap_not_joinable\<close>).
\<close>

definition add_segment ::
  "('c \<Rightarrow> 'c \<Rightarrow> 'c) \<Rightarrow> 'c \<Rightarrow> discrete_interval \<Rightarrow> 'c \<Rightarrow> 'c segment list \<Rightarrow> 'c segment \<Rightarrow> 'c segment list" where
  "add_segment comb idel inter_val co_val pre cur =
     (let lead_gap = right_subtract inter_val (fst cur);
          pre' = (if \<not> is_empty_ivl lead_gap then handle_inserted_after pre (lead_gap, co_val) else pre)
      in handle_left_combined idel pre' (fst cur, comb (snd cur) co_val))"

text \<open>The loop runs from \<open>it_\<close> to \<open>last_\<close>, the last pair of the collision sequence.\<close>

fun add_main ::
  "('c \<Rightarrow> 'c \<Rightarrow> 'c) \<Rightarrow> 'c \<Rightarrow> discrete_interval \<Rightarrow> 'c \<Rightarrow> 'c segment list \<Rightarrow> 'c segment \<Rightarrow> 'c segment list
     \<Rightarrow> discrete_interval \<times> 'c segment list \<times> 'c segment" where
  "add_main comb idel inter_val co_val pre cur [] = (inter_val, pre, cur)"
| "add_main comb idel inter_val co_val pre cur (nxt # mid) =
     add_main comb idel (left_subtract inter_val (fst cur)) co_val
       (add_segment comb idel inter_val co_val pre cur) nxt mid"

definition add_rear ::
  "('c \<Rightarrow> 'c \<Rightarrow> 'c) \<Rightarrow> 'c \<Rightarrow> discrete_interval \<Rightarrow> 'c \<Rightarrow> 'c cursor \<Rightarrow> 'c imap" where
  "add_rear comb idel inter_val co_val z =
     (case z of (pre, cur, suf) \<Rightarrow>
        let cur_itv = fst cur;
            lead_gap = right_subtract inter_val cur_itv;
            pre' = (if \<not> is_empty_ivl lead_gap then handle_inserted_after pre (lead_gap, co_val) else pre);
            end_gap = left_subtract inter_val cur_itv
        in if \<not> is_empty_ivl end_gap
           then gap_insert_at idel (pre', (cur_itv, comb (snd cur) co_val), suf) end_gap co_val
           else let right_resid = left_subtract cur_itv inter_val
                in if is_empty_ivl right_resid
                   then handle_preceeded_combined idel (pre', (cur_itv, comb (snd cur) co_val), suf)
                   else handle_preceeded_combined idel
                          (pre', (right_subtract cur_itv right_resid, comb (snd cur) co_val),
                           handle_reinserted (right_resid, snd cur) suf))"

text \<open>
  \<open>lower_bound\<close> and \<open>upper_bound\<close> of the implementing map cut it into the pairs
  before, inside and after the collision sequence of an interval.
\<close>

definition before_range :: "discrete_interval \<Rightarrow> 'c imap \<Rightarrow> 'c imap" where
  "before_range i m = takeWhile (\<lambda>s. non_empty_exclusive_less (fst s) i) m"

definition from_lower_bound :: "discrete_interval \<Rightarrow> 'c imap \<Rightarrow> 'c imap" where
  "from_lower_bound i m = dropWhile (\<lambda>s. non_empty_exclusive_less (fst s) i) m"

definition equal_range :: "discrete_interval \<Rightarrow> 'c imap \<Rightarrow> 'c imap" where
  "equal_range i m = takeWhile (\<lambda>s. \<not> non_empty_exclusive_less i (fst s)) (from_lower_bound i m)"

definition from_upper_bound :: "discrete_interval \<Rightarrow> 'c imap \<Rightarrow> 'c imap" where
  "from_upper_bound i m = dropWhile (\<lambda>s. \<not> non_empty_exclusive_less i (fst s)) (from_lower_bound i m)"

text \<open>
  \<open>_add(addend)\<close>. The insertion into the implementing map succeeds when no pair
  overlaps the addend.
\<close>

definition add_seg :: "('c \<Rightarrow> 'c \<Rightarrow> 'c) \<Rightarrow> 'c \<Rightarrow> 'c segment \<Rightarrow> 'c imap \<Rightarrow> 'c imap" where
  "add_seg comb idel addend m =
     (let inter_val = fst addend; co_val = snd addend
      in if is_empty_ivl inter_val then m
         else if is_absorbable idel co_val then m
         else let pre = rev (before_range inter_val m); suf = from_upper_bound inter_val m
              in case equal_range inter_val m of
                   [] \<Rightarrow> flatten (handle_inserted (pre, (inter_val, co_val), suf))
                 | cur # mid \<Rightarrow>
                     (case add_front inter_val (pre, cur, []) of (pre1, first, _) \<Rightarrow>
                      case add_main comb idel inter_val co_val pre1 first mid of (rest, pre2, lst) \<Rightarrow>
                        add_rear comb idel rest co_val (pre2, lst, suf)))"

text \<open>
  \<open>_add(prior_, addend)\<close>: \<open>add_at\<close> inserts the identity element and combines
  the value into it. The hint only guides the search of the implementing map. (The test
  for an existing pair with the same key and the identity value never succeeds in an
  absorber, which stores no identity values: \<open>wf_imap\<close>.)
\<close>

definition add_seg_hint :: "('c \<Rightarrow> 'c \<Rightarrow> 'c) \<Rightarrow> 'c \<Rightarrow> 'c segment \<Rightarrow> 'c imap \<Rightarrow> 'c imap" where
  "add_seg_hint comb idel addend m =
     (let inter_val = fst addend; co_val = snd addend
      in if is_empty_ivl inter_val then m
         else if is_absorbable idel co_val then m
         else let pre = rev (before_range inter_val m); suf = from_upper_bound inter_val m
              in case equal_range inter_val m of
                   [] \<Rightarrow> flatten (handle_inserted (pre, (inter_val, comb idel co_val), suf))
                 | cur # mid \<Rightarrow>
                     (case add_front inter_val (pre, cur, []) of (pre1, first, _) \<Rightarrow>
                      case add_main comb idel inter_val co_val pre1 first mid of (rest, pre2, lst) \<Rightarrow>
                        add_rear comb idel rest co_val (pre2, lst, suf)))"

section \<open>Erasure, intersection, range\<close>

definition erase_single :: "discrete_interval \<Rightarrow> 'c segment \<Rightarrow> 'c segment list" where
  "erase_single minuend s =
     (let left_resid = right_subtract (fst s) minuend;
          right_resid = left_subtract (fst s) minuend
      in if \<not> is_empty_ivl left_resid
         then (if \<not> is_empty_ivl right_resid then [(left_resid, snd s), (right_resid, snd s)]
               else [(left_resid, snd s)])
         else if \<not> is_empty_ivl right_resid then [(left_subtract (fst s) minuend, snd s)]
         else [])"

definition erase_many :: "discrete_interval \<Rightarrow> 'c segment \<Rightarrow> 'c segment \<Rightarrow> 'c segment list" where
  "erase_many minuend fst_seg lst_seg =
     (let left_resid = right_subtract (fst fst_seg) minuend;
          right_resid = left_subtract (fst lst_seg) minuend
      in (if is_empty_ivl left_resid then [] else [(left_resid, snd fst_seg)])
       @ (if is_empty_ivl right_resid then [] else [(right_resid, snd lst_seg)]))"

definition erase_interval :: "discrete_interval \<Rightarrow> 'c imap \<Rightarrow> 'c imap" where
  "erase_interval minuend m =
     (if is_empty_ivl minuend then m
      else case equal_range minuend m of
             [] \<Rightarrow> m
           | [s] \<Rightarrow> before_range minuend m @ erase_single minuend s @ from_upper_bound minuend m
           | s # t # ts \<Rightarrow> before_range minuend m @ erase_many minuend s (last (t # ts))
                            @ from_upper_bound minuend m)"

text \<open>\<open>add_intersection(section, object, inter_val)\<close> for an interval.\<close>

fun add_intersection_loop ::
  "('c \<Rightarrow> 'c \<Rightarrow> 'c) \<Rightarrow> 'c \<Rightarrow> discrete_interval \<Rightarrow> 'c imap \<Rightarrow> 'c imap \<Rightarrow> 'c imap" where
  "add_intersection_loop comb idel inter_val [] sect = sect"
| "add_intersection_loop comb idel inter_val (s # ss) sect =
     (let common_interval = and_ivl (fst s) inter_val
      in add_intersection_loop comb idel inter_val ss
           (if \<not> is_empty_ivl common_interval
            then add_seg_hint comb idel (common_interval, snd s) sect else sect))"

definition add_intersection ::
  "('c \<Rightarrow> 'c \<Rightarrow> 'c) \<Rightarrow> 'c \<Rightarrow> 'c imap \<Rightarrow> 'c imap \<Rightarrow> discrete_interval \<Rightarrow> 'c imap" where
  "add_intersection comb idel sect obj inter_val =
     (if is_empty_ivl inter_val then sect
      else add_intersection_loop comb idel inter_val (equal_range inter_val obj) sect)"

text \<open>\<open>operator &\<close> with an interval: \<open>operator &=\<close> on a copy.\<close>

definition map_and :: "('c \<Rightarrow> 'c \<Rightarrow> 'c) \<Rightarrow> 'c \<Rightarrow> 'c imap \<Rightarrow> discrete_interval \<Rightarrow> 'c imap" where
  "map_and comb idel obj operand = add_intersection comb idel [] obj operand"

definition lower_map :: "'c imap \<Rightarrow> int" where
  "lower_map m = (if m = [] then 1 else lwb (fst (hd m)))"

definition upper_map :: "'c imap \<Rightarrow> int" where
  "upper_map m = (if m = [] then 0 else upb (fst (last m)))"

definition cardinality_map :: "'c imap \<Rightarrow> int" where
  "cardinality_map m = foldl (\<lambda>n s. n + cardinality_ivl (fst s)) 0 m"

definition iterative_size :: "'c imap \<Rightarrow> nat" where
  "iterative_size m = length m"

text \<open>\<open>find(key)\<close> and total selection: the pair that contains the key.\<close>

fun find_seg :: "'c imap \<Rightarrow> int \<Rightarrow> 'c segment option" where
  "find_seg [] x = None"
| "find_seg (s # m) x = (if contains_elem (fst s) x then Some s else find_seg m x)"

definition lookup_map :: "'c imap \<Rightarrow> int \<Rightarrow> 'c option" where
  "lookup_map m x = map_option snd (find_seg m x)"

end
