(* ===== verification/IclMapInv.thy ===== *)
theory IclMapInv
  imports IclMap
begin

text \<open>
  Correctness of the interval map. A map means the set \<open>den\<close> of its (element, value)
  pairs, and a total function \<open>sem\<close> that returns the identity element outside the map.
  \<open>wf_imap\<close> is the invariant of a joining, absorbing interval map: valid non-empty
  intervals, no identity value stored, segments disjoint and in order, and no two
  neighbours that could be joined. Addition, erasure and intersection keep it and act
  pointwise on \<open>sem\<close>.
\<close>

section \<open>Invariant and meaning\<close>

definition seg_ok :: "'c \<Rightarrow> 'c segment \<Rightarrow> bool" where
  "seg_ok idel s \<longleftrightarrow> valid_ivl (fst s) \<and> \<not> is_empty_ivl (fst s) \<and> snd s \<noteq> idel"

definition seg_lt :: "'c segment \<Rightarrow> 'c segment \<Rightarrow> bool" where
  "seg_lt a b \<longleftrightarrow> last_ivl (fst a) < first_ivl (fst b)"

definition wf_imap :: "'c \<Rightarrow> 'c imap \<Rightarrow> bool" where
  "wf_imap idel m \<longleftrightarrow> list_all (seg_ok idel) m \<and> sorted_wrt seg_lt m \<and>
     successively (\<lambda>a b. \<not> joinable a b) m"

definition sden :: "'c segment \<Rightarrow> (int \<times> 'c) set" where
  "sden s = iset (fst s) \<times> {snd s}"

definition den :: "'c imap \<Rightarrow> (int \<times> 'c) set" where
  "den m = (\<Union>s\<in>set m. sden s)"

definition sem :: "'c \<Rightarrow> 'c imap \<Rightarrow> int \<Rightarrow> 'c" where
  "sem idel m x = (case lookup_map m x of Some v \<Rightarrow> v | None \<Rightarrow> idel)"

text \<open>The two halves of a map seen from a cursor: all left of \<open>k\<close>, all right of \<open>k\<close>.\<close>

fun lwf :: "'c \<Rightarrow> 'c segment list \<Rightarrow> int \<Rightarrow> bool" where
  "lwf idel [] k \<longleftrightarrow> True"
| "lwf idel (s # pre) k \<longleftrightarrow> seg_ok idel s \<and> last_ivl (fst s) < k \<and> lwf idel pre (first_ivl (fst s)) \<and>
     (pre = [] \<or> \<not> joinable (hd pre) s)"

fun rwf :: "'c \<Rightarrow> 'c segment list \<Rightarrow> int \<Rightarrow> bool" where
  "rwf idel [] k \<longleftrightarrow> True"
| "rwf idel (s # suf) k \<longleftrightarrow> seg_ok idel s \<and> k < first_ivl (fst s) \<and> rwf idel suf (last_ivl (fst s)) \<and>
     (suf = [] \<or> \<not> joinable s (hd suf))"

lemma wf_seg_ok: "wf_imap idel m \<Longrightarrow> s \<in> set m \<Longrightarrow> seg_ok idel s"
  by (simp add: wf_imap_def list_all_iff)

lemma seg_ok_ends: "seg_ok idel s \<Longrightarrow> first_ivl (fst s) \<le> last_ivl (fst s)"
  by (auto simp: seg_ok_def is_empty_iff)

lemma seg_okI [intro]:
  "valid_ivl i \<Longrightarrow> first_ivl i \<le> last_ivl i \<Longrightarrow> v \<noteq> idel \<Longrightarrow> seg_ok idel (i, v)"
  by (simp add: seg_ok_def is_empty_iff)

lemma lwf_mono: "lwf idel pre k \<Longrightarrow> k \<le> k' \<Longrightarrow> lwf idel pre k'"
  by (cases pre) auto

lemma rwf_mono: "rwf idel suf k \<Longrightarrow> k' \<le> k \<Longrightarrow> rwf idel suf k'"
  by (cases suf) auto

lemma rwf_iff:
  "rwf idel m k \<longleftrightarrow> wf_imap idel m \<and> (\<forall>s\<in>set m. k < first_ivl (fst s))"
proof (induction m arbitrary: k)
  case (Cons s m)
  have "seg_ok idel s \<Longrightarrow> k < first_ivl (fst s) \<Longrightarrow> \<forall>t\<in>set m. last_ivl (fst s) < first_ivl (fst t) \<Longrightarrow>
      \<forall>t\<in>set m. k < first_ivl (fst t)"
    by (fastforce dest: seg_ok_ends)
  then show ?case
    by (auto simp: Cons wf_imap_def seg_lt_def successively_Cons)
qed (simp add: wf_imap_def)

lemma lwf_iff:
  "lwf idel pre k \<longleftrightarrow> wf_imap idel (rev pre) \<and> (\<forall>s\<in>set pre. last_ivl (fst s) < k)"
proof (induction pre arbitrary: k)
  case (Cons s m)
  have "seg_ok idel s \<Longrightarrow> last_ivl (fst s) < k \<Longrightarrow> \<forall>t\<in>set m. last_ivl (fst t) < first_ivl (fst s) \<Longrightarrow>
      \<forall>t\<in>set m. last_ivl (fst t) < k"
    by (fastforce dest: seg_ok_ends)
  then show ?case
    by (auto simp: Cons wf_imap_def seg_lt_def successively_snoc sorted_wrt_append last_rev list_all_iff)
qed (simp add: wf_imap_def)

lemma wf_cursor:
  assumes "lwf idel pre k" "rwf idel suf (k - 1)" "pre = [] \<or> suf = [] \<or> \<not> joinable (hd pre) (hd suf)"
  shows "wf_imap idel (rev pre @ suf)"
proof -
  have "seg_lt a b" if "a \<in> set pre" "b \<in> set suf" for a b
    using that assms(1,2) by (fastforce simp: lwf_iff rwf_iff seg_lt_def)
  then show ?thesis using assms
    by (auto simp: lwf_iff rwf_iff wf_imap_def sorted_wrt_append successively_append_iff last_rev)
qed

lemma den_simps [simp]:
  "den [] = {}" "den (s # m) = sden s \<union> den m" "den (m @ n) = den m \<union> den n" "den (rev m) = den m"
  by (auto simp: den_def)

lemma in_sden [simp]: "(x, v) \<in> sden s \<longleftrightarrow> first_ivl (fst s) \<le> x \<and> x \<le> last_ivl (fst s) \<and> v = snd s"
  by (auto simp: sden_def iset_def)

lemma find_seg_Some: "find_seg m x = Some s \<Longrightarrow> s \<in> set m \<and> x \<in> iset (fst s)"
  by (induction m) (auto simp: contains_elem_iff split: if_splits)

lemma find_seg_None: "find_seg m x = None \<longleftrightarrow> (\<forall>s\<in>set m. x \<notin> iset (fst s))"
  by (induction m) (auto simp: contains_elem_iff)

lemma wf_den_unique:
  assumes "wf_imap idel m" "(x, v) \<in> den m" "(x, w) \<in> den m"
  shows "v = w"
  using assms
proof (induction m)
  case (Cons s m)
  have "wf_imap idel m" "\<forall>t\<in>set m. last_ivl (fst s) < first_ivl (fst t)"
    using Cons.prems(1) by (auto simp: wf_imap_def seg_lt_def successively_Cons)
  then show ?case using Cons by (fastforce simp: den_def iset_def)
qed simp

lemma lookup_den:
  assumes "wf_imap idel m"
  shows "lookup_map m x = Some v \<longleftrightarrow> (x, v) \<in> den m"
proof -
  have "(x, w) \<in> den m" if lk: "lookup_map m x = Some w" for w
  proof -
    obtain s where "find_seg m x = Some s" "snd s = w"
      using lk by (cases "find_seg m x") (simp_all add: lookup_map_def)
    then show ?thesis using find_seg_Some [of m x s] by (auto simp: den_def iset_def intro: bexI [of _ s])
  qed
  moreover have "lookup_map m x = None \<Longrightarrow> (x, v) \<notin> den m"
    by (auto simp: lookup_map_def den_def find_seg_None iset_def)
  ultimately show ?thesis using wf_den_unique [OF assms] by (cases "lookup_map m x") auto
qed

lemma wf_den_not_idel: "wf_imap idel m \<Longrightarrow> (x, v) \<in> den m \<Longrightarrow> v \<noteq> idel"
  by (auto simp: wf_imap_def den_def list_all_iff seg_ok_def)

lemma sem_eqI:
  assumes "wf_imap idel m" "v \<noteq> idel \<Longrightarrow> (x, v) \<in> den m" "\<And>w. v = idel \<Longrightarrow> (x, w) \<notin> den m"
  shows "sem idel m x = v"
proof (cases "v = idel")
  case True
  then have "lookup_map m x = None"
    using assms(3) lookup_den [OF assms(1), of x] by (cases "lookup_map m x") auto
  then show ?thesis using True by (simp add: sem_def)
next
  case False
  then have "lookup_map m x = Some v" using assms by (simp add: lookup_den)
  then show ?thesis by (simp add: sem_def)
qed

lemma sem_den:
  assumes "wf_imap idel m"
  shows "(x, v) \<in> den m \<longleftrightarrow> sem idel m x = v \<and> v \<noteq> idel"
proof
  assume "(x, v) \<in> den m"
  then show "sem idel m x = v \<and> v \<noteq> idel"
    using wf_den_not_idel [OF assms] assms by (auto intro!: sem_eqI)
next
  assume a: "sem idel m x = v \<and> v \<noteq> idel"
  then have "lookup_map m x = Some v" by (auto simp: sem_def split: option.splits)
  then show "(x, v) \<in> den m" using assms by (simp add: lookup_den)
qed

section \<open>Joining\<close>

lemma touchesD: "touches l r \<Longrightarrow> last_ivl l + 1 = first_ivl r"
  by (simp add: touches_def domain_next_def)

lemma join_nodes_ok:
  assumes "joinable l r" "seg_ok idel l" "seg_ok idel r"
  shows "seg_ok idel (join_nodes l r)" "sden (join_nodes l r) = sden l \<union> sden r"
    "first_ivl (fst (join_nodes l r)) = first_ivl (fst l)"
    "last_ivl (fst (join_nodes l r)) = last_ivl (fst r)"
    "snd (join_nodes l r) = snd l" "snd (join_nodes l r) = snd r"
  using assms iset_hull_touching [of "fst l" "fst r"]
  by (auto simp: join_nodes_def joinable_def seg_ok_def sden_def is_empty_iff dest: touchesD)

lemma joinable_cong:
  "last_ivl (fst a) = last_ivl (fst a') \<Longrightarrow> snd a = snd a' \<Longrightarrow> joinable a b = joinable a' b"
  "first_ivl (fst b) = first_ivl (fst b') \<Longrightarrow> snd b = snd b' \<Longrightarrow> joinable a b = joinable a b'"
  by (simp_all add: joinable_def touches_def)

lemma joinable_join_nodes:
  assumes "joinable l r" "seg_ok idel l" "seg_ok idel r"
  shows "joinable a (join_nodes l r) = joinable a l" "joinable (join_nodes l r) a = joinable r a"
  using join_nodes_ok [OF assms] assms(1) by (simp_all add: joinable_def touches_def)

lemma join_left_ok:
  assumes "lwf idel pre (first_ivl (fst cur))" "seg_ok idel cur"
    and j: "join_left (pre, cur, suf) = (pre', cur', suf')"
  shows "lwf idel pre' (first_ivl (fst cur')) \<and> seg_ok idel cur' \<and> suf' = suf \<and>
    den pre' \<union> sden cur' = den pre \<union> sden cur \<and>
    last_ivl (fst cur') = last_ivl (fst cur) \<and> snd cur' = snd cur \<and>
    (pre' = [] \<or> \<not> joinable (hd pre') cur')"
proof (cases pre)
  case Nil
  then show ?thesis using assms by auto
next
  case (Cons p ps)
  show ?thesis
  proof (cases "joinable p cur")
    case True
    then have eq: "pre' = ps" "cur' = join_nodes p cur" "suf' = suf" using j Cons by auto
    have p: "seg_ok idel p" "lwf idel ps (first_ivl (fst p))" "ps = [] \<or> \<not> joinable (hd ps) p"
      using assms(1) Cons by auto
    show ?thesis using p eq join_nodes_ok [OF True p(1) assms(2)] joinable_join_nodes [OF True p(1) assms(2)]
      by (simp add: Cons Un_ac)
  next
    case False
    then have eq: "pre' = pre" "cur' = cur" "suf' = suf" using j Cons by auto
    show ?thesis using eq assms False Cons by simp
  qed
qed

lemma join_right_ok:
  assumes "rwf idel suf (last_ivl (fst cur))" "seg_ok idel cur"
    and j: "join_right (pre, cur, suf) = (pre', cur', suf')"
  shows "rwf idel suf' (last_ivl (fst cur')) \<and> seg_ok idel cur' \<and> pre' = pre \<and>
    den suf' \<union> sden cur' = den suf \<union> sden cur \<and>
    first_ivl (fst cur') = first_ivl (fst cur) \<and> snd cur' = snd cur \<and>
    (suf' = [] \<or> \<not> joinable cur' (hd suf'))"
proof (cases suf)
  case Nil
  then show ?thesis using assms by auto
next
  case (Cons n ns)
  show ?thesis
  proof (cases "joinable cur n")
    case True
    then have eq: "pre' = pre" "cur' = join_nodes cur n" "suf' = ns" using j Cons by auto
    have n: "seg_ok idel n" "rwf idel ns (last_ivl (fst n))" "ns = [] \<or> \<not> joinable n (hd ns)"
      using assms(1) Cons by auto
    show ?thesis using n eq join_nodes_ok [OF True assms(2) n(1)] joinable_join_nodes [OF True assms(2) n(1)]
      by (simp add: Cons Un_ac)
  next
    case False
    then have eq: "pre' = pre" "cur' = cur" "suf' = suf" using j Cons by auto
    show ?thesis using eq assms False Cons by simp
  qed
qed

text \<open>A cursor whose pair touches neither joinable neighbour is a well-formed map.\<close>

lemma wf_flatten:
  assumes "lwf idel pre (first_ivl (fst cur))" "seg_ok idel cur" "rwf idel suf (last_ivl (fst cur))"
    "pre = [] \<or> \<not> joinable (hd pre) cur" "suf = [] \<or> \<not> joinable cur (hd suf)"
  shows "wf_imap idel (flatten (pre, cur, suf))"
  using wf_cursor [of idel pre "first_ivl (fst cur)" "cur # suf"] assms by simp

lemma join_neighbours_ok:
  assumes "lwf idel pre (first_ivl (fst cur))" "seg_ok idel cur" "rwf idel suf (last_ivl (fst cur))"
  shows "wf_imap idel (flatten (join_neighbours (pre, cur, suf)))"
    "den (flatten (join_neighbours (pre, cur, suf))) = den pre \<union> sden cur \<union> den suf"
proof -
  obtain p c s where l: "join_left (pre, cur, suf) = (p, c, s)" by (metis prod_cases3)
  obtain p' c' s' where r: "join_right (p, c, s) = (p', c', s')" by (metis prod_cases3)
  note L = join_left_ok [OF assms(1,2) l]
  have "rwf idel s (last_ivl (fst c))" "seg_ok idel c" using L assms by simp_all
  note R = join_right_ok [OF this r]
  have ja: "joinable a c' = joinable a c" for a using R joinable_cong(2) by blast
  have eq: "flatten (join_neighbours (pre, cur, suf)) = flatten (p', c', s')"
    by (simp add: join_neighbours_def l r)
  show "wf_imap idel (flatten (join_neighbours (pre, cur, suf)))"
    unfolding eq using L R by (intro wf_flatten) (auto simp: ja)
  have "den (flatten (join_neighbours (pre, cur, suf))) = den p' \<union> (den s' \<union> sden c')"
    unfolding eq by auto
  also have "\<dots> = (den p \<union> sden c) \<union> den s" using R by (simp add: Un_ac)
  finally show "den (flatten (join_neighbours (pre, cur, suf))) = den pre \<union> sden cur \<union> den suf"
    using L by simp
qed

lemma handle_inserted_after_ok:
  assumes "lwf idel pre (first_ivl (fst ins))" "seg_ok idel ins" "last_ivl (fst ins) < k"
  shows "lwf idel (handle_inserted_after pre ins) k \<and>
    den (handle_inserted_after pre ins) = den pre \<union> sden ins"
proof (cases "pre \<noteq> [] \<and> joinable (hd pre) ins")
  case True
  then obtain p ps where p: "pre = p # ps" "joinable p ins" by (cases pre) auto
  have "seg_ok idel p" using assms(1) p by simp
  note J = join_nodes_ok [OF p(2) this assms(2)] joinable_join_nodes [OF p(2) this assms(2)]
  show ?thesis using assms p J by (simp add: Un_ac)
next
  case False
  then have "handle_inserted_after pre ins = ins # pre" by (cases pre) auto
  then show ?thesis using assms False by (auto simp del: lwf.simps simp: lwf.simps(2))
qed

lemma handle_left_combined_ok:
  assumes "lwf idel pre (first_ivl i)" "valid_ivl i" "\<not> is_empty_ivl i" "last_ivl i < k"
  shows "lwf idel (handle_left_combined idel pre (i, v)) k \<and>
    den (handle_left_combined idel pre (i, v)) = den pre \<union> (if v = idel then {} else sden (i, v))"
proof (cases "v = idel")
  case True
  have "first_ivl i \<le> last_ivl i" using assms by (simp add: is_empty_iff)
  then show ?thesis using True assms
    by (auto simp: handle_left_combined_def is_absorbable_def intro: lwf_mono)
next
  case False
  obtain p c s where l: "join_left (pre, (i, v), []) = (p, c, s)" by (metis prod_cases3)
  have ok: "seg_ok idel (i, v)" using assms False by (simp add: seg_ok_def)
  have "handle_left_combined idel pre (i, v) = c # p"
    using False by (simp add: handle_left_combined_def is_absorbable_def l)
  then show ?thesis using join_left_ok [OF _ ok l] False assms by (simp add: Un_ac)
qed

section \<open>Ranges\<close>

lemma wf_append:
  "wf_imap idel (a @ b) \<longleftrightarrow> wf_imap idel a \<and> wf_imap idel b \<and> (\<forall>s\<in>set a. \<forall>t\<in>set b. seg_lt s t) \<and>
     (a = [] \<or> b = [] \<or> \<not> joinable (last a) (hd b))"
  unfolding wf_imap_def sorted_wrt_append successively_append_iff list_all_append by blast

lemma wf_hd_le:
  assumes "wf_imap idel l" "s \<in> set l"
  shows "first_ivl (fst (hd l)) \<le> first_ivl (fst s)" "last_ivl (fst (hd l)) \<le> last_ivl (fst s)"
proof -
  obtain h t where l: "l = h # t" using assms(2) by (cases l) auto
  have ok: "list_all (seg_ok idel) l" using assms(1) by (simp add: wf_imap_def)
  have "first_ivl (fst x) \<le> last_ivl (fst x)" if "x \<in> set l" for x
    using ok that by (intro seg_ok_ends [of idel]) (simp add: list_all_iff)
  then have "first_ivl (fst h) \<le> last_ivl (fst h)" "first_ivl (fst s) \<le> last_ivl (fst s)"
    using assms(2) l by simp_all
  moreover have "s = h \<or> last_ivl (fst h) < first_ivl (fst s)"
    using assms l unfolding wf_imap_def seg_lt_def by auto
  ultimately show "first_ivl (fst (hd l)) \<le> first_ivl (fst s)" "last_ivl (fst (hd l)) \<le> last_ivl (fst s)"
    using l by auto
qed

text \<open>The three parts into which an interval cuts a map.\<close>

lemma range_parts: "m = before_range i m @ equal_range i m @ from_upper_bound i m"
  by (simp add: before_range_def equal_range_def from_upper_bound_def from_lower_bound_def)

lemma range_split:
  assumes "wf_imap idel m"
  shows "lwf idel (rev (before_range i m)) (first_ivl i)"
    "rwf idel (from_upper_bound i m) (last_ivl i)"
    "\<forall>s\<in>set (equal_range i m). first_ivl i \<le> last_ivl (fst s) \<and> first_ivl (fst s) \<le> last_ivl i"
proof -
  let ?b = "before_range i m" and ?e = "equal_range i m" and ?u = "from_upper_bound i m"
    and ?l = "from_lower_bound i m"
  have "m = ?b @ ?l" by (simp add: before_range_def from_lower_bound_def)
  then have b: "wf_imap idel ?b" and l: "wf_imap idel ?l" using assms wf_append [of idel ?b ?l] by auto
  have "?l = ?e @ ?u" by (simp add: equal_range_def from_upper_bound_def)
  then have u: "wf_imap idel ?u" using l wf_append [of idel ?e ?u] by auto
  show "lwf idel (rev ?b) (first_ivl i)"
    using b by (auto simp: lwf_iff before_range_def non_empty_exclusive_less_def dest: set_takeWhileD)
  have "last_ivl i < first_ivl (fst s)" if s: "s \<in> set ?u" for s
  proof -
    have ne: "?u \<noteq> []" using s by auto
    have "last_ivl i < first_ivl (fst (hd ?u))"
      using hd_dropWhile [OF ne [unfolded from_upper_bound_def]]
      by (simp add: from_upper_bound_def non_empty_exclusive_less_def)
    also have "\<dots> \<le> first_ivl (fst s)" using wf_hd_le(1) [OF u s] .
    finally show ?thesis .
  qed
  then show "rwf idel ?u (last_ivl i)" using u by (simp add: rwf_iff)
  have "first_ivl (fst s) \<le> last_ivl i" if "s \<in> set ?e" for s
    using that unfolding equal_range_def non_empty_exclusive_less_def by (auto dest: set_takeWhileD)
  moreover have "first_ivl i \<le> last_ivl (fst s)" if "s \<in> set ?e" for s
  proof -
    have sl: "s \<in> set ?l" using that unfolding equal_range_def by (auto dest: set_takeWhileD)
    then have ne: "?l \<noteq> []" by auto
    have "first_ivl i \<le> last_ivl (fst (hd ?l))"
      using hd_dropWhile [OF ne [unfolded from_lower_bound_def]]
      by (simp add: from_lower_bound_def non_empty_exclusive_less_def)
    also have "\<dots> \<le> last_ivl (fst s)" using wf_hd_le(2) [OF l sl] .
    finally show ?thesis .
  qed
  ultimately show "\<forall>s\<in>set ?e. first_ivl i \<le> last_ivl (fst s) \<and> first_ivl (fst s) \<le> last_ivl i" by blast
qed

lemma lwf_part:
  assumes "wf_imap idel (a @ s # b)"
  shows "lwf idel (rev a) (first_ivl (fst s))" "seg_ok idel s" "rwf idel b (last_ivl (fst s))"
    "a = [] \<or> \<not> joinable (last a) s"
proof -
  have *: "wf_imap idel a" "wf_imap idel (s # b)" "\<forall>x\<in>set a. seg_lt x s"
    "a = [] \<or> \<not> joinable (last a) s"
    using assms wf_append [of idel a "s # b"] by auto
  then show "lwf idel (rev a) (first_ivl (fst s))" "a = [] \<or> \<not> joinable (last a) s"
    by (simp_all add: lwf_iff seg_lt_def)
  have "rwf idel (s # b) (first_ivl (fst s) - 1)"
    unfolding rwf_iff using *(2) wf_hd_le(1) [OF *(2)] by force
  then show "seg_ok idel s" "rwf idel b (last_ivl (fst s))" by simp_all
qed

end
