(* ===== verification/IclMapAdd.thy ===== *)
theory IclMapAdd
  imports IclMapInv
begin

text \<open>
  Addition to an interval map (\<open>_add\<close> of \<open>interval_base_map.hpp\<close> with its
  phases \<open>add_front\<close>, \<open>add_main\<close>, \<open>add_rear\<close>) keeps the
  invariant and combines the added value pointwise.
\<close>

text \<open>What adding \<open>co\<close> on \<open>X\<close> makes of a set of pairs.\<close>

definition added :: "('c \<Rightarrow> 'c \<Rightarrow> 'c) \<Rightarrow> 'c \<Rightarrow> int set \<Rightarrow> 'c \<Rightarrow> (int \<times> 'c) set \<Rightarrow> (int \<times> 'c) set" where
  "added comb idel X co D =
     {(x, v). (x \<notin> X \<and> (x, v) \<in> D) \<or> (x \<in> X \<and> (\<exists>w. (x, w) \<in> D \<and> v = comb w co \<and> v \<noteq> idel))
        \<or> (x \<in> X \<and> (\<forall>w. (x, w) \<notin> D) \<and> v = co)}"

lemma added_Un:
  assumes "\<forall>(x, w)\<in>D1. x \<notin> X2" "\<forall>(x, w)\<in>D2. x \<notin> X1"
  shows "added comb idel (X1 \<union> X2) co (D1 \<union> D2) = added comb idel X1 co D1 \<union> added comb idel X2 co D2"
  using assms unfolding added_def by auto

lemma added_disjoint: "\<forall>(x, w)\<in>D. x \<notin> X \<Longrightarrow> added comb idel X co D = D \<union> X \<times> {co}"
  unfolding added_def by auto

lemma added_empty [simp]: "added comb idel {} co D = D"
  unfolding added_def by auto

lemma ivl_cover [simp]: "i \<noteq> [] \<Longrightarrow> last (map f i) = f (last i)"
  by (simp add: last_map)

lemma right_subtract_overlap:
  assumes "valid_ivl i" "seg_ok idel c" "first_ivl (fst c) \<le> last_ivl i" "first_ivl i \<le> last_ivl i"
  shows "valid_ivl (right_subtract i (fst c))" "first_ivl (right_subtract i (fst c)) = first_ivl i"
    "last_ivl (right_subtract i (fst c)) = first_ivl (fst c) - 1"
    "is_empty_ivl (right_subtract i (fst c)) \<longleftrightarrow> first_ivl (fst c) \<le> first_ivl i"
proof -
  have "\<not> exclusive_less i (fst c)"
    using assms by (auto simp: exclusive_less_def seg_ok_def is_empty_iff)
  note E = right_subtract_ends [OF this]
  show v: "valid_ivl (right_subtract i (fst c))" using assms by simp
  show "first_ivl (right_subtract i (fst c)) = first_ivl i"
    "last_ivl (right_subtract i (fst c)) = first_ivl (fst c) - 1" using E by simp_all
  show "is_empty_ivl (right_subtract i (fst c)) \<longleftrightarrow> first_ivl (fst c) \<le> first_ivl i"
    using E by (auto simp: is_empty_iff [OF v])
qed

lemma left_subtract_overlap:
  assumes "valid_ivl i" "seg_ok idel c" "first_ivl i \<le> last_ivl (fst c)" "first_ivl i \<le> last_ivl i"
  shows "valid_ivl (left_subtract i (fst c))" "first_ivl (left_subtract i (fst c)) = last_ivl (fst c) + 1"
    "last_ivl (left_subtract i (fst c)) = last_ivl i"
    "is_empty_ivl (left_subtract i (fst c)) \<longleftrightarrow> last_ivl i \<le> last_ivl (fst c)"
proof -
  have "\<not> exclusive_less (fst c) i"
    using assms by (auto simp: exclusive_less_def seg_ok_def is_empty_iff)
  note E = left_subtract_ends [OF this]
  show v: "valid_ivl (left_subtract i (fst c))" using assms by simp
  show "first_ivl (left_subtract i (fst c)) = last_ivl (fst c) + 1"
    "last_ivl (left_subtract i (fst c)) = last_ivl i" using E by simp_all
  show "is_empty_ivl (left_subtract i (fst c)) \<longleftrightarrow> last_ivl i \<le> last_ivl (fst c)"
    using E by (auto simp: is_empty_iff [OF v])
qed

definition lead_in :: "discrete_interval \<Rightarrow> 'c \<Rightarrow> 'c segment list \<Rightarrow> discrete_interval \<Rightarrow> 'c segment list" where
  "lead_in i co pre c = (let g = right_subtract i c
     in if \<not> is_empty_ivl g then handle_inserted_after pre (g, co) else pre)"

lemma lead_in_ok:
  assumes "lwf idel pre (first_ivl i)" "valid_ivl i" "seg_ok idel c" "co \<noteq> idel"
    "first_ivl i \<le> first_ivl (fst c)" "first_ivl (fst c) \<le> last_ivl i"
  shows "lwf idel (lead_in i co pre (fst c)) (first_ivl (fst c)) \<and>
    den (lead_in i co pre (fst c)) = den pre \<union> {first_ivl i ..< first_ivl (fst c)} \<times> {co}"
proof -
  note R = right_subtract_overlap [OF assms(2,3,6)]
  show ?thesis
  proof (cases "is_empty_ivl (right_subtract i (fst c))")
    case True
    then show ?thesis using assms R by (auto simp: lead_in_def)
  next
    case False
    then have ok: "seg_ok idel (right_subtract i (fst c), co)" using R assms by (auto simp: seg_ok_def)
    have "sden (right_subtract i (fst c), co) = {first_ivl i ..< first_ivl (fst c)} \<times> {co}"
      using R assms by (auto simp: sden_def iset_def)
    then show ?thesis
      using False handle_inserted_after_ok [OF _ ok, of pre "first_ivl (fst c)"] R assms
      by (simp add: lead_in_def)
  qed
qed

lemma add_segment_ok:
  assumes "lwf idel pre (first_ivl i)" "valid_ivl i" "seg_ok idel c" "co \<noteq> idel"
    "first_ivl i \<le> first_ivl (fst c)" "first_ivl (fst c) \<le> last_ivl i"
  shows "lwf idel (add_segment comb idel i co pre c) (last_ivl (fst c) + 1) \<and>
    den (add_segment comb idel i co pre c) =
      den pre \<union> added comb idel {first_ivl i .. last_ivl (fst c)} co (sden c)"
proof -
  let ?pre' = "lead_in i co pre (fst c)"
  have eq: "add_segment comb idel i co pre c = handle_left_combined idel ?pre' (fst c, comb (snd c) co)"
    by (simp add: add_segment_def lead_in_def Let_def)
  have c: "valid_ivl (fst c)" "\<not> is_empty_ivl (fst c)" "first_ivl (fst c) \<le> last_ivl (fst c)"
    using assms(3) seg_ok_ends [OF assms(3)] by (auto simp: seg_ok_def)
  note L = lead_in_ok [OF assms]
  have H: "lwf idel (add_segment comb idel i co pre c) (last_ivl (fst c) + 1)"
    "den (add_segment comb idel i co pre c) =
      den ?pre' \<union> (if comb (snd c) co = idel then {} else sden (fst c, comb (snd c) co))"
    unfolding eq using handle_left_combined_ok [of idel ?pre' "fst c" "last_ivl (fst c) + 1" "comb (snd c) co"] L c
    by simp_all
  have "{first_ivl i ..< first_ivl (fst c)} \<times> {co} \<union>
      (if comb (snd c) co = idel then {} else sden (fst c, comb (snd c) co)) =
    added comb idel {first_ivl i .. last_ivl (fst c)} co (sden c)"
    using assms(5) c(3) by (auto simp: added_def split: if_splits)
  then show ?thesis using H L by (simp add: Un_assoc)
qed

lemma add_main_ok:
  assumes "lwf idel pre (first_ivl i)" "valid_ivl i" "seg_ok idel c" "co \<noteq> idel"
    "first_ivl i \<le> first_ivl (fst c)" "rwf idel mid (last_ivl (fst c))"
    "first_ivl (fst (last (c # mid))) \<le> last_ivl i"
    "add_main comb idel i co pre c mid = (i', pre', c')"
  shows "lwf idel pre' (first_ivl i') \<and> valid_ivl i' \<and> c' = last (c # mid) \<and> seg_ok idel c' \<and>
    first_ivl i' \<le> first_ivl (fst c') \<and> first_ivl (fst c') \<le> last_ivl i' \<and> last_ivl i' = last_ivl i \<and>
    first_ivl i \<le> first_ivl i' \<and>
    den pre' = den pre \<union> added comb idel {first_ivl i ..< first_ivl i'} co (den (butlast (c # mid))) \<and>
    (\<forall>(x, w)\<in>den (butlast (c # mid)). first_ivl i \<le> x \<and> x < first_ivl i')"
  using assms
proof (induction mid arbitrary: pre i c)
  case Nil
  then show ?case by auto
next
  case (Cons n mid)
  let ?i = "left_subtract i (fst c)" and ?pre = "add_segment comb idel i co pre c"
  have n: "seg_ok idel n" "last_ivl (fst c) < first_ivl (fst n)" "rwf idel mid (last_ivl (fst n))"
    using Cons.prems(6) by simp_all
  have "rwf idel (n # mid) (last_ivl (fst c))" by fact
  then have "last_ivl (fst c) < first_ivl (fst (last (n # mid)))"
    unfolding rwf_iff using last_in_set [of "n # mid"] by blast
  then have lt: "last_ivl (fst c) < last_ivl i" using Cons.prems(7) by simp
  have le: "first_ivl (fst c) \<le> last_ivl (fst c)" using Cons.prems(3) by (rule seg_ok_ends)
  note R = left_subtract_overlap [OF Cons.prems(2,3)]
  have Ri: "valid_ivl ?i" "first_ivl ?i = last_ivl (fst c) + 1" "last_ivl ?i = last_ivl i"
    using R lt le Cons.prems(5) by auto
  have S: "lwf idel ?pre (first_ivl ?i)"
    "den ?pre = den pre \<union> added comb idel {first_ivl i .. last_ivl (fst c)} co (sden c)"
    using add_segment_ok [OF Cons.prems(1-5), of comb] lt le Ri by auto
  have IH: "lwf idel pre' (first_ivl i') \<and> valid_ivl i' \<and> c' = last (n # mid) \<and> seg_ok idel c' \<and>
    first_ivl i' \<le> first_ivl (fst c') \<and> first_ivl (fst c') \<le> last_ivl i' \<and> last_ivl i' = last_ivl ?i \<and>
    first_ivl ?i \<le> first_ivl i' \<and>
    den pre' = den ?pre \<union> added comb idel {first_ivl ?i ..< first_ivl i'} co (den (butlast (n # mid))) \<and>
    (\<forall>(x, w)\<in>den (butlast (n # mid)). first_ivl ?i \<le> x \<and> x < first_ivl i')"
    using S Ri n Cons.prems(4,7,8) by (intro Cons.IH) simp_all
  define D where "D = den (butlast (n # mid))"
  have D: "last_ivl (fst c) < x \<and> x < first_ivl i'" if "(x, w) \<in> D" for x w
    using IH that Ri(2) unfolding D_def by fastforce
  have X: "{first_ivl i ..< first_ivl i'} = {first_ivl i .. last_ivl (fst c)} \<union> {first_ivl ?i ..< first_ivl i'}"
    using IH Ri le Cons.prems(5) by auto
  have "added comb idel {first_ivl i ..< first_ivl i'} co (sden c \<union> D) =
    added comb idel {first_ivl i .. last_ivl (fst c)} co (sden c) \<union>
    added comb idel {first_ivl ?i ..< first_ivl i'} co D"
    unfolding X using D Ri by (intro added_Un) fastforce+
  moreover have "\<forall>(x, w)\<in>sden c \<union> D. first_ivl i \<le> x \<and> x < first_ivl i'"
    using D IH Ri le Cons.prems(5) by fastforce
  moreover have "den (butlast (c # n # mid)) = sden c \<union> D" by (simp add: D_def)
  moreover have "last (c # n # mid) = c'" using IH by simp
  ultimately show ?case using IH [folded D_def] S Ri le Cons.prems(5)
    by (elim conjE, intro conjI) (simp_all add: Un_assoc del: last.simps butlast.simps)
qed

lemma handle_preceeded_combined_ok:
  assumes "lwf idel pre (first_ivl i)" "valid_ivl i" "\<not> is_empty_ivl i" "rwf idel suf (last_ivl i)"
  shows "wf_imap idel (handle_preceeded_combined idel (pre, (i, v), suf))"
    "den (handle_preceeded_combined idel (pre, (i, v), suf)) =
       den pre \<union> (if v = idel then {} else sden (i, v)) \<union> den suf"
proof -
  have le: "first_ivl i \<le> last_ivl i" using assms(2,3) by (simp add: is_empty_iff)
  have nt: "\<not> joinable (hd pre) (hd suf)" if "pre \<noteq> []" "suf \<noteq> []"
    using that assms(1,4) le by (cases pre; cases suf) (auto simp: joinable_def dest: touchesD)
  have "rwf idel suf (first_ivl i - 1)" using assms(4) le by (auto intro: rwf_mono)
  then have w: "wf_imap idel (rev pre @ suf)" using wf_cursor [OF assms(1)] nt by blast
  show "wf_imap idel (handle_preceeded_combined idel (pre, (i, v), suf))"
    "den (handle_preceeded_combined idel (pre, (i, v), suf)) =
       den pre \<union> (if v = idel then {} else sden (i, v)) \<union> den suf"
    using w join_neighbours_ok [of idel pre "(i, v)" suf] assms
    by (auto simp: handle_preceeded_combined_def is_absorbable_def seg_ok_def)
qed

lemma handle_reinserted_ok:
  assumes "rwf idel suf (last_ivl (fst ins))" "seg_ok idel ins" "k < first_ivl (fst ins)"
  shows "rwf idel (handle_reinserted ins suf) k" "den (handle_reinserted ins suf) = sden ins \<union> den suf"
proof -
  obtain p c s where j: "join_right ([], ins, suf) = (p, c, s)" by (metis prod_cases3)
  show "rwf idel (handle_reinserted ins suf) k" "den (handle_reinserted ins suf) = sden ins \<union> den suf"
    using join_right_ok [OF assms(1,2) j] assms by (auto simp: handle_reinserted_def j Un_commute)
qed

lemma gap_insert_at_ok:
  assumes "lwf idel pre (first_ivl i)" "valid_ivl i" "\<not> is_empty_ivl i"
    and "seg_ok idel (e, co)" "first_ivl e = last_ivl i + 1" "rwf idel suf (last_ivl e)"
  shows "wf_imap idel (gap_insert_at idel (pre, (i, v), suf) e co)"
    "den (gap_insert_at idel (pre, (i, v), suf) e co) =
       den pre \<union> (if v = idel then {} else sden (i, v)) \<union> sden (e, co) \<union> den suf"
proof -
  have le: "first_ivl i \<le> last_ivl i" using assms(2,3) by (simp add: is_empty_iff)
  obtain p c s where r: "join_right (pre, (e, co), suf) = (p, c, s)" by (metis prod_cases3)
  obtain p' c' s' where l: "join_left (pre, (i, v), suf) = (p', c', s')" by (metis prod_cases3)
  have "wf_imap idel (gap_insert_at idel (pre, (i, v), suf) e co) \<and>
    den (gap_insert_at idel (pre, (i, v), suf) e co) =
       den pre \<union> (if v = idel then {} else sden (i, v)) \<union> sden (e, co) \<union> den suf"
  proof (cases "v = idel")
    case True
    note R = join_right_ok [OF _ assms(4) r]
    have fc: "first_ivl (fst c) = last_ivl i + 1" "p = pre" using R assms(5,6) by auto
    have nl: "pre = [] \<or> \<not> joinable (hd pre) c"
      using assms(1) le fc by (cases pre) (auto simp: joinable_def dest: touchesD)
    have "lwf idel pre (first_ivl (fst c))" using assms(1) le fc by (auto intro: lwf_mono)
    then have "wf_imap idel (flatten (pre, c, s))"
      using R assms(6) nl by (intro wf_flatten) auto
    moreover have "gap_insert_at idel (pre, (i, v), suf) e co = flatten (pre, c, s)"
      using True fc by (simp add: gap_insert_at_def is_absorbable_def r)
    ultimately show ?thesis using True R assms(6) by auto
  next
    case False
    then have "seg_ok idel (i, v)" using assms by (simp add: seg_ok_def)
    note L = join_left_ok [OF _ this l]
    have c': "lwf idel (c' # p') (first_ivl e)" using L assms(1,5) by auto
    have J: "wf_imap idel (flatten (join_neighbours (c' # p', (e, co), suf)))"
      "den (flatten (join_neighbours (c' # p', (e, co), suf))) = den (c' # p') \<union> sden (e, co) \<union> den suf"
      using join_neighbours_ok [of idel "c' # p'" "(e, co)" suf] c' assms(4,6) by simp_all
    have "gap_insert_at idel (pre, (i, v), suf) e co = flatten (join_neighbours (c' # p', (e, co), suf))"
      using False L assms(1) by (simp add: gap_insert_at_def is_absorbable_def l)
    moreover have "den (c' # p') = den pre \<union> sden (i, v)" using L assms(1) by (simp add: Un_commute)
    ultimately show ?thesis using False J by simp
  qed
  then show "wf_imap idel (gap_insert_at idel (pre, (i, v), suf) e co)"
    "den (gap_insert_at idel (pre, (i, v), suf) e co) =
       den pre \<union> (if v = idel then {} else sden (i, v)) \<union> sden (e, co) \<union> den suf"
    by auto
qed

lemma add_rear_ok:
  assumes "lwf idel pre (first_ivl i)" "valid_ivl i" "seg_ok idel c" "co \<noteq> idel"
    "first_ivl i \<le> first_ivl (fst c)" "first_ivl (fst c) \<le> last_ivl i"
    "rwf idel suf (last_ivl i)" "rwf idel suf (last_ivl (fst c))"
  shows "wf_imap idel (add_rear comb idel i co (pre, c, suf)) \<and>
    den (add_rear comb idel i co (pre, c, suf)) =
      den pre \<union> added comb idel {first_ivl i .. last_ivl i} co (sden c) \<union> den suf"
proof -
  let ?p = "lead_in i co pre (fst c)" and ?v = "comb (snd c) co" and ?e = "left_subtract i (fst c)"
  note L = lead_in_ok [OF assms(1-6)]
  have c: "valid_ivl (fst c)" "\<not> is_empty_ivl (fst c)" "first_ivl (fst c) \<le> last_ivl (fst c)"
    using assms(3) seg_ok_ends [OF assms(3)] by (auto simp: seg_ok_def)
  have il: "first_ivl i \<le> last_ivl (fst c)" "first_ivl i \<le> last_ivl i" using assms(5,6) c by auto
  note E = left_subtract_overlap [OF assms(2,3) il]
  show ?thesis
  proof (cases "last_ivl (fst c) < last_ivl i")
    case True
    then have ok: "seg_ok idel (?e, co)" using E assms(4) by (simp add: seg_ok_def)
    have "add_rear comb idel i co (pre, c, suf) = gap_insert_at idel (?p, (fst c, ?v), suf) ?e co"
      using True E by (simp add: add_rear_def lead_in_def Let_def)
    moreover have "{first_ivl i ..< first_ivl (fst c)} \<times> {co} \<union> (if ?v = idel then {} else sden (fst c, ?v))
        \<union> sden (?e, co) = added comb idel {first_ivl i .. last_ivl i} co (sden c)"
      using assms(5) c True E by (auto simp: added_def split: if_splits)
    ultimately show ?thesis
      using gap_insert_at_ok [of idel ?p "fst c" ?e co suf ?v] L c ok E assms(7) by (simp add: Un_assoc)
  next
    case False
    let ?r = "left_subtract (fst c) i"
    have ii: "seg_ok idel (i, co)" using assms il by (simp add: seg_ok_def is_empty_iff)
    have R: "valid_ivl ?r" "first_ivl ?r = last_ivl i + 1" "last_ivl ?r = last_ivl (fst c)"
      "is_empty_ivl ?r \<longleftrightarrow> last_ivl (fst c) \<le> last_ivl i"
      using left_subtract_overlap [OF c(1) ii] assms(6) c by simp_all
    show ?thesis
    proof (cases "is_empty_ivl ?r")
      case True
      then have "add_rear comb idel i co (pre, c, suf) =
          handle_preceeded_combined idel (?p, (fst c, ?v), suf)"
        using False E by (simp add: add_rear_def lead_in_def Let_def)
      moreover have "{first_ivl i ..< first_ivl (fst c)} \<times> {co} \<union> (if ?v = idel then {} else sden (fst c, ?v))
          = added comb idel {first_ivl i .. last_ivl i} co (sden c)"
        using assms(5,6) c True False R by (auto simp: added_def split: if_splits)
      ultimately show ?thesis
        using handle_preceeded_combined_ok [of idel ?p "fst c" suf ?v] L c assms(8) by (simp add: Un_assoc)
    next
      case rne: False
      let ?t = "handle_reinserted (?r, snd c) suf" and ?m = "right_subtract (fst c) ?r"
      have ok: "seg_ok idel (?r, snd c)" using R rne assms(3) by (simp add: seg_ok_def)
      have T: "rwf idel ?t (last_ivl i)" "den ?t = sden (?r, snd c) \<union> den suf"
        using handle_reinserted_ok [OF _ ok, of suf "last_ivl i"] R assms(8) by simp_all
      have M: "valid_ivl ?m" "first_ivl ?m = first_ivl (fst c)" "last_ivl ?m = last_ivl i" "\<not> is_empty_ivl ?m"
        using right_subtract_overlap [OF c(1) ok] R c assms(6) False rne by simp_all
      have "add_rear comb idel i co (pre, c, suf) = handle_preceeded_combined idel (?p, (?m, ?v), ?t)"
        using False rne E by (simp add: add_rear_def lead_in_def Let_def)
      moreover have "{first_ivl i ..< first_ivl (fst c)} \<times> {co} \<union> (if ?v = idel then {} else sden (?m, ?v))
          \<union> sden (?r, snd c) = added comb idel {first_ivl i .. last_ivl i} co (sden c)"
        using assms(5,6) c False R M rne by (auto simp: added_def split: if_splits)
      ultimately show ?thesis
        using handle_preceeded_combined_ok [of idel ?p ?m ?t ?v] L T M by (auto simp: Un_assoc)
    qed
  qed
qed

end
