(* ===== verification/IclMapOps.thy ===== *)
theory IclMapOps
  imports IclMapAdd
begin

text \<open>
  The operations of an interval map as its users call them (\<open>add\<close>, \<open>+=\<close>,
  \<open>-=\<close>, \<open>&\<close>, \<open>lower\<close>, \<open>upper\<close>, \<open>find\<close>): each keeps
  \<open>wf_imap\<close> and is described by the pairs of the result.
\<close>

section \<open>Addition of a segment\<close>

lemma den_below: "lwf idel pre k \<Longrightarrow> (x, v) \<in> den pre \<Longrightarrow> x < k"
  by (fastforce simp: lwf_iff den_def)

lemma den_above: "rwf idel suf k \<Longrightarrow> (x, v) \<in> den suf \<Longrightarrow> k < x"
  by (fastforce simp: rwf_iff den_def)

lemma den_last: "l \<noteq> [] \<Longrightarrow> den l = den (butlast l) \<union> sden (last l)"
  using den_simps(3) [of "butlast l" "[last l]"] by simp

lemma add_front_ok:
  assumes "lwf idel pre (first_ivl (fst c))" "lwf idel pre (first_ivl i)"
    and "pre = [] \<or> \<not> joinable (hd pre) c" "seg_ok idel c" "valid_ivl i" "first_ivl i \<le> last_ivl i"
    and "first_ivl i \<le> last_ivl (fst c)" "first_ivl (fst c) \<le> last_ivl i"
    and f: "add_front i (pre, c, suf) = (pre', c', suf')"
  shows "lwf idel pre' (first_ivl i) \<and> seg_ok idel c' \<and> first_ivl i \<le> first_ivl (fst c') \<and>
    first_ivl (fst c') \<le> last_ivl i \<and> last_ivl (fst c') = last_ivl (fst c) \<and> snd c' = snd c \<and>
    den pre' \<union> sden c' = den pre \<union> sden c"
proof -
  let ?l = "right_subtract (fst c) i"
  have c: "valid_ivl (fst c)" "first_ivl (fst c) \<le> last_ivl (fst c)" "snd c \<noteq> idel"
    using assms(4) seg_ok_ends [OF assms(4)] by (auto simp: seg_ok_def)
  have ii: "seg_ok idel (i, snd c)" using assms(5,6) c by (simp add: seg_ok_def is_empty_iff)
  have L: "valid_ivl ?l" "first_ivl ?l = first_ivl (fst c)" "last_ivl ?l = first_ivl i - 1"
    "is_empty_ivl ?l \<longleftrightarrow> first_ivl i \<le> first_ivl (fst c)"
    using right_subtract_overlap [OF c(1) ii] assms(7) c by simp_all
  show ?thesis
  proof (cases "is_empty_ivl ?l")
    case True
    then have "pre' = pre" "c' = c" using f by (simp_all add: add_front_def Let_def)
    then show ?thesis using True L assms by simp
  next
    case False
    then have eq: "pre' = (?l, snd c) # pre" "c' = (left_subtract (fst c) ?l, snd c)"
      using f by (simp_all add: add_front_def Let_def)
    have ok: "seg_ok idel (?l, snd c)" using False L c by (simp add: seg_ok_def)
    have R: "valid_ivl (fst c')" "first_ivl (fst c') = first_ivl i" "last_ivl (fst c') = last_ivl (fst c)"
      using left_subtract_overlap [OF c(1) ok] False L c assms(7) eq by simp_all
    have "joinable x (?l, snd c) = joinable x c" for x using L by (intro joinable_cong) auto
    then have "lwf idel pre' (first_ivl i)" using eq ok L assms(1,3) by simp
    moreover have "seg_ok idel c'" using R c eq assms(7) by (simp add: seg_ok_def is_empty_iff)
    moreover have "sden (?l, snd c) \<union> sden c' = sden c"
      using False L R c assms(7) eq by (auto simp: sden_def iset_def)
    then have "den pre' \<union> sden c' = den pre \<union> sden c" using eq by auto
    ultimately show ?thesis using R eq assms(6) by simp
  qed
qed

lemma add_colliding_ok:
  assumes wf: "wf_imap idel m" and i: "valid_ivl i" "\<not> is_empty_ivl i" and co: "co \<noteq> idel"
    and eq: "equal_range i m = cur # mid"
    and af: "add_front i (rev (before_range i m), cur, []) = (pre1, c1, x)"
    and am: "add_main comb idel i co pre1 c1 mid = (i', pre2, c2)"
  shows "wf_imap idel (add_rear comb idel i' co (pre2, c2, from_upper_bound i m)) \<and>
    den (add_rear comb idel i' co (pre2, c2, from_upper_bound i m)) = added comb idel (iset i) co (den m)"
proof -
  let ?b = "before_range i m" and ?u = "from_upper_bound i m"
  have le: "first_ivl i \<le> last_ivl i" using i by (simp add: is_empty_iff)
  note R = range_split [OF wf, of i]
  have m: "m = ?b @ cur # mid @ ?u" using range_parts [of m i] eq by simp
  have P: "lwf idel (rev ?b) (first_ivl (fst cur))" "seg_ok idel cur" "rwf idel (mid @ ?u) (last_ivl (fst cur))"
    "?b = [] \<or> \<not> joinable (last ?b) cur"
    using lwf_part [of idel ?b cur "mid @ ?u"] wf m by auto
  have ov: "\<forall>s\<in>set (cur # mid). first_ivl i \<le> last_ivl (fst s) \<and> first_ivl (fst s) \<le> last_ivl i"
    using R(3) eq by simp
  have F: "lwf idel pre1 (first_ivl i)" "seg_ok idel c1" "first_ivl i \<le> first_ivl (fst c1)"
    "first_ivl (fst c1) \<le> last_ivl i" "last_ivl (fst c1) = last_ivl (fst cur)"
    "den pre1 \<union> sden c1 = den ?b \<union> sden cur"
    using add_front_ok [OF P(1) R(1) _ P(2) i(1) le _ _ af] P(4) ov by (auto simp: hd_rev)
  have mid: "rwf idel mid (last_ivl (fst c1))"
    using P(3) F(5) by (auto simp: rwf_iff wf_append)
  have lst: "first_ivl (fst (last (c1 # mid))) \<le> last_ivl i" using ov F(4) by auto
  note M = add_main_ok [OF F(1) i(1) F(2) co F(3) mid lst am]
  have "rwf idel ?u (last_ivl (fst (last (c1 # mid))))"
  proof (cases mid rule: rev_cases)
    case Nil
    then show ?thesis using P(3) F(5) by simp
  next
    case (snoc ms s)
    then show ?thesis using lwf_part(3) [of idel "?b @ cur # ms" s ?u] wf m by simp
  qed
  then have U: "rwf idel ?u (last_ivl (fst c2))" "rwf idel ?u (last_ivl i')" using M R(2) by simp_all
  have A: "wf_imap idel (add_rear comb idel i' co (pre2, c2, ?u))"
    "den (add_rear comb idel i' co (pre2, c2, ?u)) =
      den pre2 \<union> added comb idel {first_ivl i' .. last_ivl i'} co (sden c2) \<union> den ?u"
    using add_rear_ok [of idel pre2 i' c2 co ?u comb] M U co by auto
  let ?D = "den (butlast (c1 # mid))"
  have D: "first_ivl i \<le> x \<and> x < first_ivl i'" if "(x, w) \<in> ?D" for x w using M that by fastforce
  have X: "iset i = {first_ivl i ..< first_ivl i'} \<union> {first_ivl i' .. last_ivl i'}"
    using M by (auto simp: iset_def)
  have "added comb idel (iset i) co (?D \<union> sden c2) =
     added comb idel {first_ivl i ..< first_ivl i'} co ?D \<union> added comb idel {first_ivl i' .. last_ivl i'} co (sden c2)"
    unfolding X using D M by (intro added_Un) fastforce+
  moreover have "added comb idel (iset i) co ((den pre1 \<union> den ?u) \<union> (?D \<union> sden c2)) =
     (den pre1 \<union> den ?u) \<union> added comb idel (iset i) co (?D \<union> sden c2)"
    using added_Un [of "den pre1 \<union> den ?u" "iset i" "?D \<union> sden c2" "{}" comb idel co]
      den_below [OF F(1)] den_above [OF R(2)] by (fastforce simp: iset_def)
  moreover have "den m = (den pre1 \<union> den ?u) \<union> (?D \<union> sden c2)"
  proof -
    have "den (c1 # mid) = ?D \<union> sden c2" using M den_last [of "c1 # mid"] by (metis list.distinct(1))
    moreover have "den m = (den ?b \<union> sden cur) \<union> den mid \<union> den ?u" by (subst m) auto
    ultimately show ?thesis using F(6) by auto
  qed
  ultimately show ?thesis using A M by (simp add: Un_ac)
qed

lemma add_seg_ok:
  assumes wf: "wf_imap idel m" and i: "valid_ivl i"
  shows "wf_imap idel (add_seg comb idel (i, co) m) \<and> den (add_seg comb idel (i, co) m) =
    (if is_empty_ivl i \<or> co = idel then den m else added comb idel (iset i) co (den m))"
proof (cases "is_empty_ivl i \<or> co = idel")
  case True
  then show ?thesis using wf by (auto simp: add_seg_def is_absorbable_def)
next
  case False
  show ?thesis
  proof (cases "equal_range i m")
    case Nil
    let ?b = "before_range i m" and ?u = "from_upper_bound i m"
    note R = range_split [OF wf, of i]
    have m: "den m = den ?b \<union> den ?u" using range_parts [of m i] Nil den_simps(3) by (metis append_Nil)
    have "seg_ok idel (i, co)" using False i by (simp add: seg_ok_def)
    then have J: "wf_imap idel (flatten (join_neighbours (rev ?b, (i, co), ?u)))"
      "den (flatten (join_neighbours (rev ?b, (i, co), ?u))) = den ?b \<union> sden (i, co) \<union> den ?u"
      using join_neighbours_ok [of idel "rev ?b" "(i, co)" ?u] R by simp_all
    have "added comb idel (iset i) co (den m) = den m \<union> iset i \<times> {co}"
      unfolding m using den_below [OF R(1)] den_above [OF R(2)]
      by (intro added_disjoint) (fastforce simp: iset_def)
    then show ?thesis using J False m Nil
      by (auto simp: add_seg_def handle_inserted_def is_absorbable_def sden_def)
  next
    case (Cons cur mid)
    obtain pre1 c1 x where af: "add_front i (rev (before_range i m), cur, []) = (pre1, c1, x)" by (metis prod_cases3)
    obtain i' pre2 c2 where am: "add_main comb idel i co pre1 c1 mid = (i', pre2, c2)" by (metis prod_cases3)
    show ?thesis
      using add_colliding_ok [OF wf i _ _ Cons af am] False
      by (simp add: add_seg_def Cons af am is_absorbable_def Let_def)
  qed
qed

section \<open>Combiners\<close>

text \<open>
  What the map relies on of its combiner functor: the identity element is neutral. Then
  addition combines pointwise, and addition with a hint is addition.
\<close>

locale inplace_combiner =
  fixes comb :: "'c \<Rightarrow> 'c \<Rightarrow> 'c" and idel :: 'c
  assumes left_neutral: "comb idel c = c" and right_neutral: "comb c idel = c"
begin

lemma add_sem:
  assumes "wf_imap idel m" "valid_ivl i"
  shows "sem idel (add_seg comb idel (i, co) m) x =
    (if x \<in> iset i then comb (sem idel m x) co else sem idel m x)"
proof (cases "is_empty_ivl i \<or> co = idel")
  case True
  then show ?thesis using assms
    by (auto simp: add_seg_def is_absorbable_def right_neutral iset_empty_iff [symmetric])
next
  case False
  have A: "wf_imap idel (add_seg comb idel (i, co) m)"
    "den (add_seg comb idel (i, co) m) = added comb idel (iset i) co (den m)"
    using add_seg_ok [OF assms, of comb co] False by auto
  have "sem idel m x = idel \<Longrightarrow> (x, w) \<notin> den m" for w using sem_den [OF assms(1)] by auto
  then show ?thesis using False
    by (intro sem_eqI [OF A(1)]; cases "x \<in> iset i"; simp add: A(2) added_def sem_den [OF assms(1)])
      (auto simp: left_neutral)
qed

lemma add_hint: "add_seg_hint comb idel (i, co) m = add_seg comb idel (i, co) m"
  unfolding add_seg_hint_def add_seg_def Let_def fst_conv snd_conv left_neutral by (rule refl)

lemma add_hint_disjoint:
  assumes "wf_imap idel m" "valid_ivl i" "co \<noteq> idel" "\<forall>(x, w)\<in>den m. x \<notin> iset i"
  shows "wf_imap idel (add_seg_hint comb idel (i, co) m)"
    "den (add_seg_hint comb idel (i, co) m) = den m \<union> sden (i, co)"
  using add_seg_ok [OF assms(1,2), of comb co] added_disjoint [OF assms(4), of comb idel co] assms(2,3)
  by (auto simp: add_hint sden_def iset_empty_iff [symmetric])

lemma intersection_loop:
  assumes "wf_imap idel sect" "\<forall>(x, w)\<in>den sect. x \<le> k" "rwf idel ss k" "valid_ivl i"
  shows "wf_imap idel (add_intersection_loop comb idel i ss sect) \<and>
    den (add_intersection_loop comb idel i ss sect) = den sect \<union> {(x, v) \<in> den ss. x \<in> iset i}"
  using assms
proof (induction ss arbitrary: sect k)
  case (Cons s ss)
  let ?c = "and_ivl (fst s) i"
  have s: "seg_ok idel s" "k < first_ivl (fst s)" "rwf idel ss (last_ivl (fst s))"
    using Cons.prems(3) by simp_all
  have ci: "iset ?c = iset (fst s) \<inter> iset i" using s(1) Cons.prems(4) by (simp add: iset_and seg_ok_def)
  have le: "first_ivl (fst s) \<le> last_ivl (fst s)" using s(1) by (rule seg_ok_ends)
  define t where "t = (if \<not> is_empty_ivl ?c then add_seg_hint comb idel (?c, snd s) sect else sect)"
  have t: "wf_imap idel t \<and> den t = den sect \<union> {(x, v) \<in> sden s. x \<in> iset i}"
  proof (cases "is_empty_ivl ?c")
    case True
    then have "iset ?c = {}" by (simp add: iset_empty_iff)
    then show ?thesis using True Cons.prems(1) ci by (auto simp: t_def sden_def)
  next
    case False
    have "\<forall>(x, w)\<in>den sect. x \<notin> iset ?c" using Cons.prems(2) s(2) ci by (fastforce simp: iset_def)
    then show ?thesis using False s(1) add_hint_disjoint [OF Cons.prems(1), of ?c "snd s"] ci
      by (auto simp: t_def seg_ok_def sden_def)
  qed
  have "\<forall>(x, w)\<in>den t. x \<le> last_ivl (fst s)"
    using t Cons.prems(2) s(2) le by (fastforce simp: sden_def iset_def)
  then show ?case using Cons.IH [OF _ _ s(3) Cons.prems(4), of t] t
    by (simp add: t_def Let_def) blast
qed simp

lemma map_and_ok:
  assumes "wf_imap idel m" "valid_ivl i"
  shows "wf_imap idel (map_and comb idel m i) \<and>
    den (map_and comb idel m i) = {(x, v) \<in> den m. x \<in> iset i}"
proof (cases "is_empty_ivl i")
  case True
  then have "iset i = {}" using assms by (simp add: iset_empty_iff)
  then show ?thesis using True by (auto simp: map_and_def add_intersection_def wf_imap_def)
next
  case False
  note R = range_split [OF assms(1), of i]
  let ?e = "equal_range i m"
  have we: "wf_imap idel ?e" using assms(1) range_parts [of m i] wf_append by metis
  have "rwf idel ?e (first_ivl (fst (hd ?e)) - 1)"
    unfolding rwf_iff using we wf_hd_le(1) [OF we] by force
  then have "wf_imap idel (map_and comb idel m i) \<and> den (map_and comb idel m i) = {(x, v) \<in> den ?e. x \<in> iset i}"
    using intersection_loop [of "[]" _ ?e i] False assms(2)
    by (simp add: map_and_def add_intersection_def wf_imap_def)
  moreover have "den m = den (before_range i m) \<union> den ?e \<union> den (from_upper_bound i m)"
    by (subst range_parts [of m i]) auto
  then have "{(x, v) \<in> den m. x \<in> iset i} = {(x, v) \<in> den ?e. x \<in> iset i}"
    using den_below [OF R(1)] den_above [OF R(2)] by (fastforce simp: iset_def)
  ultimately show ?thesis by simp
qed

lemma and_sem:
  assumes "wf_imap idel m" "valid_ivl i"
  shows "sem idel (map_and comb idel m i) x = (if x \<in> iset i then sem idel m x else idel)"
  using map_and_ok [OF assms] by (intro sem_eqI) (auto simp: sem_den [OF assms(1)])

end

section \<open>Erasure\<close>

lemma erase_single_many: "erase_single i s = erase_many i s s"
  by (simp add: erase_single_def erase_many_def Let_def)

lemma overlap_ends:
  assumes "wf_imap idel e" "e \<noteq> []"
    and "\<forall>s\<in>set e. first_ivl i \<le> last_ivl (fst s) \<and> first_ivl (fst s) \<le> last_ivl i"
  shows "(x, v) \<in> den e \<Longrightarrow> x < first_ivl i \<Longrightarrow> (x, v) \<in> sden (hd e)"
    "(x, v) \<in> den e \<Longrightarrow> last_ivl i < x \<Longrightarrow> (x, v) \<in> sden (last e)"
proof -
  obtain h t where e: "e = h # t" using assms(2) by (cases e) auto
  have P: "rwf idel t (last_ivl (fst h))" using lwf_part(3) [of idel "[]" h t] assms(1) e by simp
  show "(x, v) \<in> den e \<Longrightarrow> x < first_ivl i \<Longrightarrow> (x, v) \<in> sden (hd e)"
    using den_above [OF P] assms(3) e by fastforce
  have e': "e = butlast e @ [last e]" using assms(2) by simp
  have Q: "lwf idel (rev (butlast e)) (first_ivl (fst (last e)))"
    using lwf_part(1) [of idel "butlast e" "last e" "[]"] assms(1) e' by simp
  show "(x, v) \<in> den e \<Longrightarrow> last_ivl i < x \<Longrightarrow> (x, v) \<in> sden (last e)"
    using den_below [OF Q, of x v] assms(3) den_last [OF assms(2)] last_in_set [OF assms(2)] by fastforce
qed

lemma erase_interval_eq:
  assumes "\<not> is_empty_ivl i"
  shows "erase_interval i m = (case equal_range i m of [] \<Rightarrow> m
    | s # ss \<Rightarrow> before_range i m @ erase_many i s (last (s # ss)) @ from_upper_bound i m)"
  using assms by (auto simp: erase_interval_def erase_single_many split: list.splits)

lemma erase_many_ok:
  assumes wf: "wf_imap idel (b @ s # r @ u)" and t: "t = last (s # r)" and i: "valid_ivl i" "\<not> is_empty_ivl i"
    and b: "lwf idel (rev b) (first_ivl i)" and u: "rwf idel u (last_ivl i)"
    and ov: "\<forall>s\<in>set (s # r). first_ivl i \<le> last_ivl (fst s) \<and> first_ivl (fst s) \<le> last_ivl i"
  shows "wf_imap idel (b @ erase_many i s t @ u) \<and>
    den (erase_many i s t) = {(x, v) \<in> den (s # r). x \<notin> iset i}"
proof -
  let ?l = "right_subtract (fst s) i" and ?r = "left_subtract (fst t) i"
  have le: "first_ivl i \<le> last_ivl i" using i by (simp add: is_empty_iff)
  have st: "b @ s # r @ u = (b @ butlast (s # r)) @ t # u"
    using append_butlast_last_id [of "s # r"] t by simp
  have S: "lwf idel (rev b) (first_ivl (fst s))" "seg_ok idel s" "b = [] \<or> \<not> joinable (last b) s"
    using lwf_part [of idel b s "r @ u"] wf by auto
  have T: "seg_ok idel t" "rwf idel u (last_ivl (fst t))"
    using lwf_part(2,3) [of idel "b @ butlast (s # r)" t u] wf st by auto
  have T': "u = [] \<or> \<not> joinable t (hd u)"
    using wf st wf_append [of idel "(b @ butlast (s # r)) @ [t]" u] by auto
  have tin: "t \<in> set (s # r)" using t last_in_set [of "s # r"] by simp
  have s: "valid_ivl (fst s)" "first_ivl (fst s) \<le> last_ivl (fst s)" "snd s \<noteq> idel"
    using S(2) seg_ok_ends [OF S(2)] by (auto simp: seg_ok_def)
  have tt: "valid_ivl (fst t)" "first_ivl (fst t) \<le> last_ivl (fst t)" "snd t \<noteq> idel"
    using T(1) seg_ok_ends [OF T(1)] by (auto simp: seg_ok_def)
  have ii: "seg_ok idel (i, snd s)" using i s by (simp add: seg_ok_def)
  have L: "valid_ivl ?l" "first_ivl ?l = first_ivl (fst s)" "last_ivl ?l = first_ivl i - 1"
    "is_empty_ivl ?l \<longleftrightarrow> first_ivl i \<le> first_ivl (fst s)"
    using right_subtract_overlap [OF s(1) ii] ov s by simp_all
  have ost: "first_ivl i \<le> last_ivl (fst s)" "first_ivl (fst t) \<le> last_ivl i" using ov tin by auto
  then have R: "valid_ivl ?r" "first_ivl ?r = last_ivl i + 1" "last_ivl ?r = last_ivl (fst t)"
    "is_empty_ivl ?r \<longleftrightarrow> last_ivl (fst t) \<le> last_ivl i"
    using left_subtract_overlap [OF tt(1) ii] tt by simp_all
  define ls where "ls = (if is_empty_ivl ?l then [] else [(?l, snd s)])"
  define rs where "rs = (if is_empty_ivl ?r then [] else [(?r, snd t)])"
  have eq: "erase_many i s t = ls @ rs" by (simp add: erase_many_def ls_def rs_def Let_def)
  have "joinable x (?l, snd s) = joinable x s" for x using L by (intro joinable_cong) auto
  then have lw: "lwf idel (rev (b @ ls)) (first_ivl i)"
    using S b L s by (auto simp: ls_def seg_ok_def hd_rev)
  have "joinable (?r, snd t) x = joinable t x" for x using R by (intro joinable_cong) auto
  then have rw: "rwf idel (rs @ u) (last_ivl i)" using T T' u R tt by (auto simp: rs_def seg_ok_def)
  have "\<not> joinable (hd (rev (b @ ls))) (hd (rs @ u))" if "rev (b @ ls) \<noteq> []" "rs @ u \<noteq> []"
    using that lw rw le by (cases "rev (b @ ls)"; cases "rs @ u") (auto simp: joinable_def dest: touchesD)
  then have "wf_imap idel (rev (rev (b @ ls)) @ (rs @ u))"
    using lw rwf_mono [OF rw, of "first_ivl i - 1"] le by (intro wf_cursor) auto
  moreover have "den (ls @ rs) = {(x, v) \<in> den (s # r). x \<notin> iset i}"
  proof -
    have we: "wf_imap idel (s # r)" using wf wf_append [of idel b "(s # r) @ u"] wf_append [of idel "s # r" u] by auto
    have lden: "den ls = {(x, v) \<in> sden s. x < first_ivl i}"
      using L ost by (cases "is_empty_ivl ?l") (auto simp: ls_def sden_def iset_def)
    have rden: "den rs = {(x, v) \<in> sden t. last_ivl i < x}"
      using R ost by (cases "is_empty_ivl ?r") (auto simp: rs_def sden_def iset_def)
    define D where "D = den (s # r)"
    have sub: "sden s \<subseteq> D" "sden t \<subseteq> D" using tin by (auto simp: den_def D_def)
    have E: "(x, v) \<in> D \<Longrightarrow> x < first_ivl i \<Longrightarrow> (x, v) \<in> sden s"
      "(x, v) \<in> D \<Longrightarrow> last_ivl i < x \<Longrightarrow> (x, v) \<in> sden t" for x v
      using overlap_ends [OF we _ ov, of x v] unfolding D_def t by simp_all
    show ?thesis
      unfolding den_simps(3) lden rden iset_def D_def [symmetric]
      using E sub le by (auto simp del: in_sden)
  qed
  ultimately show ?thesis by (simp add: eq)
qed

lemma erase_interval_ok:
  assumes wf: "wf_imap idel m" and i: "valid_ivl i"
  shows "wf_imap idel (erase_interval i m) \<and> den (erase_interval i m) = {(x, v) \<in> den m. x \<notin> iset i}"
proof (cases "is_empty_ivl i")
  case True
  then have "iset i = {}" using i by (simp add: iset_empty_iff)
  then show ?thesis using True wf by (auto simp: erase_interval_def)
next
  case False
  note R = range_split [OF wf, of i]
  let ?b = "before_range i m" and ?u = "from_upper_bound i m"
  have D: "(x, v) \<in> den ?b \<union> den ?u \<Longrightarrow> x \<notin> iset i" for x v
    using den_below [OF R(1)] den_above [OF R(2)] by (fastforce simp: iset_def)
  have m: "m = ?b @ equal_range i m @ ?u" by (rule range_parts)
  show ?thesis
  proof (cases "equal_range i m")
    case Nil
    then have "den m = den ?b \<union> den ?u" using m den_simps(3) by (metis append_Nil)
    then show ?thesis using Nil D wf False by (auto simp: erase_interval_eq)
  next
    case (Cons s r)
    then have m': "m = ?b @ s # r @ ?u" using m by simp
    have E: "wf_imap idel (?b @ erase_many i s (last (s # r)) @ ?u)"
      "den (erase_many i s (last (s # r))) = {(x, v) \<in> den (s # r). x \<notin> iset i}"
      using erase_many_ok [of idel ?b s r ?u "last (s # r)" i] wf m' R Cons i False by auto
    have "den m = den ?b \<union> den (s # r) \<union> den ?u" by (subst m') auto
    then have "den (?b @ erase_many i s (last (s # r)) @ ?u) = {(x, v) \<in> den m. x \<notin> iset i}"
      using E(2) D by (auto simp del: last.simps)
    then show ?thesis using E(1) Cons False by (simp add: erase_interval_eq del: last.simps)
  qed
qed

lemma erase_sem:
  assumes "wf_imap idel m" "valid_ivl i"
  shows "sem idel (erase_interval i m) x = (if x \<in> iset i then idel else sem idel m x)"
  using erase_interval_ok [OF assms] by (intro sem_eqI) (auto simp: sem_den [OF assms(1)])

end
