(* ===== verification/IclMapBounds.thy ===== *)
theory IclMapBounds
  imports IclMapOps
begin

text \<open>
  What an interval map reports about itself: its size in elements, its lower and upper
  bound, the lookup of a key. The bounds \<open>lower\<close> and \<open>upper\<close> read raw border
  values, so they delimit the domain only for a map of right-open intervals, the only kind
  the server builds; every operation keeps that form.
\<close>

section \<open>Right-open maps\<close>

definition right_open_ivl :: "discrete_interval \<Rightarrow> bool" where
  "right_open_ivl i \<longleftrightarrow> bnds i = bounds_right_open"

definition right_open_map :: "'c imap \<Rightarrow> bool" where
  "right_open_map m \<longleftrightarrow> list_all (\<lambda>s. right_open_ivl (fst s)) m"

lemmas ro_defs = right_open_ivl_def construct_bounded_def construct_def bounds_right_open_def
  bounds_defs bounded_lower_def bounded_upper_def reverse_bounded_lower_def reverse_bounded_upper_def

lemma right_open_right_open [simp]: "right_open_ivl (right_open a b)"
  by (simp add: right_open_ivl_def right_open_def construct_def)

lemma ro_subtract [simp]:
  "right_open_ivl i \<Longrightarrow> right_open_ivl j \<Longrightarrow> right_open_ivl (left_subtract i j)"
  "right_open_ivl i \<Longrightarrow> right_open_ivl j \<Longrightarrow> right_open_ivl (right_subtract i j)"
  by (simp_all add: left_subtract_def right_subtract_def ro_defs)

lemma ro_hull [simp]: "right_open_ivl i \<Longrightarrow> right_open_ivl j \<Longrightarrow> right_open_ivl (hull_ivl i j)"
  by (simp add: hull_ivl_def lower_min_def upper_max_def ro_defs)

lemma ro_and [simp]: "right_open_ivl i \<Longrightarrow> right_open_ivl j \<Longrightarrow> right_open_ivl (and_ivl i j)"
  by (simp add: and_ivl_def identity_interval_def lower_max_def upper_min_def ro_defs right_open_def)

lemma ro_map_simps [simp]:
  "right_open_map []" "right_open_map (s # m) \<longleftrightarrow> right_open_ivl (fst s) \<and> right_open_map m"
  "right_open_map (m @ n) \<longleftrightarrow> right_open_map m \<and> right_open_map n"
  "right_open_map (rev m) \<longleftrightarrow> right_open_map m"
  by (auto simp: right_open_map_def)

lemma ro_join_nodes [simp]:
  "right_open_ivl (fst s) \<Longrightarrow> right_open_ivl (fst t) \<Longrightarrow> right_open_ivl (fst (join_nodes s t))"
  by (simp add: join_nodes_def)

definition ro_cursor :: "'c cursor \<Rightarrow> bool" where
  "ro_cursor z \<longleftrightarrow> (case z of (pre, cur, suf) \<Rightarrow>
     right_open_map pre \<and> right_open_ivl (fst cur) \<and> right_open_map suf)"

lemma ro_join:
  "ro_cursor z \<Longrightarrow> ro_cursor (join_left z)" "ro_cursor z \<Longrightarrow> ro_cursor (join_right z)"
  by (cases z rule: join_left.cases; simp add: ro_cursor_def)
     (cases z rule: join_right.cases; simp add: ro_cursor_def)

lemma ro_flatten: "ro_cursor z \<Longrightarrow> right_open_map (flatten z)"
  by (cases z) (simp add: ro_cursor_def)

lemma ro_handle_inserted_after:
  "right_open_map pre \<Longrightarrow> right_open_ivl (fst s) \<Longrightarrow> right_open_map (handle_inserted_after pre s)"
  by (cases pre) simp_all

lemma ro_handle_left_combined:
  assumes "right_open_map pre" "right_open_ivl (fst s)"
  shows "right_open_map (handle_left_combined idel pre s)"
proof -
  have "ro_cursor (join_left (pre, s, []))" using assms by (intro ro_join) (simp add: ro_cursor_def)
  then show ?thesis using assms
    by (auto simp: handle_left_combined_def ro_cursor_def split: prod.splits)
qed

lemma ro_add_segment:
  "right_open_map pre \<Longrightarrow> right_open_ivl (fst s) \<Longrightarrow> right_open_ivl i \<Longrightarrow>
     right_open_map (add_segment comb idel i co pre s)"
  unfolding add_segment_def Let_def
  by (rule ro_handle_left_combined) (simp_all add: ro_handle_inserted_after)

lemma ro_add_main:
  "right_open_map pre \<Longrightarrow> right_open_ivl (fst s) \<Longrightarrow> right_open_ivl i \<Longrightarrow> right_open_map mid \<Longrightarrow>
   add_main comb idel i co pre s mid = (i', pre', s') \<Longrightarrow>
     right_open_ivl i' \<and> right_open_map pre' \<and> right_open_ivl (fst s')"
proof (induction mid arbitrary: i pre s)
  case (Cons n mid)
  show ?case using Cons.prems by (intro Cons.IH) (simp_all add: ro_add_segment)
qed auto

lemma ro_handle_preceeded:
  assumes "ro_cursor z"
  shows "right_open_map (handle_preceeded_combined idel z)"
proof -
  have "right_open_map (flatten (join_neighbours z))"
    unfolding join_neighbours_def using assms by (intro ro_flatten ro_join)
  then show ?thesis using assms
    by (auto simp: handle_preceeded_combined_def ro_cursor_def split: prod.splits)
qed

lemma ro_handle_reinserted:
  assumes "right_open_map suf" "right_open_ivl (fst s)"
  shows "right_open_map (handle_reinserted s suf)"
proof -
  have "ro_cursor (join_right ([], s, suf))" using assms by (intro ro_join) (simp add: ro_cursor_def)
  then show ?thesis by (auto simp: handle_reinserted_def ro_cursor_def split: prod.splits)
qed

lemma ro_gap_insert:
  assumes "ro_cursor z" "right_open_ivl e"
  shows "right_open_map (gap_insert_at idel z e co)"
proof -
  obtain pre cur suf where z: "z = (pre, cur, suf)" by (metis prod_cases3)
  obtain p c s where l: "join_left z = (p, c, s)" by (metis prod_cases3)
  have L: "ro_cursor (p, c, s)" using ro_join(1) [OF assms(1)] l by simp
  have "right_open_map (flatten (join_right (pre, (e, co), suf)))"
    using assms z by (intro ro_flatten ro_join) (simp add: ro_cursor_def)
  moreover have "right_open_map (flatten (join_neighbours (c # p, (e, co), s)))"
    unfolding join_neighbours_def using assms L by (intro ro_flatten ro_join) (simp add: ro_cursor_def)
  ultimately show ?thesis by (simp add: gap_insert_at_def z l [unfolded z])
qed

lemma ro_add_rear:
  assumes "ro_cursor (pre, s, suf)" "right_open_ivl i"
  shows "right_open_map (add_rear comb idel i co (pre, s, suf))"
  using assms
  by (simp add: add_rear_def Let_def ro_cursor_def ro_gap_insert ro_handle_preceeded
      ro_handle_inserted_after ro_handle_reinserted)

lemma ro_parts:
  assumes "right_open_map m"
  shows "right_open_map (before_range i m)" "right_open_map (equal_range i m)"
    "right_open_map (from_upper_bound i m)"
proof -
  have "right_open_map (before_range i m @ equal_range i m @ from_upper_bound i m)"
    using assms range_parts [of m i] by simp
  then show "right_open_map (before_range i m)" "right_open_map (equal_range i m)"
    "right_open_map (from_upper_bound i m)" by simp_all
qed

lemma ro_add_front:
  "ro_cursor z \<Longrightarrow> right_open_ivl i \<Longrightarrow> ro_cursor (add_front i z)"
  by (auto simp: add_front_def ro_cursor_def Let_def split: prod.splits)

lemma ro_add:
  assumes "right_open_map m" "right_open_ivl i"
  shows "right_open_map (add_seg comb idel (i, co) m)"
proof (cases "equal_range i m")
  case Nil
  have "ro_cursor (rev (before_range i m), (i, co), from_upper_bound i m)"
    using assms ro_parts [OF assms(1)] by (simp add: ro_cursor_def)
  then have "right_open_map (flatten (handle_inserted (rev (before_range i m), (i, co), from_upper_bound i m)))"
    unfolding handle_inserted_def join_neighbours_def by (intro ro_flatten ro_join)
  then show ?thesis using Nil assms by (simp add: add_seg_def)
next
  case (Cons cur mid)
  obtain pre1 c1 x where af: "add_front i (rev (before_range i m), cur, []) = (pre1, c1, x)" by (metis prod_cases3)
  obtain i' pre2 c2 where am: "add_main comb idel i co pre1 c1 mid = (i', pre2, c2)" by (metis prod_cases3)
  have e: "right_open_ivl (fst cur)" "right_open_map mid" using ro_parts(2) [OF assms(1), of i] Cons by simp_all
  have "ro_cursor (add_front i (rev (before_range i m), cur, []))"
    using assms e ro_parts(1) [OF assms(1)] by (intro ro_add_front) (simp_all add: ro_cursor_def)
  then have "right_open_map pre1" "right_open_ivl (fst c1)" using af by (simp_all add: ro_cursor_def)
  then have "right_open_ivl i' \<and> right_open_map pre2 \<and> right_open_ivl (fst c2)"
    using ro_add_main [OF _ _ assms(2) e(2) am] by simp
  then have "right_open_map (add_rear comb idel i' co (pre2, c2, from_upper_bound i m))"
    using ro_parts(3) [OF assms(1)] by (intro ro_add_rear) (simp_all add: ro_cursor_def)
  then show ?thesis using assms by (simp add: add_seg_def Cons af am Let_def)
qed

lemma ro_erase:
  assumes "right_open_map m" "right_open_ivl i"
  shows "right_open_map (erase_interval i m)"
proof -
  have "right_open_map (erase_many i s t)" if "right_open_ivl (fst s)" "right_open_ivl (fst t)" for s t :: "'a segment"
    using that assms(2) by (simp add: erase_many_def Let_def)
  moreover have "right_open_map l \<Longrightarrow> l \<noteq> [] \<Longrightarrow> right_open_ivl (fst (last l))" for l :: "'a imap"
    unfolding right_open_map_def list_all_iff using last_in_set by blast
  ultimately have m: "right_open_map (erase_many i q (last (q # r)))" if "equal_range i m = q # r" for q r
    using ro_parts(2) [OF assms(1), of i] that by (simp del: last.simps)
  show ?thesis
  proof (cases "is_empty_ivl i")
    case True
    then show ?thesis using assms by (simp add: erase_interval_def)
  next
    case False
    then show ?thesis using m ro_parts [OF assms(1), of i] assms
      by (cases "equal_range i m") (simp_all add: erase_interval_eq del: last.simps)
  qed
qed

section \<open>Domain bounds\<close>

lemma ro_ends: "right_open_ivl i \<Longrightarrow> first_ivl i = lwb i \<and> last_ivl i = upb i - 1"
  by (simp add: right_open_ivl_def ivl_defs bounds_defs)

text \<open>
  \<open>lower\<close> and \<open>upper\<close> of a non-empty right-open map are the tightest right-open
  hull of its domain; of an empty map they are 1 and 0, so that the hull is empty too.
\<close>

lemma bounds_empty: "lower_map [] = 1" "upper_map [] = 0"
  by (simp_all add: lower_map_def upper_map_def)

lemma bounds_attained:
  assumes "wf_imap idel m" "right_open_map m" "m \<noteq> []"
  shows "\<exists>v. (lower_map m, v) \<in> den m" "\<exists>v. (upper_map m - 1, v) \<in> den m"
    "lower_map m < upper_map m"
proof -
  have h: "hd m \<in> set m" "last m \<in> set m" using assms(3) by simp_all
  then have ok: "seg_ok idel (hd m)" "seg_ok idel (last m)"
    using assms(1) unfolding wf_imap_def list_all_iff by blast+
  have ro: "right_open_ivl (fst (hd m))" "right_open_ivl (fst (last m))"
    using h assms(2) unfolding right_open_map_def list_all_iff by blast+
  have "(lower_map m, snd (hd m)) \<in> sden (hd m)" "(upper_map m - 1, snd (last m)) \<in> sden (last m)"
    using assms(3) ro_ends [OF ro(1)] ro_ends [OF ro(2)] seg_ok_ends [OF ok(1)] seg_ok_ends [OF ok(2)]
    by (auto simp: lower_map_def upper_map_def)
  then show "\<exists>v. (lower_map m, v) \<in> den m" "\<exists>v. (upper_map m - 1, v) \<in> den m"
    using h unfolding den_def by blast+
  show "lower_map m < upper_map m"
    using wf_hd_le(1) [OF assms(1) h(2)] assms(3) ro_ends [OF ro(1)] ro_ends [OF ro(2)] seg_ok_ends [OF ok(2)]
    by (simp add: lower_map_def upper_map_def)
qed

lemma bounds_domain:
  assumes "wf_imap idel m" "right_open_map m" "(x, v) \<in> den m"
  shows "lower_map m \<le> x \<and> x < upper_map m"
proof -
  obtain s where s: "s \<in> set m" "first_ivl (fst s) \<le> x" "x \<le> last_ivl (fst s)"
    using assms(3) by (auto simp: den_def sden_def iset_def)
  then have ne: "m \<noteq> []" by auto
  have ro: "right_open_ivl (fst (hd m))" "right_open_ivl (fst (last m))"
    using ne assms(2) unfolding right_open_map_def list_all_iff by (meson hd_in_set last_in_set)+
  have "first_ivl (fst (hd m)) \<le> x" using wf_hd_le(1) [OF assms(1) s(1)] s(2) by simp
  moreover have "x \<le> last_ivl (fst (last m))"
  proof (rule ccontr)
    assume "\<not> x \<le> last_ivl (fst (last m))"
    moreover have "lwf idel (rev (butlast m)) (first_ivl (fst (last m)))" "seg_ok idel (last m)"
      using lwf_part(1,2) [of idel "butlast m" "last m" "[]"] assms(1) ne by simp_all
    moreover have "(x, v) \<in> den (butlast m) \<union> sden (last m)" using assms(3) den_last [OF ne] by simp
    ultimately show False using den_below [of idel "rev (butlast m)" _ x v] seg_ok_ends [of idel "last m"] by fastforce
  qed
  ultimately show ?thesis using ro ro_ends ne by (auto simp: lower_map_def upper_map_def)
qed

section \<open>Size\<close>

lemma cardinality_map_sum: "cardinality_map m = (\<Sum>s\<leftarrow>m. cardinality_ivl (fst s))"
proof -
  have "foldl (\<lambda>n s. n + cardinality_ivl (fst s)) a m = a + (\<Sum>s\<leftarrow>m. cardinality_ivl (fst s))" for a
    by (induction m arbitrary: a) auto
  then show ?thesis by (simp add: cardinality_map_def)
qed

lemma cardinality_ivl_card: "valid_ivl i \<Longrightarrow> cardinality_ivl i = int (card (iset i))"
  by (auto simp: cardinality_ivl_def last_next_eq is_empty_iff iset_def)

lemma cardinality_ok:
  assumes "wf_imap idel m"
  shows "cardinality_map m = int (card (fst ` den m)) \<and> finite (fst ` den m)"
  using assms
proof (induction m)
  case Nil
  then show ?case by (simp add: cardinality_map_def)
next
  case (Cons s m)
  have P: "seg_ok idel s" "rwf idel m (last_ivl (fst s))" using lwf_part [of idel "[]" s m] Cons.prems by simp_all
  have IH: "cardinality_map m = int (card (fst ` den m))" "finite (fst ` den m)"
    using Cons.IH P(2) by (simp_all add: rwf_iff)
  have e: "fst ` sden s = iset (fst s)" by (simp add: sden_def)
  have "iset (fst s) \<inter> fst ` den m = {}" using den_above [OF P(2)] by (fastforce simp: iset_def)
  then have "card (fst ` den (s # m)) = card (iset (fst s)) + card (fst ` den m)"
    using IH(2) by (simp add: image_Un e card_Un_disjoint iset_def)
  then show ?case using IH P(1)
    by (simp add: cardinality_map_sum image_Un e iset_def [symmetric] cardinality_ivl_card seg_ok_def)
       (simp add: iset_def)
qed

section \<open>Canonical form\<close>

text \<open>
  Two well-formed maps with the same pairs have the same segments: joining makes the
  representation canonical, so element-wise equality of maps is equality of contents.
\<close>

definition ends :: "'c segment \<Rightarrow> int \<times> int \<times> 'c" where
  "ends s = (first_ivl (fst s), last_ivl (fst s), snd s)"

lemma rwf_first:
  assumes "rwf idel (s # m) k"
  shows "(first_ivl (fst s), snd s) \<in> den (s # m)" "(x, v) \<in> den (s # m) \<Longrightarrow> first_ivl (fst s) \<le> x"
  using assms den_above [of idel m "last_ivl (fst s)" x v] seg_ok_ends [of idel s] by auto

lemma rwf_last:
  assumes "rwf idel (s # m) k" "first_ivl (fst s) \<le> x"
  shows "x \<le> last_ivl (fst s) \<longleftrightarrow> (\<forall>y. first_ivl (fst s) \<le> y \<and> y \<le> x \<longrightarrow> (y, snd s) \<in> den (s # m))"
proof
  assume r: "\<forall>y. first_ivl (fst s) \<le> y \<and> y \<le> x \<longrightarrow> (y, snd s) \<in> den (s # m)"
  show "x \<le> last_ivl (fst s)"
  proof (rule ccontr)
    assume "\<not> x \<le> last_ivl (fst s)"
    then have "(last_ivl (fst s) + 1, snd s) \<in> den m"
      using r [rule_format, of "last_ivl (fst s) + 1"] assms(1) seg_ok_ends [of idel s] by simp
    moreover obtain t m' where "m = t # m'" using calculation by (cases m) auto
    moreover have "\<not> joinable s t" "rwf idel (t # m') (last_ivl (fst s))" using assms(1) calculation by auto
    ultimately show False
      using den_above [of idel m' "last_ivl (fst t)" "last_ivl (fst s) + 1" "snd s"] seg_ok_ends [of idel t]
      by (auto simp: joinable_def touches_def domain_next_def)
  qed
qed auto

lemma canonical_rwf:
  assumes "rwf idel m k" "rwf idel n k" "den m = den n"
  shows "map ends m = map ends n"
  using assms
proof (induction m arbitrary: n k)
  case Nil
  show ?case
  proof (cases n)
    case (Cons t n')
    then show ?thesis using rwf_first(1) [of idel t n' k] Nil.prems by (metis den_simps(1) empty_iff)
  qed simp
next
  case (Cons s m)
  then obtain t n' where n: "n = t # n'" using rwf_first(1) [OF Cons.prems(1)] by (cases n) auto
  note S = Cons.prems(1) and T = Cons.prems(2) [unfolded n] and D = Cons.prems(3) [unfolded n]
  have st: "(first_ivl (fst s), snd s) \<in> den (t # n')" "(first_ivl (fst t), snd t) \<in> den (s # m)"
    using rwf_first(1) [OF S] rwf_first(1) [OF T] by (simp_all only: D)
  have f: "first_ivl (fst s) = first_ivl (fst t)"
    using rwf_first(2) [OF S st(2)] rwf_first(2) [OF T st(1)] by simp
  have u: "wf_imap idel (s # m)" using S by (simp only: rwf_iff)
  have v: "snd s = snd t"
    using wf_den_unique [OF u rwf_first(1) [OF S]] st(2) f by simp
  have x: "x \<le> last_ivl (fst s) \<longleftrightarrow> x \<le> last_ivl (fst t)" if "first_ivl (fst s) \<le> x" for x
    using rwf_last [OF S that] rwf_last [OF T, of x] that unfolding f v D by blast
  have le: "first_ivl (fst s) \<le> last_ivl (fst s)" "first_ivl (fst t) \<le> last_ivl (fst t)"
    using S T seg_ok_ends [of idel s] seg_ok_ends [of idel t] by simp_all
  have l: "last_ivl (fst s) = last_ivl (fst t)"
    using x [of "last_ivl (fst s)"] x [of "last_ivl (fst t)"] le f by simp
  have m: "rwf idel m (last_ivl (fst s))" "rwf idel n' (last_ivl (fst t))" using S T by simp_all
  have r: "den l = den (r # l) - sden r" if "rwf idel l (last_ivl (fst r))" for l r
    using den_above [OF that] by fastforce
  have "sden s = sden t" using f l v by (simp add: sden_def iset_def)
  then have "den m = den n'" using r [OF m(1)] r [OF m(2)] D by simp
  then show ?case using Cons.IH [OF m(1), of n'] m(2) n f l v by (simp add: ends_def)
qed

lemma canonical:
  assumes "wf_imap idel m" "wf_imap idel n" "den m = den n"
  shows "map ends m = map ends n"
proof -
  have ex: "rwf idel l (first_ivl (fst (hd l)) - 1)" if "wf_imap idel l" for l
    unfolding rwf_iff using that wf_hd_le(1) [OF that] by (simp add: less_le_trans [OF _ wf_hd_le(1) [OF that]])
  let ?k = "min (first_ivl (fst (hd m)) - 1) (first_ivl (fst (hd n)) - 1)"
  have "rwf idel m ?k" "rwf idel n ?k"
    using rwf_mono [OF ex [OF assms(1)], of ?k] rwf_mono [OF ex [OF assms(2)], of ?k] by simp_all
  then show ?thesis by (rule canonical_rwf [OF _ _ assms(3)])
qed

end
