(* ===== verification/ImQueue.thy ===== *)
theory ImQueue
  imports IclMapBounds "HOL-Library.FSet"
begin

text \<open>
  The interval queue of the server: \<open>immap_t\<close>, an interval map from \<open>int64_t\<close>
  to \<open>std::set<std::shared_ptr<payload_t>>\<close>. A shared pointer is the number of its
  payload in allocation order, which is also the order of the set; the combiner is
  \<open>inplace_plus<imset_t>\<close>, the union of sets, with the empty set as identity.

  The locale \<open>interval_store\<close> is what the server relies on of the queue; it is
  interpreted on the interval map at the end of the theory.
\<close>

section \<open>Sets of payloads\<close>

type_synonym imvalue = nat
type_synonym imset = "imvalue fset"

definition imset_add :: "imset \<Rightarrow> imvalue \<Rightarrow> imset" where
  "imset_add object operand = finsert operand object"

text \<open>\<open>operator +=\<close> of element containers adds the operand's elements in order.\<close>

definition imset_plus :: "imset \<Rightarrow> imset \<Rightarrow> imset" where
  "imset_plus object operand = foldl imset_add object (sorted_list_of_fset operand)"

lemma imset_plus_union [simp]: "imset_plus a b = a |\<union>| b"
proof -
  have "foldl imset_add a xs = a |\<union>| fset_of_list xs" for xs
    by (induction xs arbitrary: a) (auto simp: imset_add_def)
  then show ?thesis by (simp add: imset_plus_def)
qed

lemma imset_plus_fun: "imset_plus = (|\<union>|)"
  by (intro ext) simp

interpretation im: inplace_combiner imset_plus "{||}"
  by unfold_locales simp_all

section \<open>The queue\<close>

type_synonym immap = "imset imap"

definition immap_plus :: "immap \<Rightarrow> imset segment \<Rightarrow> immap" where
  "immap_plus q s = add_seg imset_plus {||} s q"

definition immap_minus :: "immap \<Rightarrow> discrete_interval \<Rightarrow> immap" where
  "immap_minus q i = erase_interval i q"

definition immap_and :: "immap \<Rightarrow> discrete_interval \<Rightarrow> immap" where
  "immap_and q i = map_and imset_plus {||} q i"

text \<open>The loop of \<open>set_payload\<close> that collects the payloads of all segments.\<close>

definition unique_payloads :: "immap \<Rightarrow> imset" where
  "unique_payloads got = foldl (\<lambda>u s. imset_plus u (snd s)) {||} got"

lemma unique_payloads_iff: "p |\<in>| unique_payloads m \<longleftrightarrow> (\<exists>s\<in>set m. p |\<in>| snd s)"
proof -
  have "p |\<in>| foldl (\<lambda>u s. imset_plus u (snd s)) a m \<longleftrightarrow> p |\<in>| a \<or> (\<exists>s\<in>set m. p |\<in>| snd s)" for a
    by (induction m arbitrary: a) auto
  then show ?thesis by (simp add: unique_payloads_def)
qed

section \<open>What the server relies on\<close>

datatype 'a store_event = Put int int "'a fset" | Cut int int

locale interval_store =
  fixes inv :: "'q \<Rightarrow> bool" and at :: "'q \<Rightarrow> int \<Rightarrow> 'a fset" and empty :: 'q
    and put :: "'q \<Rightarrow> int \<Rightarrow> int \<Rightarrow> 'a fset \<Rightarrow> 'q" and cut :: "'q \<Rightarrow> int \<Rightarrow> int \<Rightarrow> 'q"
    and view :: "'q \<Rightarrow> int \<Rightarrow> int \<Rightarrow> 'q" and members :: "'q \<Rightarrow> 'a fset"
    and lo :: "'q \<Rightarrow> int" and up :: "'q \<Rightarrow> int"
  assumes inv_empty: "inv empty" and at_empty: "at empty x = {||}"
    and inv_put: "inv q \<Longrightarrow> inv (put q a b v)"
    and at_put: "inv q \<Longrightarrow> at (put q a b v) x = (if a \<le> x \<and> x < b then at q x |\<union>| v else at q x)"
    and inv_cut: "inv q \<Longrightarrow> inv (cut q a b)"
    and at_cut: "inv q \<Longrightarrow> at (cut q a b) x = (if a \<le> x \<and> x < b then {||} else at q x)"
    and inv_view: "inv q \<Longrightarrow> inv (view q a b)"
    and at_view: "inv q \<Longrightarrow> at (view q a b) x = (if a \<le> x \<and> x < b then at q x else {||})"
    and members_iff: "inv q \<Longrightarrow> p |\<in>| members q \<longleftrightarrow> (\<exists>x. p |\<in>| at q x)"
    and lo_up: "inv q \<Longrightarrow> at q x \<noteq> {||} \<Longrightarrow> lo q \<le> x \<and> x < up q"
begin

lemma members_view:
  "inv q \<Longrightarrow> p |\<in>| members (view q a b) \<longleftrightarrow> (\<exists>x. a \<le> x \<and> x < b \<and> p |\<in>| at q x)"
  using members_iff [OF inv_view, of q p a b] at_view [of q a b] by (metis fempty_iff)

definition apply_event :: "'q \<Rightarrow> 'a store_event \<Rightarrow> 'q" where
  "apply_event q e = (case e of Put a b v \<Rightarrow> put q a b v | Cut a b \<Rightarrow> cut q a b)"

lemma inv_event: "inv q \<Longrightarrow> inv (apply_event q e)"
  by (cases e) (simp_all add: apply_event_def inv_put inv_cut)

lemma inv_run: "inv q \<Longrightarrow> inv (foldl apply_event q es)"
  by (induction es arbitrary: q) (simp_all add: inv_event)

lemma event_member:
  "inv q \<Longrightarrow> p |\<in>| at (apply_event q e) x \<longleftrightarrow>
     (case e of Put a b v \<Rightarrow> p |\<in>| at q x \<or> (a \<le> x \<and> x < b \<and> p |\<in>| v)
      | Cut a b \<Rightarrow> p |\<in>| at q x \<and> \<not> (a \<le> x \<and> x < b))"
  by (cases e) (auto simp: apply_event_def at_put at_cut)

text \<open>A payload is at \<open>x\<close> when it was put there and no later cut covered \<open>x\<close>.\<close>

lemma history:
  assumes "inv q"
  shows "p |\<in>| at (foldl apply_event q es) x \<longleftrightarrow>
    (p |\<in>| at q x \<and> (\<forall>a b. Cut a b \<in> set es \<longrightarrow> \<not> (a \<le> x \<and> x < b))) \<or>
    (\<exists>pre a b v post. es = pre @ Put a b v # post \<and> a \<le> x \<and> x < b \<and> p |\<in>| v \<and>
       (\<forall>a b. Cut a b \<in> set post \<longrightarrow> \<not> (a \<le> x \<and> x < b)))"
  using assms
proof (induction es arbitrary: q)
  case (Cons e es)
  let ?later = "\<lambda>es. \<exists>pre a b v post. es = pre @ Put a b v # post \<and> a \<le> x \<and> x < b \<and> p |\<in>| v \<and>
       (\<forall>a b. Cut a b \<in> set post \<longrightarrow> \<not> (a \<le> x \<and> x < b))"
  let ?safe = "\<forall>a b. Cut a b \<in> set es \<longrightarrow> \<not> (a \<le> x \<and> x < b)"
  have step: "?later (e # es) \<longleftrightarrow> ?later es \<or> (\<exists>a b v. e = Put a b v \<and> a \<le> x \<and> x < b \<and> p |\<in>| v \<and> ?safe)"
    by (auto simp: Cons_eq_append_conv) blast+
  show ?case
    using Cons.IH [OF inv_event [OF Cons.prems, of e]] event_member [OF Cons.prems, of p e x]
    unfolding step by (cases e) auto
qed simp

end

section \<open>The interval map is such a store\<close>

definition queue_inv :: "immap \<Rightarrow> bool" where
  "queue_inv q \<longleftrightarrow> wf_imap {||} q \<and> right_open_map q"

definition queue_at :: "immap \<Rightarrow> int \<Rightarrow> imset" where
  "queue_at q x = sem {||} q x"

definition queue_put :: "immap \<Rightarrow> int \<Rightarrow> int \<Rightarrow> imset \<Rightarrow> immap" where
  "queue_put q a b v = immap_plus q (right_open a b, v)"

definition queue_cut :: "immap \<Rightarrow> int \<Rightarrow> int \<Rightarrow> immap" where
  "queue_cut q a b = immap_minus q (right_open a b)"

definition queue_view :: "immap \<Rightarrow> int \<Rightarrow> int \<Rightarrow> immap" where
  "queue_view q a b = immap_and q (right_open a b)"

lemma iset_right_open [simp]: "x \<in> iset (right_open a b) \<longleftrightarrow> a \<le> x \<and> x < b"
  by (auto simp: iset_def)

lemma ro_hint: "right_open_map q \<Longrightarrow> right_open_ivl i \<Longrightarrow> right_open_map (add_seg_hint imset_plus {||} (i, v) q)"
  by (simp add: im.add_hint ro_add)

lemma ro_intersection:
  "right_open_map sect \<Longrightarrow> right_open_map ss \<Longrightarrow> right_open_ivl i \<Longrightarrow>
     right_open_map (add_intersection_loop imset_plus {||} i ss sect)"
  by (induction ss arbitrary: sect) (simp_all add: Let_def ro_hint)

lemma ro_immap_and: "right_open_map q \<Longrightarrow> right_open_ivl i \<Longrightarrow> right_open_map (immap_and q i)"
  by (simp add: immap_and_def map_and_def add_intersection_def ro_intersection ro_parts)

lemma members_sem:
  assumes "queue_inv q"
  shows "p |\<in>| unique_payloads q \<longleftrightarrow> (\<exists>x. p |\<in>| queue_at q x)"
proof
  assume "p |\<in>| unique_payloads q"
  then obtain s where s: "s \<in> set q" "p |\<in>| snd s" by (auto simp: unique_payloads_iff)
  have w: "wf_imap {||} q" using assms by (simp add: queue_inv_def)
  have ok: "seg_ok {||} s" using wf_seg_ok [OF w s(1)] .
  then have "(first_ivl (fst s), snd s) \<in> den q" using s(1) seg_ok_ends [OF ok] by (force simp: den_def)
  then have "queue_at q (first_ivl (fst s)) = snd s"
    using sem_den [OF w] by (simp add: queue_at_def)
  then show "\<exists>x. p |\<in>| queue_at q x" using s(2) by auto
next
  assume "\<exists>x. p |\<in>| queue_at q x"
  then obtain x where x: "p |\<in>| queue_at q x" by blast
  then have "(x, queue_at q x) \<in> den q"
    using assms sem_den [of "{||}" q x] by (auto simp: queue_inv_def queue_at_def)
  then show "p |\<in>| unique_payloads q" using x by (force simp: unique_payloads_iff den_def)
qed

interpretation store: interval_store queue_inv queue_at "[]" queue_put queue_cut queue_view
  unique_payloads lower_map upper_map
proof unfold_locales
  fix q x a b v p
  show "queue_inv []" by (simp add: queue_inv_def wf_imap_def)
  show "queue_at [] x = {||}" by (simp add: queue_at_def sem_def lookup_map_def)
  assume q: "queue_inv q"
  then have w: "wf_imap {||} q" "right_open_map q" by (simp_all add: queue_inv_def)
  show "queue_inv (queue_put q a b v)"
    using w add_seg_ok [OF w(1), of "right_open a b" imset_plus v]
    by (simp add: queue_inv_def queue_put_def immap_plus_def ro_add)
  show "queue_at (queue_put q a b v) x = (if a \<le> x \<and> x < b then queue_at q x |\<union>| v else queue_at q x)"
    using im.add_sem [OF w(1), of "right_open a b"] by (simp add: queue_at_def queue_put_def immap_plus_def)
  show "queue_inv (queue_cut q a b)"
    using w erase_interval_ok [OF w(1), of "right_open a b"]
    by (simp add: queue_inv_def queue_cut_def immap_minus_def ro_erase)
  show "queue_at (queue_cut q a b) x = (if a \<le> x \<and> x < b then {||} else queue_at q x)"
    using erase_sem [OF w(1), of "right_open a b"] by (simp add: queue_at_def queue_cut_def immap_minus_def)
  show "queue_inv (queue_view q a b)"
    using w im.map_and_ok [OF w(1), of "right_open a b"] ro_immap_and [OF w(2), of "right_open a b"]
    by (simp add: queue_inv_def queue_view_def immap_and_def)
  show "queue_at (queue_view q a b) x = (if a \<le> x \<and> x < b then queue_at q x else {||})"
    using im.and_sem [OF w(1), of "right_open a b"] by (simp add: queue_at_def queue_view_def immap_and_def)
  show "p |\<in>| unique_payloads q \<longleftrightarrow> (\<exists>x. p |\<in>| queue_at q x)" using q by (rule members_sem)
  assume "queue_at q x \<noteq> {||}"
  then show "lower_map q \<le> x \<and> x < upper_map q"
    using bounds_domain [OF w, of x "queue_at q x"] sem_den [OF w(1), of x "queue_at q x"]
    by (simp add: queue_at_def)
qed

section \<open>Properties of the interval map\<close>

text \<open>A queue of two overlapping payloads and a third one apart, for the witnesses.\<close>

definition sample_queue :: immap where
  "sample_queue = [(right_open 0 3, {|1|}), (right_open 3 5, {|1, 7|}), (right_open 5 9, {|7|}),
     (right_open 12 20, {|4|})]"

lemma sample_queue_ok: "wf_imap {||} sample_queue" "right_open_map sample_queue"
  by code_simp+

text \<open>C5: \<open>+=\<close> of an interval map with a segment keeps the map well formed (disjoint, ordered,
  non-empty, joined, no empty set stored) and unites the set into the value of exactly the
  elements of the interval, whatever bounds the interval has.\<close>

theorem immap_plus_correct:
  assumes "wf_imap {||} q" "valid_ivl i"
  shows "wf_imap {||} (immap_plus q (i, v)) \<and>
    (\<forall>x. sem {||} (immap_plus q (i, v)) x =
      (if contains_elem i x then sem {||} q x |\<union>| v else sem {||} q x))"
  using add_seg_ok [OF assms, of imset_plus v] im.add_sem [OF assms, of v]
  by (simp add: immap_plus_def contains_elem_iff)

lemma immap_plus_correct_witness:
  "sem {||} (immap_plus sample_queue (right_open 4 13, {|5|})) 12 = {|4, 5|}"
proof -
  have "sem {||} sample_queue 12 = {|4|}" by code_simp
  then show ?thesis
    using immap_plus_correct [OF sample_queue_ok(1), of "right_open 4 13" "{|5|}"]
    by (simp add: contains_elem_iff finsert_commute)
qed

text \<open>\<open>-=\<close> of an interval map with an interval keeps the map well formed and removes exactly
  the elements of the interval.\<close>

lemma immap_minus_correct:
  assumes "wf_imap {||} q" "valid_ivl i"
  shows "wf_imap {||} (immap_minus q i) \<and>
    (\<forall>x. sem {||} (immap_minus q i) x = (if contains_elem i x then {||} else sem {||} q x))"
  using erase_interval_ok [OF assms] erase_sem [OF assms]
  by (simp add: immap_minus_def contains_elem_iff)

text \<open>\<open>&\<close> of an interval map with an interval is well formed and keeps exactly the pairs whose
  element is in the interval.\<close>

lemma immap_and_correct:
  assumes "wf_imap {||} q" "valid_ivl i"
  shows "wf_imap {||} (immap_and q i) \<and>
    (\<forall>x. sem {||} (immap_and q i) x = (if contains_elem i x then sem {||} q x else {||}))"
  using im.map_and_ok [OF assms] im.and_sem [OF assms]
  by (simp add: immap_and_def contains_elem_iff)

text \<open>C29: joining makes the representation canonical: two well-formed interval maps with the same
  value at every element have the same segments (same ends and value, one by one).\<close>

theorem immap_canonical:
  assumes "wf_imap {||} q" "wf_imap {||} r" "\<forall>x. sem {||} q x = sem {||} r x"
  shows "map ends q = map ends (r :: immap)"
proof (rule canonical [OF assms(1,2)])
  show "den q = den r"
    using sem_den [OF assms(1)] sem_den [OF assms(2)] assms(3) by auto
qed

lemma immap_canonical_witness:
  "map ends (immap_plus (immap_plus [] (right_open 0 5, {|1|})) (right_open 5 9, {|1|})) =
     map ends (immap_plus [] (right_open 0 9, {|1|}))"
proof (rule immap_canonical)
  have e: "wf_imap {||} ([] :: immap)" by code_simp
  note P = immap_plus_def [symmetric] add_seg_ok [of "{||}" _ _ imset_plus] im.add_sem
  show w: "wf_imap {||} (immap_plus (immap_plus [] (right_open 0 5, {|1|})) (right_open 5 9, {|1|}))"
    by code_simp
  show "wf_imap {||} (immap_plus [] (right_open 0 9, {|1|}))" by code_simp
  have l: "wf_imap {||} (immap_plus [] (right_open 0 5, {|1|}))" by code_simp
  show "\<forall>x. sem {||} (immap_plus (immap_plus [] (right_open 0 5, {|1|})) (right_open 5 9, {|1|})) x =
      sem {||} (immap_plus [] (right_open 0 9, {|1|})) x"
    using im.add_sem [OF l [unfolded immap_plus_def], of "right_open 5 9" "{|1|}"]
      im.add_sem [OF e, of "right_open 0 5" "{|1|}"] im.add_sem [OF e, of "right_open 0 9" "{|1|}"]
    by (auto simp: immap_plus_def sem_def lookup_map_def)
qed

text \<open>\<open>lower\<close> and \<open>upper\<close> of a well-formed map of right-open intervals delimit its elements, and
  are attained when there are any; of the empty map they are 1 and 0.\<close>

lemma immap_ends:
  assumes "wf_imap {||} q" "right_open_map q"
  shows "(if q = [] then lower_map q = 1 \<and> upper_map q = 0
     else sem {||} q (lower_map q) \<noteq> {||} \<and> sem {||} q (upper_map q - 1) \<noteq> {||}) \<and>
    {x. sem {||} q x \<noteq> {||}} \<subseteq> {lower_map q ..< upper_map q}"
proof -
  have "q \<noteq> [] \<Longrightarrow> sem {||} q (lower_map q) \<noteq> {||} \<and> sem {||} q (upper_map q - 1) \<noteq> {||}"
    using bounds_attained [OF assms] sem_den [OF assms(1)] by blast
  moreover have "lower_map q \<le> x \<and> x < upper_map q" if "sem {||} q x \<noteq> {||}" for x
    using bounds_domain [OF assms, of x "sem {||} q x"] sem_den [OF assms(1), of x "sem {||} q x"] that by simp
  then have "{x. sem {||} q x \<noteq> {||}} \<subseteq> {lower_map q ..< upper_map q}" by (intro subsetI) simp
  ultimately show ?thesis by (simp add: bounds_empty)
qed

text \<open>the cardinality of a well-formed interval map, a sum over its segments, is the number of
  elements it has a value for.\<close>

lemma immap_cardinality:
  assumes "wf_imap {||} q"
  shows "cardinality_map q = int (card {x. sem {||} (q :: immap) x \<noteq> {||}})"
proof -
  have "fst ` den q = {x. sem {||} q x \<noteq> {||}}"
    unfolding image_def Bex_def by (simp add: sem_den [OF assms])
  then show ?thesis using cardinality_ok [OF assms] by simp
qed

text \<open>C13: after any sequence of additions and erasures on an empty queue, a payload is found at an
  element exactly when some addition put it there and no later erasure covered the element.\<close>

theorem queue_history:
  "p |\<in>| queue_at (foldl store.apply_event [] es) x \<longleftrightarrow>
    (\<exists>pre a b v post. es = pre @ Put a b v # post \<and> a \<le> x \<and> x < b \<and> p |\<in>| v \<and>
       (\<nexists>a b. Cut a b \<in> set post \<and> a \<le> x \<and> x < b))"
proof -
  have "(\<nexists>a b. Cut a b \<in> set post \<and> a \<le> x \<and> x < b) \<longleftrightarrow>
      (\<forall>a b. Cut a b \<in> set post \<longrightarrow> \<not> (a \<le> x \<and> x < b))" for post :: "imvalue store_event list"
    by blast
  then show ?thesis using store.history [OF store.inv_empty, of p es x] by (simp only: store.at_empty fempty_iff simp_thms)
qed

end
