(* ===== verification/Codec.thy ===== *)
theory Codec
  imports Prelude
begin

text \<open>
  The codec \<open>tpq_codec\<close> (\<open>src/tpq_codec.cpp\<close>): its structure, its field accessors,
  the PUT and GET macros, and the receive and send operations.

  The two 256-byte character arrays of the structure are lists of 256 bytes; a C string
  in one of them ends before its first zero byte. A GET macro reads from the bytes between
  \<open>needle\<close> and \<open>ceiling\<close> and jumps to the label \<open>malformed\<close> when they are too few:
  the left injection of \<open>get_field\<close>, which keeps what was stored before. A socket is its
  type and the sequences of the message parts it still delivers and has been given, each with
  its MORE flag; a receive that finds no part is interrupted.
\<close>

section \<open>Structure and accessors\<close>

record tpq_codec =
  routing_id :: "frame option"
  codec_id :: int
  nickname :: "byte list"
  detmask :: u64
  seqno :: u32
  tstart :: u64
  tspan :: u64
  timeout :: u32
  status :: u16
  payload :: "zmsg option"
  reason :: "byte list"

definition TPQ_CODEC_HELLO :: int where "TPQ_CODEC_HELLO = 1"
definition TPQ_CODEC_COVERAGE :: int where "TPQ_CODEC_COVERAGE = 2"
definition TPQ_CODEC_QUERY :: int where "TPQ_CODEC_QUERY = 3"
definition TPQ_CODEC_RESULT :: int where "TPQ_CODEC_RESULT = 4"
definition TPQ_CODEC_PING :: int where "TPQ_CODEC_PING = 5"
definition TPQ_CODEC_PONG :: int where "TPQ_CODEC_PONG = 6"
definition TPQ_CODEC_GOODBYE :: int where "TPQ_CODEC_GOODBYE = 7"
definition TPQ_CODEC_GOODBYE_OK :: int where "TPQ_CODEC_GOODBYE_OK = 8"
definition TPQ_CODEC_ERROR :: int where "TPQ_CODEC_ERROR = 9"

lemmas codec_ids = TPQ_CODEC_HELLO_def TPQ_CODEC_COVERAGE_def TPQ_CODEC_QUERY_def
  TPQ_CODEC_RESULT_def TPQ_CODEC_PING_def TPQ_CODEC_PONG_def TPQ_CODEC_GOODBYE_def
  TPQ_CODEC_GOODBYE_OK_def TPQ_CODEC_ERROR_def

text \<open>C strings: \<open>strlen\<close>, and \<open>strncpy\<close> of 255 bytes followed by a final zero byte.\<close>

definition cstring :: "byte list \<Rightarrow> byte list" where
  "cstring buf = takeWhile (\<lambda>b. b \<noteq> 0) buf"

definition strlen :: "byte list \<Rightarrow> nat" where
  "strlen buf = length (cstring buf)"

definition strncpy255 :: "byte list \<Rightarrow> byte list \<Rightarrow> byte list" where
  "strncpy255 dst value = (let v = take 255 (cstring value)
     in v @ replicate (255 - length v) 0 @ drop 255 dst)"

definition tpq_codec_new :: tpq_codec where
  "tpq_codec_new = \<lparr>routing_id = None, codec_id = 0, nickname = replicate 256 0, detmask = 0, seqno = 0,
     tstart = 0, tspan = 0, timeout = 0, status = 0, payload = None, reason = replicate 256 0\<rparr>"

definition tpq_codec_set_routing_id :: "tpq_codec \<Rightarrow> frame option \<Rightarrow> tpq_codec" where
  "tpq_codec_set_routing_id c rid = c\<lparr>routing_id := rid\<rparr>"

definition tpq_codec_set_id :: "tpq_codec \<Rightarrow> int \<Rightarrow> tpq_codec" where
  "tpq_codec_set_id c i = c\<lparr>codec_id := i\<rparr>"

definition tpq_codec_command :: "tpq_codec \<Rightarrow> string" where
  "tpq_codec_command c =
     (if codec_id c = TPQ_CODEC_HELLO then ''HELLO''
      else if codec_id c = TPQ_CODEC_COVERAGE then ''COVERAGE''
      else if codec_id c = TPQ_CODEC_QUERY then ''QUERY''
      else if codec_id c = TPQ_CODEC_RESULT then ''RESULT''
      else if codec_id c = TPQ_CODEC_PING then ''PING''
      else if codec_id c = TPQ_CODEC_PONG then ''PONG''
      else if codec_id c = TPQ_CODEC_GOODBYE then ''GOODBYE''
      else if codec_id c = TPQ_CODEC_GOODBYE_OK then ''GOODBYE_OK''
      else if codec_id c = TPQ_CODEC_ERROR then ''ERROR'' else ''?'')"

definition tpq_codec_set_nickname :: "tpq_codec \<Rightarrow> byte list \<Rightarrow> tpq_codec" where
  "tpq_codec_set_nickname c value = c\<lparr>nickname := (strncpy255 (nickname c) value)[255 := 0]\<rparr>"

definition tpq_codec_set_detmask :: "tpq_codec \<Rightarrow> u64 \<Rightarrow> tpq_codec" where
  "tpq_codec_set_detmask c v = c\<lparr>detmask := v\<rparr>"

definition tpq_codec_set_seqno :: "tpq_codec \<Rightarrow> u32 \<Rightarrow> tpq_codec" where
  "tpq_codec_set_seqno c v = c\<lparr>seqno := v\<rparr>"

definition tpq_codec_set_tstart :: "tpq_codec \<Rightarrow> u64 \<Rightarrow> tpq_codec" where
  "tpq_codec_set_tstart c v = c\<lparr>tstart := v\<rparr>"

definition tpq_codec_set_tspan :: "tpq_codec \<Rightarrow> u64 \<Rightarrow> tpq_codec" where
  "tpq_codec_set_tspan c v = c\<lparr>tspan := v\<rparr>"

definition tpq_codec_set_timeout :: "tpq_codec \<Rightarrow> u32 \<Rightarrow> tpq_codec" where
  "tpq_codec_set_timeout c v = c\<lparr>timeout := v\<rparr>"

definition tpq_codec_set_status :: "tpq_codec \<Rightarrow> u16 \<Rightarrow> tpq_codec" where
  "tpq_codec_set_status c v = c\<lparr>status := v\<rparr>"

definition tpq_codec_get_payload :: "tpq_codec \<Rightarrow> zmsg option \<times> tpq_codec" where
  "tpq_codec_get_payload c = (payload c, c\<lparr>payload := None\<rparr>)"

definition tpq_codec_set_payload :: "tpq_codec \<Rightarrow> zmsg option \<Rightarrow> tpq_codec" where
  "tpq_codec_set_payload c m = c\<lparr>payload := m\<rparr>"

definition tpq_codec_set_reason :: "tpq_codec \<Rightarrow> byte list \<Rightarrow> tpq_codec" where
  "tpq_codec_set_reason c value = c\<lparr>reason := (strncpy255 (reason c) value)[255 := 0]\<rparr>"

text \<open>The accessors that read a field.\<close>

definition tpq_codec_routing_id :: "tpq_codec \<Rightarrow> frame option" where
  [simp]: "tpq_codec_routing_id c = routing_id c"

definition tpq_codec_id :: "tpq_codec \<Rightarrow> int" where
  [simp]: "tpq_codec_id c = codec_id c"

definition tpq_codec_nickname :: "tpq_codec \<Rightarrow> byte list" where
  [simp]: "tpq_codec_nickname c = nickname c"

definition tpq_codec_detmask :: "tpq_codec \<Rightarrow> u64" where
  [simp]: "tpq_codec_detmask c = detmask c"

definition tpq_codec_seqno :: "tpq_codec \<Rightarrow> u32" where
  [simp]: "tpq_codec_seqno c = seqno c"

definition tpq_codec_tstart :: "tpq_codec \<Rightarrow> u64" where
  [simp]: "tpq_codec_tstart c = tstart c"

definition tpq_codec_tspan :: "tpq_codec \<Rightarrow> u64" where
  [simp]: "tpq_codec_tspan c = tspan c"

definition tpq_codec_timeout :: "tpq_codec \<Rightarrow> u32" where
  [simp]: "tpq_codec_timeout c = timeout c"

definition tpq_codec_status :: "tpq_codec \<Rightarrow> u16" where
  [simp]: "tpq_codec_status c = status c"

definition tpq_codec_payload :: "tpq_codec \<Rightarrow> zmsg option" where
  [simp]: "tpq_codec_payload c = payload c"

definition tpq_codec_reason :: "tpq_codec \<Rightarrow> byte list" where
  [simp]: "tpq_codec_reason c = reason c"

definition tpq_codec_dup :: "tpq_codec \<Rightarrow> tpq_codec" where
  "tpq_codec_dup other =
     (let copy = tpq_codec_new;
          copy = tpq_codec_set_routing_id copy (tpq_codec_routing_id other);
          copy = tpq_codec_set_id copy (tpq_codec_id other);
          copy = tpq_codec_set_nickname copy (tpq_codec_nickname other);
          copy = tpq_codec_set_detmask copy (tpq_codec_detmask other);
          copy = tpq_codec_set_seqno copy (tpq_codec_seqno other);
          copy = tpq_codec_set_tstart copy (tpq_codec_tstart other);
          copy = tpq_codec_set_tspan copy (tpq_codec_tspan other);
          copy = tpq_codec_set_timeout copy (tpq_codec_timeout other);
          copy = tpq_codec_set_status copy (tpq_codec_status other);
          copy = tpq_codec_set_payload copy (tpq_codec_payload other)
      in tpq_codec_set_reason copy (tpq_codec_reason other))"

text \<open>Destroying through a pointer: the frame and the message that are released with the structure, and the
  pointer afterwards.\<close>

definition tpq_codec_destroy :: "tpq_codec option \<Rightarrow> (frame option \<times> zmsg option) option \<times> tpq_codec option" where
  "tpq_codec_destroy self_p = (map_option (\<lambda>self. (routing_id self, payload self)) self_p, None)"

lemmas codec_setters = tpq_codec_set_routing_id_def tpq_codec_set_id_def tpq_codec_set_nickname_def
  tpq_codec_set_detmask_def tpq_codec_set_seqno_def tpq_codec_set_tstart_def tpq_codec_set_tspan_def
  tpq_codec_set_timeout_def tpq_codec_set_status_def tpq_codec_set_payload_def tpq_codec_set_reason_def

section \<open>PUT and GET macros\<close>

definition put_number1 :: "u64 \<Rightarrow> byte list" where
  "put_number1 h = [ucast h]"

definition put_number2 :: "u16 \<Rightarrow> byte list" where
  "put_number2 h = [ucast (drop_bit 8 h AND 255), ucast (h AND 255)]"

definition put_number4 :: "u32 \<Rightarrow> byte list" where
  "put_number4 h = [ucast (drop_bit 24 h AND 255), ucast (drop_bit 16 h AND 255),
     ucast (drop_bit 8 h AND 255), ucast (h AND 255)]"

definition put_number8 :: "u64 \<Rightarrow> byte list" where
  "put_number8 h = [ucast (drop_bit 56 h AND 255), ucast (drop_bit 48 h AND 255),
     ucast (drop_bit 40 h AND 255), ucast (drop_bit 32 h AND 255),
     ucast (drop_bit 24 h AND 255), ucast (drop_bit 16 h AND 255),
     ucast (drop_bit 8 h AND 255), ucast (h AND 255)]"

definition put_string :: "byte list \<Rightarrow> byte list" where
  "put_string host = put_number1 (of_nat (strlen host)) @ cstring host"

type_synonym 'a getter = "byte list \<Rightarrow> ('a \<times> byte list) option"

fun get_number1 :: "byte getter" where
  "get_number1 (a # r) = Some (a, r)"
| "get_number1 _ = None"

fun get_number2 :: "u16 getter" where
  "get_number2 (a # b # r) = Some (push_bit 8 (ucast a) + ucast b, r)"
| "get_number2 _ = None"

fun get_number4 :: "u32 getter" where
  "get_number4 (a # b # c # d # r) =
     Some (push_bit 24 (ucast a) + push_bit 16 (ucast b) + push_bit 8 (ucast c) + ucast d, r)"
| "get_number4 _ = None"

fun get_number8 :: "u64 getter" where
  "get_number8 (a # b # c # d # e # f # g # h # r) =
     Some (push_bit 56 (ucast a) + push_bit 48 (ucast b) + push_bit 40 (ucast c) + push_bit 32 (ucast d)
         + push_bit 24 (ucast e) + push_bit 16 (ucast f) + push_bit 8 (ucast g) + ucast h, r)"
| "get_number8 _ = None"

definition get_string :: "byte list getter" where
  "get_string bs = (case get_number1 bs of None \<Rightarrow> None
     | Some (n, r) \<Rightarrow> if unat n > length r then None else Some (take (unat n) r, drop (unat n) r))"

text \<open>The copy of a received string into its array, and the zero byte behind it.\<close>

definition store_string :: "byte list \<Rightarrow> byte list \<Rightarrow> byte list" where
  "store_string host s = (s @ drop (length s) host)[length s := 0]"

definition get_field ::
  "'a getter \<Rightarrow> ('a \<Rightarrow> tpq_codec \<Rightarrow> tpq_codec) \<Rightarrow> tpq_codec \<times> byte list \<Rightarrow> tpq_codec + tpq_codec \<times> byte list" where
  "get_field get store s = (case s of (c, bs) \<Rightarrow>
     case get bs of None \<Rightarrow> Inl c | Some (x, rest) \<Rightarrow> Inr (store x c, rest))"

primrec and_then :: "tpq_codec + 's \<Rightarrow> ('s \<Rightarrow> tpq_codec + 't) \<Rightarrow> tpq_codec + 't" where
  "and_then (Inl c) f = Inl c"
| "and_then (Inr s) f = f s"

section \<open>Sockets\<close>

datatype sock_type = ROUTER | DEALER

type_synonym part = "frame \<times> bool"

record zsock =
  sock_type :: sock_type
  inbound :: "part list"
  outbound :: "part list"

definition recv_part :: "zsock \<Rightarrow> (frame \<times> bool \<times> zsock) option" where
  "recv_part sk = (case inbound sk of [] \<Rightarrow> None | (f, rcvmore) # ps \<Rightarrow> Some (f, rcvmore, sk\<lparr>inbound := ps\<rparr>))"

definition send_part :: "frame \<Rightarrow> bool \<Rightarrow> zsock \<Rightarrow> zsock" where
  "send_part f rcvmore sk = sk\<lparr>outbound := outbound sk @ [(f, rcvmore)]\<rparr>"

text \<open>The remaining parts of a message, up to the first one without the MORE flag.\<close>

fun recv_rest :: "part list \<Rightarrow> zmsg option \<times> part list" where
  "recv_rest [] = (None, [])"
| "recv_rest ((f, rcvmore) # ps) =
     (if rcvmore then (case recv_rest ps of (m, r) \<Rightarrow> (map_option ((#) f) m, r)) else (Some [f], ps))"

section \<open>Receive\<close>

definition recv_hello :: "tpq_codec \<times> byte list \<Rightarrow> tpq_codec + tpq_codec \<times> byte list" where
  "recv_hello = get_field get_string (\<lambda>x c. c\<lparr>nickname := store_string (nickname c) x\<rparr>)"

definition recv_coverage :: "tpq_codec \<times> byte list \<Rightarrow> tpq_codec + tpq_codec \<times> byte list" where
  "recv_coverage = get_field get_number8 (\<lambda>x c. c\<lparr>detmask := x\<rparr>)"

definition recv_query :: "tpq_codec \<times> byte list \<Rightarrow> tpq_codec + tpq_codec \<times> byte list" where
  "recv_query s =
     and_then (get_field get_number4 (\<lambda>x c. c\<lparr>seqno := x\<rparr>) s) (\<lambda>s.
     and_then (get_field get_number8 (\<lambda>x c. c\<lparr>tstart := x\<rparr>) s) (\<lambda>s.
     and_then (get_field get_number8 (\<lambda>x c. c\<lparr>tspan := x\<rparr>) s) (\<lambda>s.
     and_then (get_field get_number8 (\<lambda>x c. c\<lparr>detmask := x\<rparr>) s) (\<lambda>s.
     get_field get_number4 (\<lambda>x c. c\<lparr>timeout := x\<rparr>) s))))"

definition recv_result :: "tpq_codec \<times> byte list \<Rightarrow> tpq_codec + tpq_codec \<times> byte list" where
  "recv_result s =
     and_then (get_field get_number4 (\<lambda>x c. c\<lparr>seqno := x\<rparr>) s) (\<lambda>s.
     get_field get_number2 (\<lambda>x c. c\<lparr>status := x\<rparr>) s)"

definition recv_error :: "tpq_codec \<times> byte list \<Rightarrow> tpq_codec + tpq_codec \<times> byte list" where
  "recv_error s =
     and_then (get_field get_number2 (\<lambda>x c. c\<lparr>status := x\<rparr>) s) (\<lambda>s.
     get_field get_string (\<lambda>x c. c\<lparr>reason := store_string (reason c) x\<rparr>) s)"

text \<open>
  The switch over the message id. A failed GET leaves \<open>rc\<close> at 0: the function returns it
  from the label \<open>malformed\<close>.
\<close>

primrec finish :: "tpq_codec + tpq_codec \<times> byte list \<Rightarrow> tpq_codec" where
  "finish (Inl c) = c"
| "finish (Inr s) = fst s"

definition recv_payload :: "tpq_codec \<Rightarrow> bool \<Rightarrow> zsock \<Rightarrow> int \<times> tpq_codec \<times> zsock" where
  "recv_payload c rcvmore sk =
     (if rcvmore then (case recv_rest (inbound sk) of (m, ps) \<Rightarrow> (0, c\<lparr>payload := m\<rparr>, sk\<lparr>inbound := ps\<rparr>))
      else (0, c\<lparr>payload := Some []\<rparr>, sk))"

definition recv_body :: "tpq_codec \<Rightarrow> byte list \<Rightarrow> bool \<Rightarrow> zsock \<Rightarrow> int \<times> tpq_codec \<times> zsock" where
  "recv_body c bs rcvmore sk =
     (if codec_id c = TPQ_CODEC_HELLO then (0, finish (recv_hello (c, bs)), sk)
      else if codec_id c = TPQ_CODEC_COVERAGE then (0, finish (recv_coverage (c, bs)), sk)
      else if codec_id c = TPQ_CODEC_QUERY then (0, finish (recv_query (c, bs)), sk)
      else if codec_id c = TPQ_CODEC_RESULT then
        (case recv_result (c, bs) of Inl c' \<Rightarrow> (0, c', sk) | Inr s \<Rightarrow> recv_payload (fst s) rcvmore sk)
      else if codec_id c = TPQ_CODEC_PING \<or> codec_id c = TPQ_CODEC_PONG
        \<or> codec_id c = TPQ_CODEC_GOODBYE \<or> codec_id c = TPQ_CODEC_GOODBYE_OK then (0, c, sk)
      else if codec_id c = TPQ_CODEC_ERROR then (0, finish (recv_error (c, bs)), sk)
      else (-2, c, sk))"

definition recv_frame :: "tpq_codec \<Rightarrow> zsock \<Rightarrow> int \<times> tpq_codec \<times> zsock" where
  "recv_frame c sk = (case recv_part sk of None \<Rightarrow> (-1, c, sk)
     | Some (bs, rcvmore, sk') \<Rightarrow>
        (case get_number2 bs of None \<Rightarrow> (0, c, sk')
         | Some (signature, r) \<Rightarrow>
            if signature \<noteq> 0xAAA0 then (-2, c, sk')
            else (case get_number1 r of None \<Rightarrow> (0, c, sk')
                  | Some (i, r') \<Rightarrow> recv_body (c\<lparr>codec_id := uint i\<rparr>) r' rcvmore sk')))"

definition tpq_codec_recv :: "tpq_codec \<Rightarrow> zsock \<Rightarrow> int \<times> tpq_codec \<times> zsock" where
  "tpq_codec_recv c sk =
     (if sock_type sk = ROUTER
      then (case recv_part sk of None \<Rightarrow> (-1, c\<lparr>routing_id := None\<rparr>, sk)
            | Some (rid, rcvmore, sk') \<Rightarrow>
               if \<not> rcvmore then (-1, c\<lparr>routing_id := Some rid\<rparr>, sk')
               else recv_frame (c\<lparr>routing_id := Some rid\<rparr>) sk')
      else recv_frame c sk)"

section \<open>Send\<close>

definition frame_size :: "tpq_codec \<Rightarrow> nat" where
  "frame_size c = 2 + 1 +
     (if codec_id c = TPQ_CODEC_HELLO then 1 + strlen (nickname c)
      else if codec_id c = TPQ_CODEC_COVERAGE then 8
      else if codec_id c = TPQ_CODEC_QUERY then 4 + 8 + 8 + 8 + 4
      else if codec_id c = TPQ_CODEC_RESULT then 4 + 2
      else if codec_id c = TPQ_CODEC_ERROR then 2 + (1 + strlen (reason c))
      else 0)"

definition encode_frame :: "tpq_codec \<Rightarrow> frame" where
  "encode_frame c = put_number2 0xAAA0 @ put_number1 (word_of_int (codec_id c)) @
     (if codec_id c = TPQ_CODEC_HELLO then put_string (nickname c)
      else if codec_id c = TPQ_CODEC_COVERAGE then put_number8 (detmask c)
      else if codec_id c = TPQ_CODEC_QUERY then put_number4 (seqno c) @ put_number8 (tstart c)
        @ put_number8 (tspan c) @ put_number8 (detmask c) @ put_number4 (timeout c)
      else if codec_id c = TPQ_CODEC_RESULT then put_number4 (seqno c) @ put_number2 (status c)
      else if codec_id c = TPQ_CODEC_ERROR then put_number2 (status c) @ put_string (reason c)
      else [])"

text \<open>The loop over the payload frames; \<open>n\<close> is \<open>nbr_frames\<close>, decremented before each test.\<close>

fun send_payload :: "nat \<Rightarrow> frame list \<Rightarrow> zsock \<Rightarrow> zsock" where
  "send_payload n [] sk = sk"
| "send_payload n (f # fs) sk = send_payload (n - 1) fs (send_part f (n - 1 \<noteq> 0) sk)"

definition tpq_codec_send :: "tpq_codec \<Rightarrow> zsock \<Rightarrow> int \<times> zsock" where
  "tpq_codec_send c sk =
     (let sk1 = (if sock_type sk = ROUTER
                 then (case routing_id c of None \<Rightarrow> sk | Some rid \<Rightarrow> send_part rid True sk) else sk);
          have_payload = (codec_id c = TPQ_CODEC_RESULT);
          nbr_frames = (if have_payload
                        then 1 + (case payload c of None \<Rightarrow> 1 | Some m \<Rightarrow> length m) else 1);
          sk2 = send_part (encode_frame c) (nbr_frames - 1 \<noteq> 0) sk1
      in (0, if have_payload
             then (case payload c of None \<Rightarrow> send_part [] False sk2
                   | Some m \<Rightarrow> send_payload (nbr_frames - 1) m sk2)
             else sk2))"

end
