(* ===== verification/CodecWire.thy ===== *)
theory CodecWire
  imports Codec
begin

text \<open>
  Correctness of the codec: the GET macros invert the PUT macros, a message that is sent
  on one socket and delivered to another is received unchanged, a frame is exactly as long
  as computed, and receiving any bytes at all keeps the string buffers terminated. The
  content of a message, apart from the representation of its fields, is a \<open>message\<close>.
\<close>

section \<open>Numbers\<close>

lemma low_byte: "(x :: 'a::len word) = push_bit 8 (drop_bit 8 x) + (x AND 255)"
proof -
  have m: "(255 :: 'a word) = mask 8" by (simp add: mask_eq_exp_minus_1)
  have "push_bit 8 (drop_bit 8 x) + (x AND 255) = push_bit 8 (drop_bit 8 x) OR (x AND 255)"
    unfolding m by (rule disjunctive_add) (auto simp: bit_simps)
  also have "\<dots> = x"
    unfolding m by (rule bit_word_eqI) (auto simp: bit_simps)
  finally show ?thesis by simp
qed

lemma byte_of_word:
  assumes "8 \<le> LENGTH('a::len)"
  shows "(ucast (ucast (x AND 255 :: 'a word) :: byte) :: 'a word) = x AND 255"
proof -
  have m: "(255 :: 'a word) = mask 8" by (simp add: mask_eq_exp_minus_1)
  show ?thesis unfolding m using assms
    by (intro bit_word_eqI) (auto simp: bit_simps)
qed

lemma push_byte:
  "push_bit n (drop_bit n x) = push_bit (n + 8) (drop_bit (n + 8) x) + push_bit n (drop_bit n x AND 255)"
  for x :: "'a::len word"
proof -
  have "drop_bit n x = push_bit 8 (drop_bit 8 (drop_bit n x)) + (drop_bit n x AND 255)" by (rule low_byte)
  then have "push_bit n (drop_bit n x) = push_bit n (push_bit 8 (drop_bit 8 (drop_bit n x)) + (drop_bit n x AND 255))"
    by simp
  then show ?thesis by (simp only: push_bit_add push_bit_push_bit drop_bit_drop_bit add.commute [of 8 n])
qed

lemma top_byte: "LENGTH('a) = n + 8 \<Longrightarrow> drop_bit n (x :: 'a::len word) AND 255 = drop_bit n x"
proof -
  assume l: "LENGTH('a) = n + 8"
  have m: "(255 :: 'a word) = mask 8" by (simp add: mask_eq_exp_minus_1)
  show ?thesis unfolding m using l by (intro bit_word_eqI) (auto simp: bit_simps dest: bit_imp_le_length)
qed

lemma chain4: "h = a + t \<Longrightarrow> a = b + u \<Longrightarrow> b = c + v \<Longrightarrow> c + v + u + t = (h :: 'a::len word)"
  by simp

lemma split4: "push_bit 24 (drop_bit 24 h AND 255) + push_bit 16 (drop_bit 16 h AND 255) +
    push_bit 8 (drop_bit 8 h AND 255) + (h AND 255) = (h :: u32)"
  using chain4 [OF low_byte [of h] push_byte [of 8 h, simplified] push_byte [of 16 h, simplified]]
    top_byte [of 24 h] by simp

lemma chain8: "h = a + t \<Longrightarrow> a = b + u \<Longrightarrow> b = c + v \<Longrightarrow> c = d + w \<Longrightarrow> d = e + x \<Longrightarrow> e = f + y \<Longrightarrow> f = g + z \<Longrightarrow>
    g + z + y + x + w + v + u + t = (h :: 'a::len word)"
  by simp

lemma split8: "push_bit 56 (drop_bit 56 h AND 255) + push_bit 48 (drop_bit 48 h AND 255)
    + push_bit 40 (drop_bit 40 h AND 255) + push_bit 32 (drop_bit 32 h AND 255)
    + push_bit 24 (drop_bit 24 h AND 255) + push_bit 16 (drop_bit 16 h AND 255)
    + push_bit 8 (drop_bit 8 h AND 255) + (h AND 255) = (h :: u64)"
  using chain8 [OF low_byte [of h] push_byte [of 8 h, simplified] push_byte [of 16 h, simplified]
      push_byte [of 24 h, simplified] push_byte [of 32 h, simplified] push_byte [of 40 h, simplified]
      push_byte [of 48 h, simplified]] top_byte [of 56 h] by simp

lemma get_put_number2 [codec_simps]: "get_number2 (put_number2 h @ r) = Some (h, r)"
proof -
  have "push_bit 8 (drop_bit 8 h AND 255) + (h AND 255) = h"
    using low_byte [of h] top_byte [of 8 h] by simp
  then show ?thesis
    by (simp only: put_number2_def append_Cons append_Nil get_number2.simps byte_of_word [where 'a = 16, simplified])
qed

lemma get_put_number4 [codec_simps]: "get_number4 (put_number4 h @ r) = Some (h, r)"
  by (simp only: put_number4_def append_Cons append_Nil get_number4.simps
      byte_of_word [where 'a = 32, simplified] split4)

lemma get_put_number8 [codec_simps]: "get_number8 (put_number8 h @ r) = Some (h, r)"
  by (simp only: put_number8_def append_Cons append_Nil get_number8.simps
      byte_of_word [where 'a = 64, simplified] split8)

lemma get_put_number1 [codec_simps]: "get_number1 (put_number1 h @ r) = Some (ucast h, r)"
  by (simp add: put_number1_def)

lemma get_number1_length: "get_number1 bs = Some (x, r) \<Longrightarrow> length bs = length r + 1"
  by (cases bs rule: get_number1.cases) auto

lemma get_number2_length: "get_number2 bs = Some (x, r) \<Longrightarrow> length bs = length r + 2"
  by (cases bs rule: get_number2.cases) auto

lemma get_number4_length: "get_number4 bs = Some (x, r) \<Longrightarrow> length bs = length r + 4"
  by (cases bs rule: get_number4.cases) auto

lemma get_number8_length: "get_number8 bs = Some (x, r) \<Longrightarrow> length bs = length r + 8"
  by (cases bs rule: get_number8.cases) auto

lemmas get_number_length = get_number1_length get_number2_length get_number4_length get_number8_length

lemma get_number1_None [codec_simps]: "get_number1 bs = None \<longleftrightarrow> length bs < 1"
  by (cases bs rule: get_number1.cases) auto

lemma get_number2_None [codec_simps]: "get_number2 bs = None \<longleftrightarrow> length bs < 2"
  by (cases bs rule: get_number2.cases) auto

lemma get_number4_None [codec_simps]: "get_number4 bs = None \<longleftrightarrow> length bs < 4"
  by (cases bs rule: get_number4.cases) auto

lemma get_number8_None [codec_simps]: "get_number8 bs = None \<longleftrightarrow> length bs < 8"
  by (cases bs rule: get_number8.cases) auto

section \<open>Strings\<close>

text \<open>A character array of the structure: 256 bytes, one of them zero.\<close>

definition buf_ok :: "byte list \<Rightarrow> bool" where
  "buf_ok b \<longleftrightarrow> length b = 256 \<and> 0 \<in> set b"

lemma cstring_no_zero: "0 \<notin> set (cstring b)"
  by (auto simp: cstring_def dest: set_takeWhileD)

lemma cstring_ident: "0 \<notin> set s \<Longrightarrow> cstring s = s"
  unfolding cstring_def by (induction s) auto

lemma cstring_append_zero: "0 \<notin> set s \<Longrightarrow> cstring (s @ 0 # r) = s"
  unfolding cstring_def by (induction s) auto

lemma strlen_bound: "buf_ok b \<Longrightarrow> strlen b \<le> 255"
proof -
  assume a: "buf_ok b"
  have "length (cstring b) < length b"
  proof (rule ccontr)
    assume "\<not> length (cstring b) < length b"
    then have "cstring b = b" unfolding cstring_def
      by (metis length_takeWhile_le linorder_not_less nat_less_le takeWhile_eq_take take_all)
    then show False using a cstring_no_zero [of b] by (simp add: buf_ok_def)
  qed
  then show ?thesis using a by (simp add: buf_ok_def strlen_def)
qed

lemma store_string_ok:
  assumes "length host = 256" "length s \<le> 255"
  shows "buf_ok (store_string host s)" "cstring (store_string host s) = cstring s"
proof -
  have d: "drop (length s) host = (drop (length s) host ! 0) # drop (Suc (length s)) host"
    using assms by (simp add: Cons_nth_drop_Suc)
  have e: "store_string host s = s @ 0 # drop (Suc (length s)) host"
    unfolding store_string_def by (subst d) (simp add: list_update_append)
  show "buf_ok (store_string host s)" using assms by (simp add: e buf_ok_def)
  show "cstring (store_string host s) = cstring s"
    unfolding e cstring_def by (rule takeWhile_tail) simp
qed

lemma strncpy_ok:
  assumes "length dst = 256"
  shows "buf_ok ((strncpy255 dst v)[255 := 0])" "cstring ((strncpy255 dst v)[255 := 0]) = take 255 (cstring v)"
proof -
  let ?s = "take 255 (cstring v)"
  have l: "length ?s \<le> 255" by simp
  have "strncpy255 dst v = (?s @ replicate (255 - length ?s) 0) @ [dst ! 255]"
    using assms by (simp add: strncpy255_def Let_def Cons_nth_drop_Suc [symmetric])
  then have "(strncpy255 dst v)[255 := 0] = (?s @ replicate (255 - length ?s) 0) @ [0]"
    by (simp add: list_update_append)
  also have "\<dots> = ?s @ 0 # replicate (255 - length ?s) 0"
    by (simp add: replicate_app_Cons_same)
  finally have e: "(strncpy255 dst v)[255 := 0] = ?s @ 0 # replicate (255 - length ?s) 0" .
  show "buf_ok ((strncpy255 dst v)[255 := 0])" unfolding e using l by (simp add: buf_ok_def)
  have "0 \<notin> set ?s" using cstring_no_zero set_take_subset by fast
  then show "cstring ((strncpy255 dst v)[255 := 0]) = ?s" unfolding e by (rule cstring_append_zero)
qed

lemma get_put_string [codec_simps]:
  assumes "strlen host \<le> 255"
  shows "get_string (put_string host @ r) = Some (cstring host, r)"
proof -
  have "unat (ucast (of_nat (strlen host) :: u64) :: byte) = strlen host"
    using assms by (simp add: unsigned_of_nat unat_of_nat take_bit_nat_eq_self ucast_eq)
  then show ?thesis
    by (simp add: get_string_def put_string_def put_number1_def strlen_def)
qed

lemma get_string_length: "get_string bs = Some (s, r) \<Longrightarrow> length s \<le> 255"
proof -
  assume "get_string bs = Some (s, r)"
  moreover obtain n q where n: "get_number1 bs = Some (n, q)"
    using calculation by (auto simp: get_string_def split: option.splits)
  ultimately have "length s \<le> unat n" by (auto simp: get_string_def split: if_splits)
  then show ?thesis using unsigned_less [of n, where 'a = nat] by simp
qed

section \<open>Messages\<close>

text \<open>A codec whose two string buffers are proper C strings.\<close>

definition codec_ok :: "tpq_codec \<Rightarrow> bool" where
  "codec_ok c \<longleftrightarrow> buf_ok (nickname c) \<and> buf_ok (reason c)"

datatype message = Hello "byte list" | Coverage u64 | Query u32 u64 u64 u64 u32
  | Result u32 u16 zmsg | Ping | Pong | Goodbye | GoodbyeOk | Error u16 "byte list"

text \<open>A null payload is sent as one empty frame.\<close>

definition wire_payload :: "zmsg option \<Rightarrow> zmsg" where
  "wire_payload p = (case p of None \<Rightarrow> [[]] | Some m \<Rightarrow> m)"

definition message_of :: "tpq_codec \<Rightarrow> message option" where
  "message_of c =
     (if codec_id c = TPQ_CODEC_HELLO then Some (Hello (cstring (nickname c)))
      else if codec_id c = TPQ_CODEC_COVERAGE then Some (Coverage (detmask c))
      else if codec_id c = TPQ_CODEC_QUERY then
        Some (Query (seqno c) (tstart c) (tspan c) (detmask c) (timeout c))
      else if codec_id c = TPQ_CODEC_RESULT then
        Some (Result (seqno c) (status c) (wire_payload (payload c)))
      else if codec_id c = TPQ_CODEC_PING then Some Ping
      else if codec_id c = TPQ_CODEC_PONG then Some Pong
      else if codec_id c = TPQ_CODEC_GOODBYE then Some Goodbye
      else if codec_id c = TPQ_CODEC_GOODBYE_OK then Some GoodbyeOk
      else if codec_id c = TPQ_CODEC_ERROR then Some (Error (status c) (cstring (reason c)))
      else None)"

fun message_id :: "message \<Rightarrow> int" where
  "message_id (Hello _) = TPQ_CODEC_HELLO"
| "message_id (Coverage _) = TPQ_CODEC_COVERAGE"
| "message_id (Query _ _ _ _ _) = TPQ_CODEC_QUERY"
| "message_id (Result _ _ _) = TPQ_CODEC_RESULT"
| "message_id Ping = TPQ_CODEC_PING"
| "message_id Pong = TPQ_CODEC_PONG"
| "message_id Goodbye = TPQ_CODEC_GOODBYE"
| "message_id GoodbyeOk = TPQ_CODEC_GOODBYE_OK"
| "message_id (Error _ _) = TPQ_CODEC_ERROR"

lemma message_of_id: "message_of c = Some m \<Longrightarrow> codec_id c = message_id m"
  by (auto simp: message_of_def split: if_splits)

lemma message_id_inject: "message_id m \<in> {1..9}"
  by (cases m) (simp_all add: codec_ids)

section \<open>Frames sent\<close>

text \<open>The parts of a message: the data frame, then the payload frames, MORE on all but the last.\<close>

fun mark_parts :: "frame list \<Rightarrow> part list" where
  "mark_parts [] = []"
| "mark_parts [f] = [(f, False)]"
| "mark_parts (f # g # fs) = (f, True) # mark_parts (g # fs)"

lemma mark_parts_Cons: "mark_parts (f # fs) = (f, fs \<noteq> []) # mark_parts fs"
  by (cases fs) simp_all

lemma send_payload_outbound:
  "outbound (send_payload (length fs) fs sk) = outbound sk @ mark_parts fs"
  "inbound (send_payload n fs sk) = inbound sk" "sock_type (send_payload n fs sk) = sock_type sk"
proof -
  show "outbound (send_payload (length fs) fs sk) = outbound sk @ mark_parts fs"
    by (induction fs arbitrary: sk) (simp_all add: send_part_def mark_parts_Cons)
  show "inbound (send_payload n fs sk) = inbound sk" "sock_type (send_payload n fs sk) = sock_type sk"
    by (induction fs arbitrary: n sk) (simp_all add: send_part_def)
qed

definition message_parts :: "tpq_codec \<Rightarrow> part list" where
  "message_parts c = mark_parts (encode_frame c #
     (if codec_id c = TPQ_CODEC_RESULT then wire_payload (payload c) else []))"

lemma send_outbound:
  "outbound (snd (tpq_codec_send c sk)) = outbound sk @
     (if sock_type sk = ROUTER then (case routing_id c of None \<Rightarrow> [] | Some rid \<Rightarrow> [(rid, True)]) else [])
     @ message_parts c"
  by (auto simp: tpq_codec_send_def Let_def message_parts_def wire_payload_def mark_parts_Cons
      send_payload_outbound send_part_def split: option.splits)

lemma send_inbound: "inbound (snd (tpq_codec_send c sk)) = inbound sk"
  by (auto simp: tpq_codec_send_def Let_def send_payload_outbound send_part_def split: option.splits)

lemma send_socket: "sock_type (snd (tpq_codec_send c sk)) = sock_type sk"
  by (auto simp: tpq_codec_send_def Let_def send_payload_outbound send_part_def split: option.splits)

lemma recv_rest_parts: "fs \<noteq> [] \<Longrightarrow> recv_rest (mark_parts fs @ ps) = (Some fs, ps)"
  by (induction fs rule: mark_parts.induct) simp_all

section \<open>Round trip\<close>

lemma ucast_id: "(ucast (word_of_int i :: u64) :: byte) = word_of_int i"
  by transfer simp

lemma encode_parts: "encode_frame c =
    put_number2 0xAAA0 @ put_number1 (word_of_int (codec_id c)) @ drop 3 (encode_frame c)"
  by (simp add: encode_frame_def put_number1_def put_number2_def)

lemma encode_get:
  assumes "codec_id c = message_id m"
  shows "\<exists>r. get_number2 (encode_frame c) = Some (0xAAA0, r) \<and>
    get_number1 r = Some (word_of_int (message_id m), drop 3 (encode_frame c))"
  by (subst encode_parts) (simp add: get_put_number2 get_put_number1 assms ucast_id del: drop_drop)

lemma byte_id: "uint (word_of_int (message_id m) :: byte) = message_id m"
  using message_id_inject [of m] by (simp add: uint_word_of_int)

lemma recv_frame_encoded:
  assumes "codec_id c = message_id m" "inbound sk = (encode_frame c, rcv) # ps"
  shows "recv_frame d sk =
    recv_body (d\<lparr>codec_id := message_id m\<rparr>) (drop 3 (encode_frame c)) rcv (sk\<lparr>inbound := ps\<rparr>)"
proof -
  obtain r where r: "get_number2 (encode_frame c) = Some (0xAAA0, r)"
    "get_number1 r = Some (word_of_int (message_id m), drop 3 (encode_frame c))"
    using encode_get [OF assms(1)] by blast
  show ?thesis by (simp add: recv_frame_def recv_part_def assms(2) r byte_id)
qed

lemma drop3_header: "drop 3 (put_number2 h @ put_number1 i @ b) = b"
  by (simp add: put_number1_def put_number2_def)

lemma encode_body:
  "codec_id c = TPQ_CODEC_HELLO \<Longrightarrow> drop 3 (encode_frame c) = put_string (nickname c) @ []"
  "codec_id c = TPQ_CODEC_COVERAGE \<Longrightarrow> drop 3 (encode_frame c) = put_number8 (detmask c) @ []"
  "codec_id c = TPQ_CODEC_QUERY \<Longrightarrow> drop 3 (encode_frame c) = put_number4 (seqno c) @ put_number8 (tstart c)
        @ put_number8 (tspan c) @ put_number8 (detmask c) @ put_number4 (timeout c) @ []"
  "codec_id c = TPQ_CODEC_RESULT \<Longrightarrow> drop 3 (encode_frame c) = put_number4 (seqno c) @ put_number2 (status c) @ []"
  "codec_id c = TPQ_CODEC_ERROR \<Longrightarrow> drop 3 (encode_frame c) = put_number2 (status c) @ put_string (reason c) @ []"
  unfolding encode_frame_def drop3_header by (simp_all add: codec_ids)

lemmas recv_steps = recv_hello_def recv_coverage_def recv_query_def recv_result_def recv_error_def
  get_field_def recv_body_def recv_payload_def

lemmas got_numbers = get_put_number2 get_put_number4 get_put_number8 get_put_string
  get_put_number2 [of _ "[]", simplified] get_put_number4 [of _ "[]", simplified]
  get_put_number8 [of _ "[]", simplified] get_put_string [of _ "[]", simplified]

text \<open>What the receiver makes of the frames of a message, for any earlier state of its codec.\<close>

definition received :: "tpq_codec \<Rightarrow> tpq_codec \<Rightarrow> message \<Rightarrow> bool" where
  "received d d' m \<longleftrightarrow> codec_ok d' \<and> routing_id d' = routing_id d \<and> message_of d' = Some m \<and>
     (\<forall>n st pl. m = Result n st pl \<longrightarrow> payload d' = Some pl)"

lemma recv_body_encoded:
  assumes m: "message_of c = Some m" and ok: "codec_ok c" "codec_ok d"
    and p: "p = (if codec_id c = TPQ_CODEC_RESULT then wire_payload (payload c) else [])"
    and i: "inbound sk = mark_parts p @ ps"
  shows "case recv_body (d\<lparr>codec_id := message_id m\<rparr>) (drop 3 (encode_frame c)) (p \<noteq> []) sk of
    (rc, d', sk') \<Rightarrow> rc = 0 \<and> sk' = sk\<lparr>inbound := ps\<rparr> \<and> received d d' m"
proof -
  have id: "codec_id c = message_id m" using m by (rule message_of_id)
  have b: "buf_ok (nickname c)" "buf_ok (reason c)" "length (nickname d) = 256" "length (reason d) = 256"
    "buf_ok (nickname d)" "buf_ok (reason d)"
    using ok by (simp_all add: codec_ok_def buf_ok_def)
  have cc: "cstring (cstring x) = cstring x" for x by (simp add: cstring_ident cstring_no_zero)
  note sl = strlen_bound [OF b(1)] strlen_bound [OF b(2)]
  note ss = store_string_ok [OF b(3), of "cstring (nickname c)", unfolded cc]
    store_string_ok [OF b(4), of "cstring (reason c)", unfolded cc]
  show ?thesis
  proof (cases m)
    case (Result n st pl)
    then have "p = pl" "seqno c = n" "status c = st"
      using m id p by (simp_all add: message_of_def codec_ids)
    then show ?thesis using Result id i b(5,6)
      by (cases "pl = []") (simp_all add: encode_body recv_steps got_numbers codec_ids recv_rest_parts received_def
          message_of_def wire_payload_def codec_ok_def)
  qed (use m id p i b sl ss in \<open>simp_all add: encode_body recv_steps got_numbers codec_ids received_def
      message_of_def codec_ok_def cc strlen_def\<close>)
qed

lemma recv_delivered:
  assumes "message_of c = Some m" "codec_ok c" "codec_ok d" "inbound sk = message_parts c @ ps"
  shows "case recv_frame d sk of (rc, d', sk') \<Rightarrow> rc = 0 \<and> sk' = sk\<lparr>inbound := ps\<rparr> \<and> received d d' m"
proof -
  define p where "p = (if codec_id c = TPQ_CODEC_RESULT then wire_payload (payload c) else [])"
  have i: "inbound sk = (encode_frame c, p \<noteq> []) # (mark_parts p @ ps)"
    using assms(4) by (simp add: message_parts_def mark_parts_Cons p_def)
  have "recv_frame d sk = recv_body (d\<lparr>codec_id := message_id m\<rparr>) (drop 3 (encode_frame c)) (p \<noteq> [])
      (sk\<lparr>inbound := mark_parts p @ ps\<rparr>)"
    by (rule recv_frame_encoded [OF message_of_id [OF assms(1)] i])
  then show ?thesis
    using recv_body_encoded [OF assms(1-3) p_def, of "sk\<lparr>inbound := mark_parts p @ ps\<rparr>" ps] by simp
qed

section \<open>Any bytes\<close>

lemma and_then_ok:
  assumes "case r of Inl c \<Rightarrow> P c | Inr s \<Rightarrow> P (fst s)" "\<And>s. P (fst s) \<Longrightarrow> case f s of Inl c \<Rightarrow> P c | Inr s \<Rightarrow> P (fst s)"
  shows "case and_then r f of Inl c \<Rightarrow> P c | Inr s \<Rightarrow> P (fst s)"
  using assms by (cases r) auto

lemma get_field_ok:
  assumes "P (fst s)" "\<And>x r. get (snd s) = Some (x, r) \<Longrightarrow> P (store x (fst s))"
  shows "case get_field get store s of Inl c \<Rightarrow> P c | Inr s' \<Rightarrow> P (fst s')"
  using assms by (cases s) (auto simp: get_field_def split: option.splits)

lemma codec_ok_updates [simp]:
  "codec_ok (c\<lparr>codec_id := i\<rparr>) = codec_ok c" "codec_ok (c\<lparr>routing_id := rid\<rparr>) = codec_ok c"
  "codec_ok (c\<lparr>detmask := x\<rparr>) = codec_ok c" "codec_ok (c\<lparr>seqno := n\<rparr>) = codec_ok c"
  "codec_ok (c\<lparr>tstart := x\<rparr>) = codec_ok c" "codec_ok (c\<lparr>tspan := x\<rparr>) = codec_ok c"
  "codec_ok (c\<lparr>timeout := n\<rparr>) = codec_ok c" "codec_ok (c\<lparr>status := s\<rparr>) = codec_ok c"
  "codec_ok (c\<lparr>payload := p\<rparr>) = codec_ok c"
  by (simp_all add: codec_ok_def)

lemma codec_ok_strings:
  assumes "codec_ok c" "get_string bs = Some (x, r)"
  shows "codec_ok (c\<lparr>nickname := store_string (nickname c) x\<rparr>)"
    "codec_ok (c\<lparr>reason := store_string (reason c) x\<rparr>)"
  using assms store_string_ok(1) [OF _ get_string_length [OF assms(2)]]
  by (simp_all add: codec_ok_def buf_ok_def)

lemma recv_fields_ok:
  assumes "codec_ok (fst s)"
  shows "case recv_hello s of Inl c \<Rightarrow> codec_ok c | Inr s' \<Rightarrow> codec_ok (fst s')" (is ?h)
    and "case recv_coverage s of Inl c \<Rightarrow> codec_ok c | Inr s' \<Rightarrow> codec_ok (fst s')" (is ?c)
    and "case recv_query s of Inl c \<Rightarrow> codec_ok c | Inr s' \<Rightarrow> codec_ok (fst s')" (is ?q)
    and "case recv_result s of Inl c \<Rightarrow> codec_ok c | Inr s' \<Rightarrow> codec_ok (fst s')" (is ?r)
    and "case recv_error s of Inl c \<Rightarrow> codec_ok c | Inr s' \<Rightarrow> codec_ok (fst s')" (is ?e)
proof -
  note I = and_then_ok [where P = codec_ok] get_field_ok [where P = codec_ok]
  note S = codec_ok_strings
  show ?h unfolding recv_hello_def using assms by (intro I) (simp_all add: S)
  show ?c unfolding recv_coverage_def using assms by (intro I) simp_all
  show ?q unfolding recv_query_def using assms by (intro I) simp_all
  show ?r unfolding recv_result_def using assms by (intro I) simp_all
  show ?e unfolding recv_error_def using assms by (intro I) (simp_all add: S)
qed

lemma finish_ok: "case r of Inl c \<Rightarrow> P c | Inr s \<Rightarrow> P (fst s) \<Longrightarrow> P (finish r)"
  by (cases r) auto

lemma recv_body_ok:
  assumes "codec_ok c"
  shows "codec_ok (fst (snd (recv_body c bs rcv sk))) \<and> fst (recv_body c bs rcv sk) \<in> {0, -2}"
proof -
  have f: "codec_ok (fst (c, bs))" using assms by simp
  note F = recv_fields_ok [OF f, THEN finish_ok [where P = codec_ok]]
  have "codec_ok (fst (snd (recv_payload c' rcv sk)))" if "codec_ok c'" for c'
    using that by (auto simp: recv_payload_def codec_ok_def split: prod.splits)
  moreover have "fst (recv_payload c' rcv sk) = 0" for c'
    by (auto simp: recv_payload_def split: prod.splits)
  ultimately show ?thesis using F recv_fields_ok(4) [OF f] assms
    by (auto simp: recv_body_def split: sum.splits)
qed

lemma recv_body_rc:
  "fst (recv_body c bs rcv sk) = (if 1 \<le> codec_id c \<and> codec_id c \<le> 9 then 0 else -2)"
proof -
  have "fst (recv_payload c' rcv sk) = 0" for c'
    by (auto simp: recv_payload_def split: prod.splits)
  then show ?thesis by (auto simp: recv_body_def codec_ids split: sum.splits)
qed

lemma signature_bytes: "push_bit 8 (ucast a) + ucast b = (0xAAA0 :: u16) \<longleftrightarrow> a = (0xAA :: byte) \<and> b = (0xA0 :: byte)"
proof
  assume e: "push_bit 8 (ucast a) + ucast b = (0xAAA0 :: u16)"
  have "push_bit 8 (ucast a :: u16) + ucast b = push_bit 8 (ucast a) OR ucast b"
    by (rule disjunctive_add) (auto simp: bit_simps dest: bit_imp_le_length)
  then have o: "push_bit 8 (ucast a) OR ucast b = (0xAAA0 :: u16)" using e by simp
  have "a = ucast (drop_bit 8 (push_bit 8 (ucast a :: u16) OR ucast b))"
    by (rule bit_word_eqI) (auto simp: bit_simps dest: bit_imp_le_length)
  moreover have "b = ucast (push_bit 8 (ucast a :: u16) OR ucast b)"
    by (rule bit_word_eqI) (auto simp: bit_simps dest: bit_imp_le_length)
  ultimately show "a = 0xAA \<and> b = 0xA0" unfolding o by simp
qed simp

lemma recv_frame_ok:
  assumes "codec_ok c"
  shows "codec_ok (fst (snd (recv_frame c sk))) \<and> fst (recv_frame c sk) \<in> {0, -1, -2}"
proof -
  have "codec_ok (c\<lparr>codec_id := i\<rparr>)" for i using assms by (simp add: codec_ok_def)
  note B = recv_body_ok [OF this]
  show ?thesis using B assms
    by (auto simp: recv_frame_def split: option.splits)
qed

text \<open>Receiving takes at least one part off the socket.\<close>

lemma recv_rest_length: "recv_rest ps = (m, r) \<Longrightarrow> length r \<le> length ps"
  by (induction ps arbitrary: m r rule: recv_rest.induct) (fastforce split: if_splits prod.splits)+

lemma recv_body_length:
  "recv_body c bs rcv sk = (rc, c', sk') \<Longrightarrow> length (inbound sk') \<le> length (inbound sk)"
  by (auto simp: recv_body_def recv_payload_def dest: recv_rest_length
      split: if_splits sum.splits prod.splits)

lemma recv_frame_length:
  assumes "recv_frame c sk = (rc, c', sk')" "inbound sk \<noteq> []"
  shows "length (inbound sk') < length (inbound sk)"
proof -
  obtain f b ps where i: "inbound sk = (f, b) # ps" using assms(2) by (cases "inbound sk") auto
  have "length (inbound sk') \<le> length ps"
    using assms(1) by (auto simp: recv_frame_def recv_part_def i dest!: recv_body_length
        split: option.splits if_splits)
  then show ?thesis by (simp add: i)
qed

lemma recv_length:
  assumes "tpq_codec_recv c sk = (rc, c', sk')" "inbound sk \<noteq> []"
  shows "length (inbound sk') < length (inbound sk)"
proof (cases "sock_type sk = ROUTER")
  case False
  then show ?thesis using assms recv_frame_length by (simp add: tpq_codec_recv_def)
next
  case True
  obtain f b ps where i: "inbound sk = (f, b) # ps" using assms(2) by (cases "inbound sk") auto
  show ?thesis
  proof (cases "b \<and> ps \<noteq> []")
    case True
    then show ?thesis
      using assms \<open>sock_type sk = ROUTER\<close> recv_frame_length [of "c\<lparr>routing_id := Some f\<rparr>" "sk\<lparr>inbound := ps\<rparr>" rc c' sk']
      by (auto simp: tpq_codec_recv_def recv_part_def i)
  next
    case False
    then show ?thesis using assms \<open>sock_type sk = ROUTER\<close>
      by (auto simp: tpq_codec_recv_def recv_frame_def recv_part_def i split: if_splits)
  qed
qed

lemma recv_socket: "tpq_codec_recv c sk = (rc, c', sk') \<Longrightarrow> sock_type sk' = sock_type sk"
proof -
  have b: "sock_type (snd (snd (recv_body c bs rcv sk))) = sock_type sk" for c bs rcv sk
    by (auto simp: recv_body_def recv_payload_def split: sum.splits prod.splits)
  have f: "sock_type (snd (snd (recv_frame c sk))) = sock_type sk" for c sk
    by (auto simp: recv_frame_def recv_part_def b split: option.splits list.splits)
  have "sock_type (snd (snd (tpq_codec_recv c sk))) = sock_type sk"
    by (auto simp: tpq_codec_recv_def recv_part_def f split: option.splits list.splits)
  then show "tpq_codec_recv c sk = (rc, c', sk') \<Longrightarrow> sock_type sk' = sock_type sk" by simp
qed

section \<open>Properties of the codec\<close>

text \<open>Sample codecs for the witnesses: a query, a result with two payload frames, a receiver.\<close>

definition sample_query :: tpq_codec where
  "sample_query = tpq_codec_new\<lparr>codec_id := TPQ_CODEC_QUERY, seqno := 7, tstart := 1000, tspan := 50,
     detmask := 3, timeout := 500\<rparr>"

definition sample_result :: tpq_codec where
  "sample_result = tpq_codec_new\<lparr>codec_id := TPQ_CODEC_RESULT, seqno := 7, status := 200,
     payload := Some [[1, 2], [3]]\<rparr>"

definition idle :: "sock_type \<Rightarrow> zsock" where
  "idle t = \<lparr>sock_type = t, inbound = [], outbound = []\<rparr>"

lemma codec_ok_new: "codec_ok tpq_codec_new"
  by (simp add: codec_ok_def buf_ok_def tpq_codec_new_def)

lemma message_of_routing [simp]: "message_of (c\<lparr>routing_id := r\<rparr>) = message_of c"
  by (simp add: message_of_def)

lemma sample_codecs:
  "codec_ok sample_query" "codec_ok sample_result"
  "message_of sample_query = Some (Query 7 1000 50 3 500)"
  "message_of sample_result = Some (Result 7 200 [[1, 2], [3]])"
  using codec_ok_new
  by (simp_all add: sample_query_def sample_result_def message_of_def codec_ids wire_payload_def)

text \<open>A message that one peer sends on a DEALER socket and the other receives on a DEALER socket
  arrives with return code 0 and the same content, whatever the receiving codec held before, and
  exactly the parts of the message are consumed.\<close>

lemma dealer_roundtrip:
  assumes "message_of c = Some m" "codec_ok c" "codec_ok d"
    and "sock_type sk = DEALER" "outbound sk = []"
    and "sock_type rk = DEALER" "inbound rk = outbound (snd (tpq_codec_send c sk)) @ ps"
  shows "case tpq_codec_recv d rk of (rc, d', rk') \<Rightarrow>
    rc = 0 \<and> message_of d' = Some m \<and> codec_ok d' \<and> inbound rk' = ps"
proof -
  have "inbound rk = message_parts c @ ps" using assms(4,5,7) by (simp add: send_outbound)
  from recv_delivered [OF assms(1-3) this] show ?thesis
    using assms(6) by (auto simp: tpq_codec_recv_def received_def split: prod.splits)
qed

text \<open>The same message received on a ROUTER socket, which puts the sender's routing id in front,
  leaves that routing id in the codec; and a codec sent on a ROUTER socket emits its routing id
  with MORE and then the parts that reach the DEALER peer.\<close>

lemma router_roundtrip:
  assumes "message_of c = Some m" "codec_ok c" "codec_ok d"
    and "sock_type sk = ROUTER" "outbound sk = []" "routing_id c = Some rid"
    and "sock_type rk = ROUTER" "inbound rk = outbound (snd (tpq_codec_send c sk)) @ ps"
  shows "(case tpq_codec_recv d rk of (rc, d', rk') \<Rightarrow>
      rc = 0 \<and> message_of d' = Some m \<and> codec_ok d' \<and> routing_id d' = Some rid \<and> inbound rk' = ps) \<and>
    outbound (snd (tpq_codec_send c sk)) = (rid, True) # outbound (snd (tpq_codec_send c (idle DEALER)))"
proof -
  have o: "outbound (snd (tpq_codec_send c sk)) = (rid, True) # message_parts c"
    using assms(4-6) by (simp add: send_outbound)
  define rk1 where "rk1 = rk\<lparr>inbound := message_parts c @ ps\<rparr>"
  have r: "recv_part rk = Some (rid, True, rk1)" using assms(8) o by (simp add: recv_part_def rk1_def)
  have "codec_ok (d\<lparr>routing_id := Some rid\<rparr>)" using assms(3) by simp
  from recv_delivered [OF assms(1,2) this, of rk1 ps] r o assms(7)
  show ?thesis by (auto simp: tpq_codec_recv_def received_def rk1_def send_outbound idle_def split: prod.splits)
qed

text \<open>C14: a message sent on a socket arrives, at a codec in any state, with return code 0 and the same content,
  and exactly its parts are consumed: between DEALER sockets, and between ROUTER sockets, where the sender's routing
  id travels in front and ends up in the codec.\<close>

theorem codec_roundtrip:
  assumes "message_of c = Some m" "codec_ok c" "codec_ok d"
    and "sock_type sk = t" "outbound sk = []" "sock_type rk = t" "inbound rk = outbound (snd (tpq_codec_send c sk)) @ ps"
    and "t = DEALER \<or> t = ROUTER \<and> routing_id c = Some rid"
  shows "case tpq_codec_recv d rk of (rc, d', rk') \<Rightarrow>
    rc = 0 \<and> message_of d' = Some m \<and> codec_ok d' \<and> inbound rk' = ps \<and> (t = ROUTER \<longrightarrow> routing_id d' = Some rid)"
proof (cases "t = DEALER")
  case True
  then show ?thesis using dealer_roundtrip [OF assms(1-3), of sk rk ps] assms(4-7) by (auto split: prod.splits)
next
  case False
  then show ?thesis using router_roundtrip [OF assms(1-3), of sk rid rk ps] assms(4-8) by (auto split: prod.splits)
qed

lemma codec_roundtrip_witness:
  "message_of (fst (snd (tpq_codec_recv tpq_codec_new
     ((idle DEALER)\<lparr>inbound := outbound (snd (tpq_codec_send sample_result (idle DEALER)))\<rparr>)))) =
   Some (Result 7 200 [[1, 2], [3]]) \<and>
   routing_id (fst (snd (tpq_codec_recv tpq_codec_new ((idle ROUTER)\<lparr>inbound :=
     outbound (snd (tpq_codec_send (sample_query\<lparr>routing_id := Some [9]\<rparr>) (idle ROUTER)))\<rparr>)))) = Some [9]"
proof -
  let ?c = "sample_query\<lparr>routing_id := Some [9]\<rparr>"
  have "message_of ?c = Some (Query 7 1000 50 3 500)" "codec_ok ?c"
    using sample_codecs(1,3) by simp_all
  from codec_roundtrip [OF this codec_ok_new, of "idle ROUTER" ROUTER
      "(idle ROUTER)\<lparr>inbound := outbound (snd (tpq_codec_send ?c (idle ROUTER)))\<rparr>" "[]" "[9]"]
    codec_roundtrip [OF sample_codecs(4,2) codec_ok_new, of "idle DEALER" DEALER
      "(idle DEALER)\<lparr>inbound := outbound (snd (tpq_codec_send sample_result (idle DEALER)))\<rparr>" "[]" "[]"]
  show ?thesis by (simp add: idle_def split: prod.splits)
qed

text \<open>The data frame is allocated with exactly the size of what is serialised into it, for every
  message id and field content: the PUT macros neither overrun the frame nor leave part of it unset.\<close>

lemma frame_size_exact: "length (encode_frame c) = frame_size c"
  by (simp add: encode_frame_def frame_size_def put_number1_def put_number2_def put_number4_def
      put_number8_def put_string_def strlen_def)

lemma recv_codec_ok:
  assumes "codec_ok c"
  shows "codec_ok (fst (snd (tpq_codec_recv c sk))) \<and> fst (tpq_codec_recv c sk) \<in> {0, -1, -2}"
proof -
  have "codec_ok (c\<lparr>routing_id := r\<rparr>)" for r using assms by simp
  note F = recv_frame_ok [OF this] recv_frame_ok [OF assms]
  show ?thesis using F assms by (auto simp: tpq_codec_recv_def split: option.splits)
qed

text \<open>C37: receiving from any peer, any bytes and any number of parts, keeps both string buffers 256
  bytes long and zero-terminated, and returns 0, -1 or -2.\<close>

theorem recv_keeps_buffers:
  assumes "codec_ok c"
  shows "codec_ok (fst (snd (tpq_codec_recv c sk))) \<and> fst (tpq_codec_recv c sk) \<in> {0, -1, -2}"
  using assms by (rule recv_codec_ok)

lemma recv_keeps_buffers_witness:
  "codec_ok (fst (snd (tpq_codec_recv tpq_codec_new
     ((idle DEALER)\<lparr>inbound := [([0xAA, 0xA0, 1, 3, 65, 0, 66], False)]\<rparr>))))"
  using recv_keeps_buffers [OF codec_ok_new] by blast

text \<open>C35: the return code for the first data frame of a DEALER socket. It is -1 when no frame
  arrives; -2 for a wrong signature or an unknown id; 0 in every other case, which includes
  frames too short for their id: a truncated message is not reported as malformed.\<close>

theorem recv_return_code:
  assumes "sock_type sk = DEALER"
  shows "fst (tpq_codec_recv c sk) =
    (case inbound sk of [] \<Rightarrow> -1
     | (bs, rcvmore) # ps \<Rightarrow>
        if length bs < 2 then 0
        else if take 2 bs \<noteq> [0xAA, 0xA0] then -2
        else if length bs = 2 then 0
        else if 1 \<le> uint (bs ! 2) \<and> uint (bs ! 2) \<le> 9 then 0 else -2)"
proof (cases "inbound sk")
  case Nil
  then show ?thesis using assms by (simp add: tpq_codec_recv_def recv_frame_def recv_part_def)
next
  case (Cons p ps)
  obtain bs rcvmore where p: "p = (bs, rcvmore)" by (cases p)
  show ?thesis
  proof (cases bs rule: get_number2.cases)
    case (1 a b r)
    then show ?thesis using assms Cons p
      by (cases r) (auto simp: tpq_codec_recv_def recv_frame_def recv_part_def recv_body_rc signature_bytes)
  qed (use assms Cons p in \<open>simp_all add: tpq_codec_recv_def recv_frame_def recv_part_def\<close>)
qed

lemma recv_return_code_witness:
  "fst (tpq_codec_recv sample_query ((idle DEALER)\<lparr>inbound := [([0xAA, 0xA0, 3, 0, 0], False)]\<rparr>)) = 0"
  using recv_return_code [of "(idle DEALER)\<lparr>inbound := [([0xAA, 0xA0, 3, 0, 0], False)]\<rparr>" sample_query]
  by (simp add: idle_def)

text \<open>A data frame of fewer than two bytes is accepted with return code 0 and leaves the codec as
  it was, so that the caller takes what the codec holds for a message.\<close>

lemma recv_short_frame_repeats:
  assumes "sock_type sk = DEALER" "inbound sk = (bs, rcvmore) # ps" "length bs < 2"
  shows "tpq_codec_recv c sk = (0, c, sk\<lparr>inbound := ps\<rparr>)"
  using assms by (simp add: tpq_codec_recv_def recv_frame_def recv_part_def get_number2_None [THEN iffD2])

lemma recv_short_frame_repeats_witness:
  "tpq_codec_recv sample_query ((idle DEALER)\<lparr>inbound := [([], False)]\<rparr>) = (0, sample_query, idle DEALER)"
  using recv_short_frame_repeats [of "(idle DEALER)\<lparr>inbound := [([], False)]\<rparr>" "[]" False "[]" sample_query]
  by (simp add: idle_def)

text \<open>A copy made by \<open>tpq_codec_dup\<close> carries the same message, routing id and payload, and its
  string buffers are well formed.\<close>

lemma dup_same_message:
  assumes "codec_ok c"
  shows "codec_ok (tpq_codec_dup c) \<and> message_of (tpq_codec_dup c) = message_of c \<and>
    routing_id (tpq_codec_dup c) = routing_id c \<and> payload (tpq_codec_dup c) = payload c"
proof -
  have b: "buf_ok (nickname c)" "buf_ok (reason c)" using assms by (simp_all add: codec_ok_def)
  have l: "length (replicate 256 (0 :: byte)) = 256" by simp
  have t: "take 255 (cstring (nickname c)) = cstring (nickname c)" "take 255 (cstring (reason c)) = cstring (reason c)"
    using strlen_bound [OF b(1)] strlen_bound [OF b(2)] by (simp_all add: strlen_def)
  note S = strncpy_ok [OF l, of "nickname c", unfolded t] strncpy_ok [OF l, of "reason c", unfolded t]
  show ?thesis using S
    by (simp add: tpq_codec_dup_def codec_setters tpq_codec_new_def codec_ok_def message_of_def)
qed

lemma dup_same_message_witness: "message_of (tpq_codec_dup sample_query) = Some (Query 7 1000 50 3 500)"
  using dup_same_message [OF sample_codecs(1)] sample_codecs(3) by simp

end
