(* ===== verification/ServerState.thy ===== *)
theory ServerState
  imports ImQueue CodecWire
begin

text \<open>
  The state of the server actor (\<open>src/tpq_server.cpp\<close> and \<open>src/tpq_server_engine.inc\<close>):
  payloads, pending requests, the application part \<open>server_t\<close> and the engine part
  \<open>s_server_t\<close> in one record (the engine embeds the application structure), and the clients.

  A client is reached through its address; addresses are handed out once, so that a freed
  client leaves a hole in the heap and reading through a stale pointer is the fault
  \<open>UseAfterFree\<close>. All clients share the server's one codec object \<open>message\<close>. Logging,
  which only reads the state, is left out.

  \<open>extern\<close> holds what the server takes from libraries outside this repository: the hex form
  of a frame (\<open>zframe_strhex\<close>), the encoding of a message as one frame (\<open>zmsg_encode\<close>),
  the fields of the \<open>TPSet\<close> in a message (\<open>ptmp::internals::recv_keep\<close>) and whether an
  ingest endpoint can be created (\<open>ptmp::internals::endpoint\<close>).
\<close>

section \<open>Data\<close>

record tpset =
  ts_tstart :: int
  ts_tspan :: int
  ts_detid :: u64
  ts_count :: u32

record extern =
  strhex :: "frame \<Rightarrow> string"
  encode_msg :: "zmsg \<Rightarrow> frame"
  tpset_of :: "zmsg \<Rightarrow> tpset"
  endpoint_made :: "frame \<Rightarrow> bool"

record payload_t =
  pl_msg :: zmsg
  pl_tstart :: int
  pl_tspan :: int
  pl_detid :: u64
  pl_count :: u32

definition new_payload :: "extern \<Rightarrow> zmsg \<Rightarrow> payload_t" where
  "new_payload x m = (let t = tpset_of x m in
     \<lparr>pl_msg = m, pl_tstart = ts_tstart t, pl_tspan = ts_tspan t, pl_detid = ts_detid t, pl_count = ts_count t\<rparr>)"

definition payload_interval :: "payload_t \<Rightarrow> fault + discrete_interval" where
  "payload_interval p = bind_fault (add_i64 (pl_tstart p) (pl_tspan p)) (\<lambda>e. Inr (right_open (pl_tstart p) e))"

definition payload_encode :: "extern \<Rightarrow> payload_t \<Rightarrow> frame" where
  "payload_encode x p = encode_msg x (pl_msg p)"

type_synonym client_ptr = nat

record request_t =
  rq_client :: client_ptr
  rq_detmask :: u64
  rq_tstart :: int
  rq_seqno :: u32

text \<open>\<open>std::map\<close> from the end of the requested interval to requests, in key order.\<close>

type_synonym request_queue = "(int \<times> request_t list) list"

fun push_request :: "int \<Rightarrow> request_t \<Rightarrow> request_queue \<Rightarrow> request_queue" where
  "push_request k r [] = [(k, [r])]"
| "push_request k r ((k', rs) # q) =
     (if k = k' then (k', rs @ [r]) # q
      else if k < k' then (k, [r]) # (k', rs) # q else (k', rs) # push_request k r q)"

datatype state_t = start_state | connected_state | defaults_state | zombie_state

datatype event_t = NULL_event | terminate_event | hello_event | query_event
  | query_is_fully_late_event | query_is_partly_late_event | query_is_satisfied_event
  | query_is_bogus_event | ping_event | goodbye_event | expired_event | exception_event

record s_client =
  cl_refcount :: u64
  cl_hashkey :: string
  cl_routing_id :: frame
  cl_unique_id :: u32
  cl_state :: state_t
  cl_event :: event_t
  cl_next_event :: event_t
  cl_exception :: event_t
  cl_wakeup :: bool
  cl_ticket :: bool
  cl_wakeup_event :: event_t

text \<open>The configuration tree as \<open>zconfig\<close> presents it: values by path, and the sections under
  \<open>tpq_server\<close>, each with its name and its values. Names and values are C strings.\<close>

type_synonym cstr = "byte list"

record config =
  cf_values :: "cstr \<rightharpoonup> cstr"
  cf_sections :: "(cstr \<times> (cstr \<rightharpoonup> cstr)) list"

record server =
  ingest :: bool
  own_detmask :: u64
  iq :: immap
  iq_lwm :: u64
  iq_hwm :: u64
  pending :: request_queue
  first_seen :: int
  count_check :: "u64 \<rightharpoonup> u64"
  payloads :: "payload_t list"
  message :: tpq_codec
  router :: zsock
  clients :: "string \<rightharpoonup> client_ptr"
  zombies :: "string \<rightharpoonup> client_ptr"
  heap :: "client_ptr \<rightharpoonup> s_client"
  next_ptr :: client_ptr
  client_id :: u32
  srv_timeout :: u64
  verbose :: bool
  port :: int
  config :: config

text \<open>Reading and writing a client through its address.\<close>

definition get_client :: "client_ptr \<Rightarrow> server \<Rightarrow> fault + s_client" where
  "get_client p s = (case heap s p of None \<Rightarrow> Inl UseAfterFree | Some c \<Rightarrow> Inr c)"

definition upd_client :: "client_ptr \<Rightarrow> (s_client \<Rightarrow> s_client) \<Rightarrow> server \<Rightarrow> fault + server" where
  "upd_client p f s = bind_fault (get_client p s) (\<lambda>c. Inr (s\<lparr>heap := (heap s)(p \<mapsto> f c)\<rparr>))"

section \<open>Engine functions for the actions\<close>

text \<open>The engine's internal API ignores clients that are zombies.\<close>

definition on_valid_client ::
  "client_ptr \<Rightarrow> (s_client \<Rightarrow> s_client) \<Rightarrow> server \<Rightarrow> fault + server" where
  "on_valid_client p f s = bind_fault (get_client p s) (\<lambda>c.
     if cl_state c \<noteq> zombie_state then upd_client p f s else Inr s)"

definition engine_set_next_event :: "client_ptr \<Rightarrow> event_t \<Rightarrow> server \<Rightarrow> fault + server" where
  "engine_set_next_event p e = on_valid_client p (\<lambda>c. c\<lparr>cl_next_event := e\<rparr>)"

definition engine_set_exception :: "client_ptr \<Rightarrow> event_t \<Rightarrow> server \<Rightarrow> fault + server" where
  "engine_set_exception p e = on_valid_client p (\<lambda>c. c\<lparr>cl_exception := e\<rparr>)"

definition engine_set_wakeup_event :: "client_ptr \<Rightarrow> event_t \<Rightarrow> server \<Rightarrow> fault + server" where
  "engine_set_wakeup_event p e = on_valid_client p (\<lambda>c. c\<lparr>cl_wakeup := True, cl_wakeup_event := e\<rparr>)"

definition engine_client_get :: "client_ptr \<Rightarrow> server \<Rightarrow> fault + server" where
  "engine_client_get p = upd_client p (\<lambda>c. c\<lparr>cl_refcount := cl_refcount c + 1\<rparr>)"

lemmas client_access = get_client_def upd_client_def on_valid_client_def

end
