(* ===== verification/ServerActions.thy ===== *)
theory ServerActions
  imports ServerState
begin

text \<open>
  The actions of the server state machine (\<open>src/tpq_server.cpp\<close>): they fill in the shared
  codec \<open>message\<close> and choose the next event of the client.
\<close>

section \<open>Actions\<close>

definition server_initialize :: "server \<Rightarrow> server" where
  "server_initialize s = s\<lparr>own_detmask := 0xffffffffffffffff, iq_lwm := 100000000, iq_hwm := 200000000,
     iq := [], pending := [], first_seen := 0, count_check := Map.empty, ingest := False\<rparr>"

text \<open>
  \<open>set_payload\<close>: the payloads whose interval meets the one in the shared message, each once,
  in the order of their start times. (\<open>std::sort\<close> may order equal start times otherwise.)
\<close>

definition ordered_payloads :: "imset \<Rightarrow> payload_t list \<Rightarrow> payload_t list" where
  "ordered_payloads unique ps = sort_key pl_tstart (map (\<lambda>i. ps ! i) (sorted_list_of_fset unique))"

definition set_payload :: "extern \<Rightarrow> server \<Rightarrow> server" where
  "set_payload x s =
     (let tbeg = tstart (message s);
          tend = tspan (message s) + tbeg;
          want = right_open (to_i64 tbeg) (to_i64 tend);
          got = immap_and (iq s) want;
          ordered = ordered_payloads (unique_payloads got) (payloads s);
          plmsg = map (payload_encode x) ordered
      in s\<lparr>message := tpq_codec_set_payload (message s) (Some plmsg)\<rparr>)"

definition TPQ_CODEC_SUCCESS :: u16 where "TPQ_CODEC_SUCCESS = 200"
definition TPQ_CODEC_PARTIAL_CONTENT :: u16 where "TPQ_CODEC_PARTIAL_CONTENT = 206"
definition TPQ_CODEC_NOT_FOUND :: u16 where "TPQ_CODEC_NOT_FOUND = 404"
definition TPQ_CODEC_COMMAND_INVALID :: u16 where "TPQ_CODEC_COMMAND_INVALID = 500"
definition TPQ_CODEC_INTERNAL_ERROR :: u16 where "TPQ_CODEC_INTERNAL_ERROR = 502"

lemmas codec_statuses = TPQ_CODEC_SUCCESS_def TPQ_CODEC_PARTIAL_CONTENT_def TPQ_CODEC_NOT_FOUND_def
  TPQ_CODEC_COMMAND_INVALID_def TPQ_CODEC_INTERNAL_ERROR_def

text \<open>
  In \<open>handle_query\<close> the test \<open>! want_detmask & detmask\<close> parses as
  \<open>(! want_detmask) & detmask\<close>, the logical negation (0 or 1) combined with the server's mask.
\<close>

definition query_is_bogus :: "u64 \<Rightarrow> u64 \<Rightarrow> bool" where
  "query_is_bogus want own \<longleftrightarrow> (if want = 0 then 1 else 0) AND own \<noteq> 0"

definition set_status_and_next :: "client_ptr \<Rightarrow> u16 \<Rightarrow> event_t \<Rightarrow> server \<Rightarrow> fault + server" where
  "set_status_and_next p st e s =
     engine_set_next_event p e (s\<lparr>message := tpq_codec_set_status (message s) st\<rparr>)"

definition handle_query :: "client_ptr \<Rightarrow> server \<Rightarrow> fault + server" where
  "handle_query p s =
     (let sn = seqno (message s);
          want_detmask = detmask (message s)
      in if query_is_bogus want_detmask (own_detmask s)
         then engine_set_next_event p query_is_bogus_event s
         else let query_beg = to_i64 (tstart (message s));
                  query_end = to_i64 (tspan (message s) + of_i64 query_beg);
                  queue_beg = lower_map (iq s);
                  queue_end = upper_map (iq s)
              in if query_end \<le> queue_beg
                 then engine_set_next_event p query_is_fully_late_event s
                 else if query_end \<le> queue_end
                 then (if query_beg < queue_beg
                       then set_status_and_next p TPQ_CODEC_PARTIAL_CONTENT query_is_partly_late_event s
                       else set_status_and_next p TPQ_CODEC_SUCCESS query_is_satisfied_event s)
                 else Inr (s\<lparr>pending := push_request query_end
                        \<lparr>rq_client = p, rq_detmask = want_detmask, rq_tstart = query_beg, rq_seqno = sn\<rparr>
                        (pending s)\<rparr>))"

definition set_not_found :: "server \<Rightarrow> server" where
  "set_not_found s = s\<lparr>message := tpq_codec_set_status (tpq_codec_set_payload (message s) (Some []))
     TPQ_CODEC_NOT_FOUND\<rparr>"

definition set_command_invalid :: "server \<Rightarrow> server" where
  "set_command_invalid s = s\<lparr>message := tpq_codec_set_status (tpq_codec_set_payload (message s) (Some []))
     TPQ_CODEC_COMMAND_INVALID\<rparr>"

definition set_coverage :: "server \<Rightarrow> server" where
  "set_coverage s = s\<lparr>message := tpq_codec_set_detmask (message s) (own_detmask s)\<rparr>"

end
