(* ===== verification/ServerEngine.thy ===== *)
theory ServerEngine
  imports ServerActions
begin

text \<open>
  The server engine (\<open>src/tpq_server_engine.inc\<close>): the state machine of a client, one
  function per state, the loop that runs it as long as there are events, the life cycle of
  clients, and the handler of the router socket. The execution of one event ends because
  only \<open>query_event\<close> leads to another event, which leads to none.
\<close>

section \<open>Sending and terminating\<close>

definition s_protocol_event :: "tpq_codec \<Rightarrow> event_t" where
  "s_protocol_event m =
     (if codec_id m = TPQ_CODEC_HELLO then hello_event
      else if codec_id m = TPQ_CODEC_QUERY then query_event
      else if codec_id m = TPQ_CODEC_PING then ping_event
      else if codec_id m = TPQ_CODEC_GOODBYE then goodbye_event
      else terminate_event)"

text \<open>The three statements of every send action: set the id and routing id, send on the router.\<close>

definition engine_send :: "client_ptr \<Rightarrow> int \<Rightarrow> server \<Rightarrow> fault + server" where
  "engine_send p i s = bind_fault (get_client p s) (\<lambda>c.
     let m = tpq_codec_set_routing_id (tpq_codec_set_id (message s) i) (Some (cl_routing_id c))
     in Inr (s\<lparr>message := m, router := snd (tpq_codec_send m (router s))\<rparr>))"

definition engine_terminate :: "client_ptr \<Rightarrow> server \<Rightarrow> fault + server" where
  "engine_terminate p = upd_client p (\<lambda>c. c\<lparr>cl_next_event := terminate_event\<rparr>)"

text \<open>Every action is guarded by \<open>if (!self->exception)\<close>.\<close>

definition guarded :: "client_ptr \<Rightarrow> (server \<Rightarrow> fault + server) \<Rightarrow> server \<Rightarrow> fault + server" where
  "guarded p act s = bind_fault (get_client p s) (\<lambda>c. if cl_exception c = NULL_event then act s else Inr s)"

definition seq_act :: "(server \<Rightarrow> fault + server) \<Rightarrow> (server \<Rightarrow> fault + server) \<Rightarrow> server \<Rightarrow> fault + server" where
  "seq_act f g s = bind_fault (f s) g"

text \<open>Branches that every state has.\<close>

definition on_ping :: "client_ptr \<Rightarrow> server \<Rightarrow> fault + server" where
  "on_ping p = guarded p (engine_send p TPQ_CODEC_PONG)"

definition on_goodbye :: "client_ptr \<Rightarrow> server \<Rightarrow> fault + server" where
  "on_goodbye p = seq_act (guarded p (engine_send p TPQ_CODEC_GOODBYE_OK)) (guarded p (engine_terminate p))"

definition on_expired :: "client_ptr \<Rightarrow> server \<Rightarrow> fault + server" where
  "on_expired p = guarded p (engine_terminate p)"

definition on_exception :: "client_ptr \<Rightarrow> server \<Rightarrow> fault + server" where
  "on_exception p = seq_act (guarded p (engine_send p TPQ_CODEC_ERROR)) (guarded p (engine_terminate p))"

definition on_unexpected :: "client_ptr \<Rightarrow> server \<Rightarrow> fault + server" where
  "on_unexpected p = seq_act (guarded p (\<lambda>s. Inr (set_command_invalid s)))
     (seq_act (guarded p (engine_send p TPQ_CODEC_ERROR)) (guarded p (engine_terminate p)))"

section \<open>The states\<close>

definition start_step :: "client_ptr \<Rightarrow> event_t \<Rightarrow> server \<Rightarrow> fault + server" where
  "start_step p e =
     (if e = hello_event then
        seq_act (guarded p (\<lambda>s. Inr (set_coverage s)))
        (seq_act (guarded p (engine_send p TPQ_CODEC_COVERAGE))
                 (guarded p (upd_client p (\<lambda>c. c\<lparr>cl_state := connected_state\<rparr>))))
      else if e = ping_event then on_ping p
      else if e = goodbye_event then on_goodbye p
      else if e = expired_event then on_expired p
      else if e = exception_event then on_exception p
      else on_unexpected p)"

definition on_result :: "client_ptr \<Rightarrow> (server \<Rightarrow> server) \<Rightarrow> server \<Rightarrow> fault + server" where
  "on_result p fill = seq_act (guarded p (\<lambda>s. Inr (fill s))) (guarded p (engine_send p TPQ_CODEC_RESULT))"

definition on_bogus :: "client_ptr \<Rightarrow> server \<Rightarrow> fault + server" where
  "on_bogus p = seq_act (guarded p (\<lambda>s. Inr (set_command_invalid s))) (guarded p (engine_send p TPQ_CODEC_ERROR))"

definition connected_step :: "extern \<Rightarrow> client_ptr \<Rightarrow> event_t \<Rightarrow> server \<Rightarrow> fault + server" where
  "connected_step x p e =
     (if e = query_event then guarded p (handle_query p)
      else if e = query_is_fully_late_event then on_result p set_not_found
      else if e = query_is_partly_late_event then on_result p (set_payload x)
      else if e = query_is_satisfied_event then on_result p (set_payload x)
      else if e = query_is_bogus_event then on_bogus p
      else if e = ping_event then on_ping p
      else if e = goodbye_event then on_goodbye p
      else if e = expired_event then on_expired p
      else if e = exception_event then on_exception p
      else on_unexpected p)"

definition defaults_step :: "client_ptr \<Rightarrow> event_t \<Rightarrow> server \<Rightarrow> fault + server" where
  "defaults_step p e =
     (if e = ping_event then on_ping p
      else if e = goodbye_event then on_goodbye p
      else if e = expired_event then on_expired p
      else if e = exception_event then on_exception p
      else on_unexpected p)"

definition state_step :: "extern \<Rightarrow> client_ptr \<Rightarrow> state_t \<Rightarrow> event_t \<Rightarrow> server \<Rightarrow> fault + server" where
  "state_step x p st e =
     (case st of start_state \<Rightarrow> start_step p e | connected_state \<Rightarrow> connected_step x p e
      | defaults_state \<Rightarrow> defaults_step p e | zombie_state \<Rightarrow> Inr)"

section \<open>Client life cycle\<close>

definition s_client_new :: "extern \<Rightarrow> frame \<Rightarrow> server \<Rightarrow> client_ptr \<times> server" where
  "s_client_new x rid s =
     (let p = next_ptr s;
          c = \<lparr>cl_refcount = 0, cl_hashkey = strhex x rid, cl_routing_id = rid, cl_unique_id = client_id s,
               cl_state = start_state, cl_event = NULL_event, cl_next_event = NULL_event,
               cl_exception = NULL_event, cl_wakeup = False, cl_ticket = (srv_timeout s \<noteq> 0),
               cl_wakeup_event = NULL_event\<rparr>
      in (p, s\<lparr>heap := (heap s)(p \<mapsto> c), next_ptr := p + 1, client_id := client_id s + 1\<rparr>))"

definition s_client_finalize :: "client_ptr \<Rightarrow> server \<Rightarrow> server" where
  "s_client_finalize p s = s\<lparr>heap := (heap s)(p := None)\<rparr>"

text \<open>\<open>zhash_insert\<close> keeps an item that is already there.\<close>

definition zhash_insert :: "string \<Rightarrow> client_ptr \<Rightarrow> (string \<rightharpoonup> client_ptr) \<Rightarrow> (string \<rightharpoonup> client_ptr)" where
  "zhash_insert k p t = (case t k of None \<Rightarrow> t(k \<mapsto> p) | Some _ \<Rightarrow> t)"

definition s_client_destroy :: "client_ptr \<Rightarrow> server \<Rightarrow> fault + server" where
  "s_client_destroy p s = bind_fault (get_client p s) (\<lambda>c.
     if cl_refcount c = 0 then Inr (s_client_finalize p s)
     else upd_client p (\<lambda>c. c\<lparr>cl_wakeup := False, cl_ticket := False, cl_state := zombie_state\<rparr>)
            (s\<lparr>zombies := zhash_insert (cl_hashkey c) p (zombies s)\<rparr>))"

definition engine_client_put :: "client_ptr \<Rightarrow> server \<Rightarrow> fault + server" where
  "engine_client_put p s =
     bind_fault (upd_client p (\<lambda>c. c\<lparr>cl_refcount := cl_refcount c - 1\<rparr>) s) (\<lambda>s.
     bind_fault (get_client p s) (\<lambda>c.
       if cl_refcount c = 0 \<and> cl_state c = zombie_state
       then Inr (s_client_finalize p (s\<lparr>zombies := (zombies s)(cl_hashkey c := None)\<rparr>))
       else Inr s))"

text \<open>\<open>zhash_delete\<close> on the clients: the free function of the table destroys the item.\<close>

definition clients_delete :: "string \<Rightarrow> server \<Rightarrow> fault + server" where
  "clients_delete k s = (case clients s k of None \<Rightarrow> Inr s
     | Some p \<Rightarrow> s_client_destroy p (s\<lparr>clients := (clients s)(k := None)\<rparr>))"

section \<open>Executing events\<close>

text \<open>One pass of the loop; the flag tells whether it goes on.\<close>

definition client_iteration :: "extern \<Rightarrow> client_ptr \<Rightarrow> server \<Rightarrow> fault + server \<times> bool" where
  "client_iteration x p s = bind_fault (get_client p s) (\<lambda>c.
     let e = cl_next_event c in
     bind_fault (upd_client p (\<lambda>c. c\<lparr>cl_event := e, cl_next_event := NULL_event, cl_exception := NULL_event\<rparr>) s) (\<lambda>s.
     if cl_state c = zombie_state then Inr (s, False)
     else bind_fault (state_step x p (cl_state c) e s) (\<lambda>s.
          bind_fault (upd_client p (\<lambda>c. if cl_exception c \<noteq> NULL_event
                                      then c\<lparr>cl_next_event := cl_exception c\<rparr> else c) s) (\<lambda>s.
          bind_fault (get_client p s) (\<lambda>c.
            if cl_next_event c = terminate_event
            then bind_fault (clients_delete (cl_hashkey c) s) (\<lambda>s. Inr (s, False))
            else Inr (s, True))))))"

definition next_of :: "client_ptr \<Rightarrow> server \<Rightarrow> event_t" where
  "next_of p s = (case heap s p of None \<Rightarrow> NULL_event | Some c \<Rightarrow> cl_next_event c)"

definition event_rank :: "event_t \<Rightarrow> nat" where
  "event_rank e = (if e = NULL_event then 0 else if e = query_event then 2 else 1)"

end
