(* ===== verification/ServerLoop.thy ===== *)
theory ServerLoop
  imports ServerEngine
begin

text \<open>
  What one pass of the state machine does for a client that exists, the loop
  \<open>s_client_execute\<close> with its termination, the router handler
  \<open>s_server_handle_protocol\<close>, and the invariant of the client table.
\<close>

section \<open>Actions on an existing client\<close>

definition reply :: "s_client \<Rightarrow> int \<Rightarrow> server \<Rightarrow> server" where
  "reply c i s = (let m = (message s)\<lparr>codec_id := i, routing_id := Some (cl_routing_id c)\<rparr>
     in s\<lparr>message := m, router := snd (tpq_codec_send m (router s))\<rparr>)"

definition put_client :: "client_ptr \<Rightarrow> s_client \<Rightarrow> server \<Rightarrow> server" where
  "put_client p c s = s\<lparr>heap := (heap s)(p \<mapsto> c)\<rparr>"

lemma heap_put_client [frame_simps]: "heap (put_client p c s) = (heap s)(p \<mapsto> c)"
  by (simp add: put_client_def)

lemma reply_frame [frame_simps]:
  "heap (reply c i s) = heap s" "clients (reply c i s) = clients s" "zombies (reply c i s) = zombies s"
  "pending (reply c i s) = pending s" "iq (reply c i s) = iq s" "payloads (reply c i s) = payloads s"
  "next_ptr (reply c i s) = next_ptr s" "own_detmask (reply c i s) = own_detmask s"
  "inbound (router (reply c i s)) = inbound (router s)"
  by (simp_all add: reply_def Let_def send_inbound)

lemma put_client_frame [frame_simps]:
  "clients (put_client p c s) = clients s" "zombies (put_client p c s) = zombies s"
  "pending (put_client p c s) = pending s" "iq (put_client p c s) = iq s" "payloads (put_client p c s) = payloads s"
  "next_ptr (put_client p c s) = next_ptr s" "own_detmask (put_client p c s) = own_detmask s"
  "router (put_client p c s) = router s" "message (put_client p c s) = message s"
  by (simp_all add: put_client_def)

lemma put_client_twice [simp]: "put_client p c (put_client p d s) = put_client p c s"
  by (simp add: put_client_def)

lemma guarded_run [frame_simps]:
  "heap s p = Some c \<Longrightarrow> cl_exception c = NULL_event \<Longrightarrow> guarded p act s = act s"
  by (simp add: guarded_def get_client_def)

lemma engine_send_run [frame_simps]: "heap s p = Some c \<Longrightarrow> engine_send p i s = Inr (reply c i s)"
  by (simp add: engine_send_def get_client_def reply_def codec_setters Let_def)

lemma upd_client_run [frame_simps]: "heap s p = Some c \<Longrightarrow> upd_client p f s = Inr (put_client p (f c) s)"
  by (simp add: upd_client_def get_client_def put_client_def)

lemma set_next_run [frame_simps]:
  "heap s p = Some c \<Longrightarrow> cl_state c \<noteq> zombie_state \<Longrightarrow>
     engine_set_next_event p e s = Inr (put_client p (c\<lparr>cl_next_event := e\<rparr>) s)"
  by (simp add: engine_set_next_event_def on_valid_client_def get_client_def upd_client_def put_client_def)

lemma actions_frame [frame_simps]:
  "heap (set_payload x s) = heap s" "heap (set_not_found s) = heap s"
  "heap (set_command_invalid s) = heap s" "heap (set_coverage s) = heap s"
  "clients (set_payload x s) = clients s" "clients (set_not_found s) = clients s"
  "clients (set_command_invalid s) = clients s" "clients (set_coverage s) = clients s"
  "zombies (set_payload x s) = zombies s" "zombies (set_not_found s) = zombies s"
  "zombies (set_command_invalid s) = zombies s" "zombies (set_coverage s) = zombies s"
  "next_ptr (set_payload x s) = next_ptr s" "next_ptr (set_not_found s) = next_ptr s"
  "next_ptr (set_command_invalid s) = next_ptr s" "next_ptr (set_coverage s) = next_ptr s"
  "router (set_payload x s) = router s" "router (set_not_found s) = router s"
  "router (set_command_invalid s) = router s" "router (set_coverage s) = router s"
  "pending (set_payload x s) = pending s" "pending (set_not_found s) = pending s"
  "pending (set_command_invalid s) = pending s" "pending (set_coverage s) = pending s"
  "iq (set_payload x s) = iq s" "iq (set_not_found s) = iq s"
  "iq (set_command_invalid s) = iq s" "iq (set_coverage s) = iq s"
  "payloads (set_payload x s) = payloads s" "payloads (set_not_found s) = payloads s"
  "payloads (set_command_invalid s) = payloads s" "payloads (set_coverage s) = payloads s"
  by (simp_all add: set_payload_def set_not_found_def set_command_invalid_def set_coverage_def Let_def)

lemma seq_act_run [frame_simps]: "f s = Inr s' \<Longrightarrow> seq_act f g s = g s'"
  by (simp add: seq_act_def)

lemma branches_run:
  assumes "heap s p = Some c" "cl_exception c = NULL_event"
  shows "on_ping p s = Inr (reply c TPQ_CODEC_PONG s)"
    "on_goodbye p s = Inr (put_client p (c\<lparr>cl_next_event := terminate_event\<rparr>) (reply c TPQ_CODEC_GOODBYE_OK s))"
    "on_expired p s = Inr (put_client p (c\<lparr>cl_next_event := terminate_event\<rparr>) s)"
    "on_exception p s = Inr (put_client p (c\<lparr>cl_next_event := terminate_event\<rparr>) (reply c TPQ_CODEC_ERROR s))"
    "on_unexpected p s = Inr (put_client p (c\<lparr>cl_next_event := terminate_event\<rparr>)
       (reply c TPQ_CODEC_ERROR (set_command_invalid s)))"
    "on_bogus p s = Inr (reply c TPQ_CODEC_ERROR (set_command_invalid s))"
    "on_result p set_not_found s = Inr (reply c TPQ_CODEC_RESULT (set_not_found s))"
    "on_result p (set_payload x) s = Inr (reply c TPQ_CODEC_RESULT (set_payload x s))"
  using assms
  by (simp_all add: on_ping_def on_goodbye_def on_expired_def on_exception_def on_unexpected_def on_bogus_def
      on_result_def engine_terminate_def frame_simps)

lemma start_hello_run:
  assumes "heap s p = Some c" "cl_exception c = NULL_event"
  shows "start_step p hello_event s =
    Inr (put_client p (c\<lparr>cl_state := connected_state\<rparr>) (reply c TPQ_CODEC_COVERAGE (set_coverage s)))"
  using assms by (simp add: start_step_def frame_simps)

section \<open>Verdict on a query\<close>

text \<open>The branch \<open>handle_query\<close> takes, with the bounds of the query and of the queue.\<close>

datatype verdict = Bogus | Late | Partial | Satisfied | Waiting

definition query_beg :: "tpq_codec \<Rightarrow> int" where
  "query_beg m = to_i64 (tstart m)"

definition query_end :: "tpq_codec \<Rightarrow> int" where
  "query_end m = to_i64 (tstart m + tspan m)"

definition verdict :: "tpq_codec \<Rightarrow> server \<Rightarrow> verdict" where
  "verdict m s =
     (if query_is_bogus (detmask m) (own_detmask s) then Bogus
      else if query_end m \<le> lower_map (iq s) then Late
      else if upper_map (iq s) < query_end m then Waiting
      else if query_beg m < lower_map (iq s) then Partial else Satisfied)"

fun verdict_event :: "verdict \<Rightarrow> event_t" where
  "verdict_event Bogus = query_is_bogus_event"
| "verdict_event Late = query_is_fully_late_event"
| "verdict_event Partial = query_is_partly_late_event"
| "verdict_event Satisfied = query_is_satisfied_event"
| "verdict_event Waiting = NULL_event"

definition after_query :: "client_ptr \<Rightarrow> s_client \<Rightarrow> server \<Rightarrow> server" where
  "after_query p c s = (let m = message s in
     case verdict m s of
       Bogus \<Rightarrow> put_client p (c\<lparr>cl_next_event := query_is_bogus_event\<rparr>) s
     | Late \<Rightarrow> put_client p (c\<lparr>cl_next_event := query_is_fully_late_event\<rparr>) s
     | Partial \<Rightarrow> put_client p (c\<lparr>cl_next_event := query_is_partly_late_event\<rparr>) (s\<lparr>message := m\<lparr>status := 206\<rparr>\<rparr>)
     | Satisfied \<Rightarrow> put_client p (c\<lparr>cl_next_event := query_is_satisfied_event\<rparr>) (s\<lparr>message := m\<lparr>status := 200\<rparr>\<rparr>)
     | Waiting \<Rightarrow> s\<lparr>pending := push_request (query_end m)
         \<lparr>rq_client = p, rq_detmask = detmask m, rq_tstart = query_beg m, rq_seqno = seqno m\<rparr> (pending s)\<rparr>)"

lemma handle_query_run:
  assumes "heap s p = Some c" "cl_state c \<noteq> zombie_state"
  shows "handle_query p s = Inr (after_query p c s)"
proof -
  have e: "to_i64 (tspan (message s) + of_i64 (query_beg (message s))) = query_end (message s)"
    by (simp add: query_end_def query_beg_def add.commute)
  have h: "heap (s\<lparr>message := m\<rparr>) p = Some c" for m using assms by simp
  show ?thesis
    using assms set_next_run [OF h assms(2)]
    by (simp add: handle_query_def after_query_def verdict_def e query_beg_def [symmetric] Let_def frame_simps
        set_status_and_next_def codec_setters codec_statuses)
qed

section \<open>One pass\<close>

definition react :: "extern \<Rightarrow> client_ptr \<Rightarrow> s_client \<Rightarrow> server \<Rightarrow> server" where
  "react x p c s =
     (let stop = (\<lambda>s. put_client p (c\<lparr>cl_next_event := terminate_event\<rparr>) s);
          e = cl_event c;
          common = (if e = ping_event then reply c TPQ_CODEC_PONG s
            else if e = goodbye_event then stop (reply c TPQ_CODEC_GOODBYE_OK s)
            else if e = expired_event then stop s
            else if e = exception_event then stop (reply c TPQ_CODEC_ERROR s)
            else stop (reply c TPQ_CODEC_ERROR (set_command_invalid s)))
      in case cl_state c of
           start_state \<Rightarrow> if e = hello_event
             then put_client p (c\<lparr>cl_state := connected_state\<rparr>) (reply c TPQ_CODEC_COVERAGE (set_coverage s))
             else common
         | connected_state \<Rightarrow>
             if e = query_event then after_query p c s
             else if e = query_is_fully_late_event then reply c TPQ_CODEC_RESULT (set_not_found s)
             else if e = query_is_partly_late_event \<or> e = query_is_satisfied_event
             then reply c TPQ_CODEC_RESULT (set_payload x s)
             else if e = query_is_bogus_event then reply c TPQ_CODEC_ERROR (set_command_invalid s)
             else common
         | _ \<Rightarrow> common)"

lemma state_step_run:
  assumes "heap s p = Some c" "cl_exception c = NULL_event" "cl_state c \<noteq> zombie_state"
  shows "state_step x p (cl_state c) (cl_event c) s = Inr (react x p c s)"
proof (cases "cl_state c")
  case start_state
  then show ?thesis using branches_run [OF assms(1,2)] start_hello_run [OF assms(1,2)]
    by (simp add: state_step_def react_def start_step_def Let_def)
next
  case connected_state
  then show ?thesis using branches_run [OF assms(1,2)] handle_query_run [OF assms(1,3)] assms
    by (simp add: state_step_def react_def connected_step_def Let_def guarded_run)
next
  case defaults_state
  then show ?thesis using branches_run [OF assms(1,2)]
    by (simp add: state_step_def react_def defaults_step_def Let_def)
qed (use assms in simp)

text \<open>The client after a pass keeps its identity; only state and next event may change.\<close>

lemma after_query_client:
  "heap s p = Some c \<Longrightarrow> heap (after_query p c s) =
     (heap s)(p \<mapsto> c\<lparr>cl_next_event := if verdict (message s) s = Waiting then cl_next_event c
                                     else verdict_event (verdict (message s) s)\<rparr>)"
  by (cases "verdict (message s) s") (auto simp: after_query_def Let_def frame_simps)

lemma react_client:
  assumes "heap s p = Some c" "cl_next_event c = NULL_event"
  shows "\<exists>st n. heap (react x p c s) = (heap s)(p \<mapsto> c\<lparr>cl_state := st, cl_next_event := n\<rparr>) \<and>
    (st = zombie_state \<longrightarrow> cl_state c = zombie_state) \<and>
    (n = NULL_event \<or> n = terminate_event \<or> (cl_event c = query_event \<and> event_rank n = 1))"
proof -
  have same: "c = c\<lparr>cl_state := cl_state c, cl_next_event := NULL_event\<rparr>" using assms(2) by simp
  have t: "c\<lparr>cl_next_event := terminate_event\<rparr> = c\<lparr>cl_state := cl_state c, cl_next_event := terminate_event\<rparr>" by simp
  have k: "c\<lparr>cl_state := connected_state\<rparr> = c\<lparr>cl_state := connected_state, cl_next_event := NULL_event\<rparr>"
    using assms(2) by simp
  have q: "c\<lparr>cl_next_event := n\<rparr> = c\<lparr>cl_state := cl_state c, cl_next_event := n\<rparr>" for n by simp
  have r: "event_rank (verdict_event v) \<le> 1" for v by (cases v) (simp_all add: event_rank_def)
  have h: "heap s = (heap s)(p \<mapsto> c\<lparr>cl_state := cl_state c, cl_next_event := NULL_event\<rparr>)"
    using assms(1) same by (metis fun_upd_triv)
  have "heap (react x p c s) = heap s \<or>
      heap (react x p c s) = (heap s)(p \<mapsto> c\<lparr>cl_next_event := terminate_event\<rparr>) \<or>
      heap (react x p c s) = (heap s)(p \<mapsto> c\<lparr>cl_state := connected_state\<rparr>) \<or>
      (cl_event c = query_event \<and> react x p c s = after_query p c s)"
    by (cases "cl_state c") (simp_all add: react_def Let_def frame_simps)
  then consider (null) "heap (react x p c s) = heap s"
    | (stop) "heap (react x p c s) = (heap s)(p \<mapsto> c\<lparr>cl_next_event := terminate_event\<rparr>)"
    | (hello) "heap (react x p c s) = (heap s)(p \<mapsto> c\<lparr>cl_state := connected_state\<rparr>)"
    | (query) "cl_event c = query_event" "react x p c s = after_query p c s"
    by blast
  then show ?thesis
  proof cases
    case null
    then show ?thesis using h by (intro exI [of _ "cl_state c"] exI [of _ NULL_event]) auto
  next
    case stop
    then show ?thesis by (intro exI [of _ "cl_state c"] exI [of _ terminate_event]) (simp add: t [symmetric])
  next
    case hello
    then show ?thesis by (intro exI [of _ connected_state] exI [of _ NULL_event]) (simp add: k [symmetric])
  next
    case query
    let ?v = "verdict (message s) s"
    let ?n = "if ?v = Waiting then cl_next_event c else verdict_event ?v"
    have "?n = NULL_event \<or> event_rank ?n = 1"
      using assms(2) by (cases ?v) (simp_all add: event_rank_def)
    then show ?thesis using query after_query_client [OF assms(1)]
      by (intro exI [of _ "cl_state c"] exI [of _ ?n]) (auto simp: q [symmetric] split: if_splits)
  qed
qed

lemma react_frame [frame_simps]:
  "clients (react x p c s) = clients s" "zombies (react x p c s) = zombies s" "next_ptr (react x p c s) = next_ptr s"
  "iq (react x p c s) = iq s" "payloads (react x p c s) = payloads s"
  "inbound (router (react x p c s)) = inbound (router s)"
  by (cases "cl_state c"; cases "verdict (message s) s";
      simp add: react_def Let_def frame_simps after_query_def)+

definition begin_event :: "s_client \<Rightarrow> s_client" where
  "begin_event c = c\<lparr>cl_event := cl_next_event c, cl_next_event := NULL_event, cl_exception := NULL_event\<rparr>"

lemma begin_event_simps [simp]:
  "cl_event (begin_event c) = cl_next_event c" "cl_next_event (begin_event c) = NULL_event"
  "cl_exception (begin_event c) = NULL_event" "cl_state (begin_event c) = cl_state c"
  "cl_hashkey (begin_event c) = cl_hashkey c" "cl_refcount (begin_event c) = cl_refcount c"
  "cl_routing_id (begin_event c) = cl_routing_id c"
  by (simp_all add: begin_event_def)

lemma put_client_same: "heap s p = Some c \<Longrightarrow> put_client p c s = s"
  by (simp add: put_client_def fun_upd_idem)

definition pass :: "extern \<Rightarrow> client_ptr \<Rightarrow> s_client \<Rightarrow> server \<Rightarrow> server" where
  "pass x p c s = react x p (begin_event c) (put_client p (begin_event c) s)"

lemma pass_client:
  obtains st n where "heap (pass x p c s) = (heap s)(p \<mapsto> (begin_event c)\<lparr>cl_state := st, cl_next_event := n\<rparr>)"
    "st = zombie_state \<longrightarrow> cl_state c = zombie_state"
    "n = NULL_event \<or> n = terminate_event \<or> (cl_next_event c = query_event \<and> event_rank n = 1)"
  using react_client [of "put_client p (begin_event c) s" p "begin_event c" x]
  by (auto simp: pass_def frame_simps)

lemma pass_frame [frame_simps]:
  "clients (pass x p c s) = clients s" "zombies (pass x p c s) = zombies s" "next_ptr (pass x p c s) = next_ptr s"
  "iq (pass x p c s) = iq s" "payloads (pass x p c s) = payloads s"
  "inbound (router (pass x p c s)) = inbound (router s)"
  by (simp_all add: pass_def frame_simps)

lemma client_iteration_run:
  assumes "heap s p = Some c" "cl_state c \<noteq> zombie_state"
  shows "client_iteration x p s =
    (if next_of p (pass x p c s) = terminate_event
     then bind_fault (clients_delete (cl_hashkey c) (pass x p c s)) (\<lambda>s. Inr (s, False))
     else Inr (pass x p c s, True))"
proof -
  obtain st n where h: "heap (pass x p c s) p = Some ((begin_event c)\<lparr>cl_state := st, cl_next_event := n\<rparr>)"
    using pass_client [of x p c s] by (metis fun_upd_same)
  have "state_step x p (cl_state c) (cl_next_event c) (put_client p (begin_event c) s) = Inr (pass x p c s)"
    using state_step_run [of "put_client p (begin_event c) s" p "begin_event c" x] assms(2)
    by (simp add: pass_def frame_simps)
  then show ?thesis using assms h
    by (simp add: client_iteration_def get_client_def Let_def begin_event_def [symmetric]
        next_of_def upd_client_run put_client_same)
qed

lemma client_iteration_rank:
  assumes "client_iteration x p s = Inr (s', True)" "next_of p s \<noteq> NULL_event"
  shows "event_rank (next_of p s') < event_rank (next_of p s)"
proof (cases "heap s p")
  case None
  then show ?thesis using assms by (simp add: next_of_def)
next
  case (Some c)
  show ?thesis
  proof (cases "cl_state c = zombie_state")
    case True
    then show ?thesis using assms Some
      by (simp add: client_iteration_def get_client_def Let_def upd_client_run)
  next
    case False
    obtain st n where h: "heap (pass x p c s) = (heap s)(p \<mapsto> (begin_event c)\<lparr>cl_state := st, cl_next_event := n\<rparr>)"
      "n = NULL_event \<or> n = terminate_event \<or> (cl_next_event c = query_event \<and> event_rank n = 1)"
      by (rule pass_client [of x p c s])
    have nx: "next_of p (pass x p c s) = n" using h(1) by (simp add: next_of_def)
    have "s' = pass x p c s" "n \<noteq> terminate_event"
      using assms(1) nx unfolding client_iteration_run [OF Some False]
      by (auto simp: bind_fault_Inr_iff split: if_splits)
    then show ?thesis using h(2) nx assms(2) Some by (auto simp: next_of_def event_rank_def split: if_splits)
  qed
qed

section \<open>The loop\<close>

function client_loop :: "extern \<Rightarrow> client_ptr \<Rightarrow> server \<Rightarrow> fault + server" where
  "client_loop x p s = bind_fault (get_client p s) (\<lambda>c.
     if cl_next_event c = NULL_event then Inr s
     else bind_fault (client_iteration x p s) (\<lambda>(s', continue).
            if continue then client_loop x p s' else Inr s'))"
  by pat_completeness auto

termination
  by (relation "measure (\<lambda>(x, p, s). event_rank (next_of p s))")
     (auto simp: get_client_def split: option.splits intro!: client_iteration_rank,
      auto simp: next_of_def)

declare client_loop.simps [simp del]

definition s_client_execute :: "extern \<Rightarrow> client_ptr \<Rightarrow> event_t \<Rightarrow> server \<Rightarrow> fault + server" where
  "s_client_execute x p e s =
     bind_fault (upd_client p (\<lambda>c. c\<lparr>cl_next_event := e, cl_wakeup := False\<rparr>) s) (client_loop x p)"

definition engine_send_event :: "extern \<Rightarrow> client_ptr \<Rightarrow> event_t \<Rightarrow> server \<Rightarrow> fault + server" where
  "engine_send_event x p e s = bind_fault (get_client p s) (\<lambda>c.
     if cl_state c \<noteq> zombie_state then s_client_execute x p e s else Inr s)"

definition s_client_handle_ticket :: "extern \<Rightarrow> client_ptr \<Rightarrow> server \<Rightarrow> fault + server" where
  "s_client_handle_ticket x p s =
     bind_fault (upd_client p (\<lambda>c. c\<lparr>cl_ticket := False\<rparr>) s) (s_client_execute x p expired_event)"

definition s_client_handle_wakeup :: "extern \<Rightarrow> client_ptr \<Rightarrow> server \<Rightarrow> fault + server" where
  "s_client_handle_wakeup x p s =
     bind_fault (get_client p s) (\<lambda>c. s_client_execute x p (cl_wakeup_event c) s)"

end
