(* ===== verification/ServerClients.thy ===== *)
theory ServerClients
  imports ServerLoop
begin

text \<open>
  The invariant of the client table, the totality of \<open>s_client_execute\<close> under it, and what
  the server answers to each event: the frames it puts on the router and the client that is
  left.
\<close>

section \<open>Invariant of the client table\<close>

text \<open>
  The table and the heap agree: every key leads to the living client with that key, every
  living client is in the table under its own key, none is a zombie or counted, and
  addresses not handed out yet are free.
\<close>

definition table_inv :: "server \<Rightarrow> bool" where
  "table_inv s \<longleftrightarrow>
     (\<forall>k p. clients s k = Some p \<longrightarrow> (\<exists>c. heap s p = Some c \<and> cl_hashkey c = k)) \<and>
     (\<forall>p c. heap s p = Some c \<longrightarrow> clients s (cl_hashkey c) = Some p \<and> cl_state c \<noteq> zombie_state \<and>
        cl_refcount c = 0 \<and> p < next_ptr s)"

text \<open>Between executions no client has a next event; during one, only the client executed.\<close>

definition client_inv :: "server \<Rightarrow> bool" where
  "client_inv s \<longleftrightarrow> table_inv s \<and> (\<forall>p. next_of p s = NULL_event)"

definition client_inv_at :: "client_ptr \<Rightarrow> server \<Rightarrow> bool" where
  "client_inv_at q s \<longleftrightarrow> table_inv s \<and> (\<forall>p. p \<noteq> q \<longrightarrow> next_of p s = NULL_event)"

lemma client_inv_at_iff:
  "client_inv s \<longleftrightarrow> client_inv_at p s \<and> next_of p s = NULL_event"
  unfolding client_inv_def client_inv_at_def by metis

lemma table_invD:
  "table_inv s \<Longrightarrow> heap s p = Some c \<Longrightarrow>
     clients s (cl_hashkey c) = Some p \<and> cl_state c \<noteq> zombie_state \<and> cl_refcount c = 0 \<and> p < next_ptr s"
  "table_inv s \<Longrightarrow> clients s k = Some q \<Longrightarrow> \<exists>d. heap s q = Some d \<and> cl_hashkey d = k"
  by (simp_all add: table_inv_def)

lemma table_inv_put:
  assumes i: "table_inv s" and c: "heap s p = Some c" and h: "heap s' = (heap s)(p \<mapsto> c')"
    and "clients s' = clients s" "next_ptr s' = next_ptr s" "cl_hashkey c' = cl_hashkey c"
    "cl_state c' \<noteq> zombie_state" "cl_refcount c' = cl_refcount c"
  shows "table_inv s'"
proof -
  have "\<exists>d. heap s' q = Some d \<and> cl_hashkey d = k" if "clients s k = Some q" for k q
    using table_invD(2) [OF i that] c h assms(6) by (cases "q = p") auto
  then show ?thesis using assms(4-) table_invD(1) [OF i] c
    unfolding table_inv_def h by (auto simp: fun_upd_apply)
qed

lemma client_inv_at_put:
  assumes "client_inv_at p s" "heap s p = Some c" "heap s' = (heap s)(p \<mapsto> c')" "clients s' = clients s"
    "next_ptr s' = next_ptr s" "cl_hashkey c' = cl_hashkey c" "cl_state c' \<noteq> zombie_state"
    "cl_refcount c' = cl_refcount c"
  shows "client_inv_at p s'"
proof -
  have "next_of q s' = next_of q s" if "q \<noteq> p" for q using that assms(3) by (simp add: next_of_def)
  then show ?thesis using assms table_inv_put [of s p c s' c'] by (simp add: client_inv_at_def)
qed

lemma client_inv_atD:
  "client_inv_at q s \<Longrightarrow> heap s p = Some c \<Longrightarrow>
     clients s (cl_hashkey c) = Some p \<and> cl_state c \<noteq> zombie_state \<and> cl_refcount c = 0 \<and> p < next_ptr s"
  using table_invD(1) [of s p c] by (simp add: client_inv_at_def)

text \<open>Removing a client from the table frees it.\<close>

definition drop_client :: "client_ptr \<Rightarrow> string \<Rightarrow> server \<Rightarrow> server" where
  "drop_client p k s = s\<lparr>clients := (clients s)(k := None), heap := (heap s)(p := None)\<rparr>"

lemma drop_client_frame [frame_simps]:
  "iq (drop_client p k s) = iq s" "payloads (drop_client p k s) = payloads s"
  "pending (drop_client p k s) = pending s" "router (drop_client p k s) = router s"
  "message (drop_client p k s) = message s" "next_ptr (drop_client p k s) = next_ptr s"
  "own_detmask (drop_client p k s) = own_detmask s"
  "heap (drop_client p k s) = (heap s)(p := None)"
  by (simp_all add: drop_client_def)

lemma clients_delete_run:
  assumes "client_inv_at q s" "heap s p = Some c"
  shows "clients_delete (cl_hashkey c) s = Inr (drop_client p (cl_hashkey c) s)"
  using client_inv_atD [OF assms] assms(2)
  by (simp add: clients_delete_def s_client_destroy_def get_client_def s_client_finalize_def drop_client_def)

lemma drop_client_inv:
  assumes "client_inv_at p s" "heap s p = Some c"
  shows "client_inv (drop_client p (cl_hashkey c) s)"
proof -
  have i: "table_inv s" using assms(1) by (simp add: client_inv_at_def)
  have "cl_hashkey d \<noteq> cl_hashkey c" if "q \<noteq> p" "heap s q = Some d" for q d
    using table_invD(1) [OF i that(2)] table_invD(1) [OF i assms(2)] that(1) by auto
  moreover have "q \<noteq> p" if "clients s k = Some q" "k \<noteq> cl_hashkey c" for k q
    using table_invD(2) [OF i that(1)] that(2) assms(2) by auto
  ultimately have "table_inv (drop_client p (cl_hashkey c) s)"
    using i unfolding table_inv_def drop_client_def by (auto simp: fun_upd_apply)
  moreover have "next_of q (drop_client p (cl_hashkey c) s) = NULL_event" for q
    using assms(1) by (auto simp: client_inv_at_def next_of_def drop_client_def)
  ultimately show ?thesis by (simp add: client_inv_def)
qed

section \<open>Executing an event is total\<close>

lemma loop_step:
  assumes "heap s p = Some c" "cl_state c \<noteq> zombie_state" "cl_next_event c \<noteq> NULL_event"
  shows "client_loop x p s = (if next_of p (pass x p c s) = terminate_event
     then clients_delete (cl_hashkey c) (pass x p c s) else client_loop x p (pass x p c s))"
proof -
  have "bind_fault (bind_fault r (\<lambda>s. Inr (s, False))) (\<lambda>(s', go). if go then client_loop x p s' else Inr s') = r"
    for r by (cases r) simp_all
  then show ?thesis using assms
    by (subst client_loop.simps) (simp add: get_client_def client_iteration_run bind_fault_assoc)
qed

lemma loop_done: "heap s p = Some c \<Longrightarrow> cl_next_event c = NULL_event \<Longrightarrow> client_loop x p s = Inr s"
  by (subst client_loop.simps) (simp add: get_client_def)

definition begin_execute :: "client_ptr \<Rightarrow> event_t \<Rightarrow> s_client \<Rightarrow> server \<Rightarrow> server" where
  "begin_execute p e c s = put_client p (c\<lparr>cl_next_event := e, cl_wakeup := False\<rparr>) s"

lemma execute_run:
  "heap s p = Some c \<Longrightarrow> s_client_execute x p e s = client_loop x p (begin_execute p e c s)"
  by (simp add: s_client_execute_def upd_client_run begin_execute_def)

text \<open>
  What an execution leaves: the table invariant; the client either gone or waiting, with the
  same identity; all other clients, the queue, the payloads and the unread parts unchanged.
\<close>

definition executed :: "client_ptr \<Rightarrow> server \<Rightarrow> server \<Rightarrow> bool" where
  "executed p s s' \<longleftrightarrow> client_inv s' \<and> (\<forall>q. q \<noteq> p \<longrightarrow> heap s' q = heap s q) \<and>
     (\<forall>c'. heap s' p = Some c' \<longrightarrow> (\<exists>c. heap s p = Some c \<and> cl_hashkey c' = cl_hashkey c \<and>
        cl_routing_id c' = cl_routing_id c)) \<and>
     iq s' = iq s \<and> payloads s' = payloads s \<and> next_ptr s' = next_ptr s \<and>
     inbound (router s') = inbound (router s)"

lemma loop_executed:
  assumes "client_inv_at p s" "heap s p = Some c"
  shows "\<exists>s'. client_loop x p s = Inr s' \<and> executed p s s'"
  using assms
proof (induction "event_rank (cl_next_event c)" arbitrary: s c rule: less_induct)
  case less
  note D = client_inv_atD [OF less.prems]
  show ?case
  proof (cases "cl_next_event c = NULL_event")
    case True
    have "client_inv s" using client_inv_at_iff [of s p] less.prems True by (simp add: next_of_def)
    then show ?thesis using loop_done [OF less.prems(2) True] less.prems(2) by (simp add: executed_def)
  next
    case False
    let ?t = "pass x p c s"
    obtain st n where h: "heap ?t = (heap s)(p \<mapsto> (begin_event c)\<lparr>cl_state := st, cl_next_event := n\<rparr>)"
      "st = zombie_state \<longrightarrow> cl_state c = zombie_state"
      "n = NULL_event \<or> n = terminate_event \<or> (cl_next_event c = query_event \<and> event_rank n = 1)"
      by (rule pass_client [of x p c s])
    let ?d = "(begin_event c)\<lparr>cl_state := st, cl_next_event := n\<rparr>"
    have hp: "heap ?t p = Some ?d" using h(1) by simp
    have it: "client_inv_at p ?t"
      by (rule client_inv_at_put [OF less.prems h(1)]) (use h(2) D in \<open>simp_all add: frame_simps\<close>)
    have nx: "next_of p ?t = n" using h(1) by (simp add: next_of_def)
    have L: "client_loop x p s = (if n = terminate_event then clients_delete (cl_hashkey c) ?t else client_loop x p ?t)"
      using loop_step [OF less.prems(2) _ False] D nx by simp
    show ?thesis
    proof (cases "n = terminate_event")
      case True
      have "cl_hashkey ?d = cl_hashkey c" by simp
      then show ?thesis
        using clients_delete_run [OF it hp] drop_client_inv [OF it hp] True L h(1)
        by (simp add: executed_def frame_simps)
    next
      case nt: False
      have "event_rank (cl_next_event ?d) < event_rank (cl_next_event c)"
        using h(3) nt False by (auto simp: event_rank_def)
      from less.hyps [OF this it hp] obtain s' where "client_loop x p ?t = Inr s'" "executed p ?t s'" by blast
      moreover from this(2) have "executed p s s'"
        unfolding executed_def using h(1) less.prems(2) by (simp add: frame_simps)
      ultimately show ?thesis using L nt by simp
    qed
  qed
qed

lemma execute_total:
  assumes "client_inv s" "heap s p = Some c"
  shows "\<exists>s'. s_client_execute x p e s = Inr s' \<and> executed p s s'"
proof -
  let ?b = "begin_execute p e c s"
  have i: "client_inv_at p s" using assms(1) client_inv_at_iff by blast
  have h: "heap ?b = (heap s)(p \<mapsto> c\<lparr>cl_next_event := e, cl_wakeup := False\<rparr>)"
    by (simp add: begin_execute_def frame_simps)
  have "client_inv_at p ?b"
    by (rule client_inv_at_put [OF i assms(2) h])
      (use client_inv_atD [OF i assms(2)] in \<open>simp_all add: begin_execute_def frame_simps\<close>)
  moreover have "heap ?b p = Some (c\<lparr>cl_next_event := e, cl_wakeup := False\<rparr>)" using h by simp
  ultimately obtain s' where "client_loop x p ?b = Inr s'" "executed p ?b s'"
    using loop_executed by blast
  moreover from this(2) have "executed p s s'"
    unfolding executed_def using h assms(2) by (simp add: begin_execute_def frame_simps)
  ultimately show ?thesis using execute_run [OF assms(2)] by simp
qed

end
