(* ===== verification/ServerReplies.thy ===== *)
theory ServerReplies
  imports ServerClients
begin

text \<open>
  The contract of the server state machine: \<open>reaction\<close> gives, for the state of a client and
  an event, the message that goes back to it and the state it is left in, or that it is gone.
  The engine implements it, including the second pass that a query takes.
\<close>

section \<open>The contract\<close>

text \<open>The frames of a result: the stored payloads that meet the interval of the query.\<close>

definition matching_frames :: "extern \<Rightarrow> tpq_codec \<Rightarrow> server \<Rightarrow> frame list" where
  "matching_frames x m s = map (payload_encode x) (ordered_payloads
     (unique_payloads (immap_and (iq s) (right_open (query_beg m) (query_end m)))) (payloads s))"

definition reaction_rest :: "server \<Rightarrow> state_t \<Rightarrow> event_t \<Rightarrow> message option \<times> state_t option" where
  "reaction_rest s st e =
     (if e = ping_event then (Some Pong, Some st)
      else if e = goodbye_event then (Some GoodbyeOk, None)
      else if e = expired_event then (None, None)
      else if e = exception_event then (Some (Error (status (message s)) (cstring (reason (message s)))), None)
      else (Some (Error 500 (cstring (reason (message s)))), None))"

definition verdict_reaction :: "extern \<Rightarrow> server \<Rightarrow> message option \<times> state_t option" where
  "verdict_reaction x s = (let m = message s in
     (case verdict m s of
        Bogus \<Rightarrow> Some (Error 500 (cstring (reason m)))
      | Late \<Rightarrow> Some (Result (seqno m) 404 [])
      | Partial \<Rightarrow> Some (Result (seqno m) 206 (matching_frames x m s))
      | Satisfied \<Rightarrow> Some (Result (seqno m) 200 (matching_frames x m s))
      | Waiting \<Rightarrow> None, Some connected_state))"

definition reaction :: "extern \<Rightarrow> server \<Rightarrow> state_t \<Rightarrow> event_t \<Rightarrow> message option \<times> state_t option" where
  "reaction x s st e = (let m = message s in
     if st = start_state \<and> e = hello_event then (Some (Coverage (own_detmask s)), Some connected_state)
     else if st = connected_state \<and> e = query_event then verdict_reaction x s
     else if st = connected_state \<and> e = query_is_fully_late_event
     then (Some (Result (seqno m) 404 []), Some connected_state)
     else if st = connected_state \<and> (e = query_is_partly_late_event \<or> e = query_is_satisfied_event)
     then (Some (Result (seqno m) (status m) (matching_frames x m s)), Some connected_state)
     else if st = connected_state \<and> e = query_is_bogus_event
     then (Some (Error 500 (cstring (reason m))), Some connected_state)
     else reaction_rest s st e)"

text \<open>The parts put on the router for a client: nothing, or its routing id and one message.\<close>

definition sent_to :: "frame \<Rightarrow> message option \<Rightarrow> server \<Rightarrow> server \<Rightarrow> bool" where
  "sent_to rid r s s' \<longleftrightarrow> (case r of
     None \<Rightarrow> outbound (router s') = outbound (router s)
   | Some msg \<Rightarrow> \<exists>m. message_of m = Some msg \<and>
       outbound (router s') = outbound (router s) @ (rid, True) # message_parts m)"

section \<open>One pass meets it\<close>

lemma set_payload_eq: "set_payload x s = s\<lparr>message := (message s)\<lparr>payload := Some (matching_frames x (message s) s)\<rparr>\<rparr>"
  by (simp add: set_payload_def matching_frames_def query_beg_def query_end_def Let_def add.commute
      tpq_codec_set_payload_def)

lemma reply_sent:
  assumes "sock_type (router s) = ROUTER" "message_of ((message s)\<lparr>codec_id := i\<rparr>) = Some msg"
  shows "sent_to (cl_routing_id c) (Some msg) s (reply c i s)"
  using assms message_of_routing [where c = "(message s)\<lparr>codec_id := i\<rparr>"]
  unfolding sent_to_def reply_def Let_def
  by (auto simp: send_outbound intro!: exI [of _ "(message s)\<lparr>codec_id := i, routing_id := Some (cl_routing_id c)\<rparr>"])

lemma sent_to_frame:
  "router s = router t \<Longrightarrow> sent_to rid r s u = sent_to rid r t u"
  "sent_to rid r s (put_client p c u) = sent_to rid r s u"
  "sent_to rid r s (drop_client p k u) = sent_to rid r s u"
  by (simp_all add: sent_to_def frame_simps split: option.splits)

lemma replies:
  assumes "sock_type (router s) = ROUTER"
  shows "sent_to (cl_routing_id c) (Some Pong) s (reply c TPQ_CODEC_PONG s)"
    "sent_to (cl_routing_id c) (Some GoodbyeOk) s (reply c TPQ_CODEC_GOODBYE_OK s)"
    "sent_to (cl_routing_id c) (Some (Error (status (message s)) (cstring (reason (message s))))) s (reply c TPQ_CODEC_ERROR s)"
    "sent_to (cl_routing_id c) (Some (Error 500 (cstring (reason (message s))))) s
       (reply c TPQ_CODEC_ERROR (set_command_invalid s))"
    "sent_to (cl_routing_id c) (Some (Coverage (own_detmask s))) s (reply c TPQ_CODEC_COVERAGE (set_coverage s))"
    "sent_to (cl_routing_id c) (Some (Result (seqno (message s)) 404 [])) s (reply c TPQ_CODEC_RESULT (set_not_found s))"
    "sent_to (cl_routing_id c) (Some (Result (seqno (message s)) (status (message s)) (matching_frames x (message s) s)))
       s (reply c TPQ_CODEC_RESULT (set_payload x s))"
proof -
  note R = reply_sent [where c = c]
  have *: "sent_to (cl_routing_id c) r s (reply c i s')" if "router s' = router s"
    "sent_to (cl_routing_id c) r s' (reply c i s')" for r i s'
    using that sent_to_frame(1) by metis
  note M = message_of_def codec_ids codec_setters codec_statuses wire_payload_def
  show "sent_to (cl_routing_id c) (Some Pong) s (reply c TPQ_CODEC_PONG s)"
    "sent_to (cl_routing_id c) (Some GoodbyeOk) s (reply c TPQ_CODEC_GOODBYE_OK s)"
    "sent_to (cl_routing_id c) (Some (Error (status (message s)) (cstring (reason (message s))))) s (reply c TPQ_CODEC_ERROR s)"
    using assms by (intro R; simp add: M)+
  show "sent_to (cl_routing_id c) (Some (Error 500 (cstring (reason (message s))))) s
       (reply c TPQ_CODEC_ERROR (set_command_invalid s))"
    "sent_to (cl_routing_id c) (Some (Coverage (own_detmask s))) s (reply c TPQ_CODEC_COVERAGE (set_coverage s))"
    "sent_to (cl_routing_id c) (Some (Result (seqno (message s)) 404 [])) s (reply c TPQ_CODEC_RESULT (set_not_found s))"
    "sent_to (cl_routing_id c) (Some (Result (seqno (message s)) (status (message s)) (matching_frames x (message s) s)))
       s (reply c TPQ_CODEC_RESULT (set_payload x s))"
    using assms
    by ((intro * R; simp add: frame_simps set_command_invalid_def set_coverage_def set_not_found_def set_payload_eq M)+)
qed

definition left_in :: "client_ptr \<Rightarrow> state_t option \<Rightarrow> server \<Rightarrow> bool" where
  "left_in p st s \<longleftrightarrow> (case st of None \<Rightarrow> next_of p s = terminate_event
     | Some st \<Rightarrow> (\<exists>c. heap s p = Some c \<and> cl_next_event c = NULL_event \<and> cl_state c = st))"

lemma react_reaction:
  assumes "heap s p = Some c" "cl_next_event c = NULL_event" "cl_state c \<noteq> zombie_state"
    "cl_event c \<noteq> query_event \<or> cl_state c \<noteq> connected_state" "sock_type (router s) = ROUTER"
  shows "sent_to (cl_routing_id c) (fst (reaction x s (cl_state c) (cl_event c))) s (react x p c s) \<and>
    left_in p (snd (reaction x s (cl_state c) (cl_event c))) (react x p c s)"
proof -
  note R = replies [OF assms(5), of c]
  have n: "sent_to rid None s s" for rid by (simp add: sent_to_def)
  note S = react_def reaction_def reaction_rest_def Let_def frame_simps sent_to_frame(2,3) left_in_def next_of_def
  show ?thesis
  proof (cases "cl_state c")
    case start_state
    then show ?thesis using assms(1,2) R(1-5) n by (cases "cl_event c") (simp_all add: S)
  next
    case connected_state
    then show ?thesis using assms(1,2,4) R n by (cases "cl_event c") (simp_all add: S)
  next
    case defaults_state
    then show ?thesis using assms(1,2) R(1-4) n by (cases "cl_event c") (simp_all add: S)
  qed (use assms in simp)
qed

section \<open>Executing an event meets it\<close>

lemma react_keeps_socket: "sock_type (router (react x p c s)) = sock_type (router s)"
proof -
  have "sock_type (router (reply c i t)) = sock_type (router t)" for i t
    by (simp add: reply_def Let_def send_socket)
  then show ?thesis
    by (cases "cl_state c"; cases "verdict (message s) s"; simp add: react_def Let_def frame_simps after_query_def)
qed

lemma loop_reaction:
  assumes i: "client_inv_at p s" and h: "heap s p = Some c" and e: "cl_next_event c \<noteq> NULL_event"
    and q: "cl_next_event c \<noteq> query_event \<or> cl_state c \<noteq> connected_state"
    and r: "sock_type (router s) = ROUTER"
    and s': "client_loop x p s = Inr s'"
  shows "sent_to (cl_routing_id c) (fst (reaction x s (cl_state c) (cl_next_event c))) s s' \<and>
    (case snd (reaction x s (cl_state c) (cl_next_event c)) of None \<Rightarrow> heap s' p = None
     | Some st \<Rightarrow> \<exists>c'. heap s' p = Some c' \<and> cl_state c' = st)"
proof -
  let ?c = "begin_event c" and ?s = "put_client p (begin_event c) s"
  note D = client_inv_atD [OF i h]
  have rx: "reaction x ?s = reaction x s"
    by (simp add: reaction_def reaction_rest_def verdict_reaction_def verdict_def matching_frames_def
        frame_simps fun_eq_iff Let_def)
  have R: "sent_to (cl_routing_id c) (fst (reaction x s (cl_state c) (cl_next_event c))) s (pass x p c s)"
    "left_in p (snd (reaction x s (cl_state c) (cl_next_event c))) (pass x p c s)"
    using react_reaction [of ?s p ?c x] D q r rx sent_to_frame(1) [of ?s s]
    by (simp_all add: frame_simps pass_def)
  have L: "client_loop x p s = (if next_of p (pass x p c s) = terminate_event
      then clients_delete (cl_hashkey c) (pass x p c s) else client_loop x p (pass x p c s))"
    using loop_step [OF h _ e] D by simp
  show ?thesis
  proof (cases "snd (reaction x s (cl_state c) (cl_next_event c))")
    case None
    then have t: "next_of p (pass x p c s) = terminate_event" using R(2) by (simp add: left_in_def)
    obtain st n where hp: "heap (pass x p c s) = (heap s)(p \<mapsto> ?c\<lparr>cl_state := st, cl_next_event := n\<rparr>)"
      "st = zombie_state \<longrightarrow> cl_state c = zombie_state"
      by (rule pass_client [of x p c s])
    have "client_inv_at p (pass x p c s)"
      by (rule client_inv_at_put [OF i h hp(1)]) (use hp(2) D in \<open>simp_all add: frame_simps\<close>)
    from clients_delete_run [OF this, of p] hp(1)
    have "s' = drop_client p (cl_hashkey c) (pass x p c s)" using L t s' by simp
    then show ?thesis using R(1) None by (simp add: sent_to_frame(3) frame_simps)
  next
    case (Some st)
    then obtain c' where c': "heap (pass x p c s) p = Some c'" "cl_next_event c' = NULL_event" "cl_state c' = st"
      using R(2) by (auto simp: left_in_def)
    then have "s' = pass x p c s" using L s' loop_done [OF c'(1,2)] by (simp add: next_of_def)
    then show ?thesis using R(1) Some c' by simp
  qed
qed

text \<open>The pass over the query itself sends nothing and selects the event of the verdict.\<close>

lemma query_pass:
  assumes "heap s p = Some c" "cl_state c = connected_state" "cl_next_event c = query_event"
  shows "\<exists>c'. heap (pass x p c s) p = Some c' \<and> cl_state c' = connected_state \<and>
      cl_next_event c' = verdict_event (verdict (message s) s) \<and> cl_routing_id c' = cl_routing_id c"
    "router (pass x p c s) = router s" "own_detmask (pass x p c s) = own_detmask s"
    "message (pass x p c s) = (case verdict (message s) s of Partial \<Rightarrow> (message s)\<lparr>status := 206\<rparr>
       | Satisfied \<Rightarrow> (message s)\<lparr>status := 200\<rparr> | _ \<Rightarrow> message s)"
proof -
  let ?s = "put_client p (begin_event c) s" and ?v = "verdict (message s) s"
  have v: "verdict (message ?s) ?s = ?v" by (simp add: verdict_def frame_simps)
  have p: "pass x p c s = after_query p (begin_event c) ?s"
    using assms by (simp add: pass_def react_def Let_def)
  show "\<exists>c'. heap (pass x p c s) p = Some c' \<and> cl_state c' = connected_state \<and>
      cl_next_event c' = verdict_event ?v \<and> cl_routing_id c' = cl_routing_id c"
    using after_query_client [of ?s p "begin_event c"] assms(2) v
    by (cases ?v) (simp_all add: p frame_simps)
  show "router (pass x p c s) = router s" "own_detmask (pass x p c s) = own_detmask s"
    "message (pass x p c s) = (case ?v of Partial \<Rightarrow> (message s)\<lparr>status := 206\<rparr>
       | Satisfied \<Rightarrow> (message s)\<lparr>status := 200\<rparr> | _ \<Rightarrow> message s)"
    unfolding p after_query_def Let_def v by (cases ?v; simp add: frame_simps)+
qed

lemma verdict_reaction_event:
  assumes "verdict (message s) s \<noteq> Waiting" "iq t = iq s" "payloads t = payloads s"
    "message t = (case verdict (message s) s of Partial \<Rightarrow> (message s)\<lparr>status := 206\<rparr>
       | Satisfied \<Rightarrow> (message s)\<lparr>status := 200\<rparr> | _ \<Rightarrow> message s)"
  shows "reaction x t connected_state (verdict_event (verdict (message s) s)) = verdict_reaction x s"
  using assms
  by (cases "verdict (message s) s")
    (simp_all add: reaction_def verdict_reaction_def Let_def matching_frames_def query_beg_def query_end_def)

lemma execute_reaction:
  assumes inv: "client_inv s" and h: "heap s p = Some c" and e: "e \<noteq> NULL_event"
    and r: "sock_type (router s) = ROUTER" and s': "s_client_execute x p e s = Inr s'"
  shows "sent_to (cl_routing_id c) (fst (reaction x s (cl_state c) e)) s s' \<and>
    (case snd (reaction x s (cl_state c) e) of None \<Rightarrow> heap s' p = None
     | Some st \<Rightarrow> \<exists>c'. heap s' p = Some c' \<and> cl_state c' = st)"
proof -
  let ?b = "begin_execute p e c s" and ?c = "c\<lparr>cl_next_event := e, cl_wakeup := False\<rparr>"
  have i: "client_inv_at p s" using inv client_inv_at_iff by blast
  have hb: "heap ?b = (heap s)(p \<mapsto> ?c)" by (simp add: begin_execute_def frame_simps)
  have bi: "client_inv_at p ?b"
    by (rule client_inv_at_put [OF i h hb])
      (use client_inv_atD [OF i h] in \<open>simp_all add: begin_execute_def frame_simps\<close>)
  have rb: "reaction x ?b = reaction x s" "router ?b = router s" "message ?b = message s"
    "verdict m ?b = verdict m s" "verdict_reaction x ?b = verdict_reaction x s" for m
    by (simp_all add: reaction_def reaction_rest_def verdict_reaction_def verdict_def matching_frames_def
        frame_simps fun_eq_iff Let_def begin_execute_def)
  have L: "client_loop x p ?b = Inr s'" using s' execute_run [OF h] by simp
  have hp: "heap ?b p = Some ?c" using hb by simp
  show ?thesis
  proof (cases "e = query_event \<and> cl_state c = connected_state")
    case False
    then show ?thesis
      using loop_reaction [OF bi hp, of x s'] e L r rb sent_to_frame(1) [of ?b s] by simp
  next
    case True
    let ?t = "pass x p ?c ?b" and ?v = "verdict (message s) s"
    have q: "cl_state ?c = connected_state" "cl_next_event ?c = query_event" using True by simp_all
    note Q = query_pass [OF hp q, of x]
    obtain c' where c': "heap ?t p = Some c'" "cl_state c' = connected_state"
      "cl_next_event c' = verdict_event ?v" "cl_routing_id c' = cl_routing_id c"
      using Q(1) rb by auto
    have vt: "verdict_event ?v \<noteq> terminate_event" "verdict_event ?v \<noteq> query_event" by (cases ?v; simp)+
    have lt: "client_loop x p ?t = Inr s'"
      using loop_step [OF hp] client_inv_atD [OF bi hp] True L c' vt by (simp add: next_of_def)
    obtain st n where hq: "heap ?t = (heap ?b)(p \<mapsto> (begin_event ?c)\<lparr>cl_state := st, cl_next_event := n\<rparr>)"
      "st = zombie_state \<longrightarrow> cl_state ?c = zombie_state"
      by (rule pass_client [of x p ?c ?b])
    have ti: "client_inv_at p ?t"
      by (rule client_inv_at_put [OF bi hp hq(1)])
        (use hq(2) client_inv_atD [OF bi hp] in \<open>simp_all add: frame_simps\<close>)
    have rs: "reaction x s (cl_state c) e = verdict_reaction x s" using True by (simp add: reaction_def)
    show ?thesis
    proof (cases "?v = Waiting")
      case True
      then have "s' = ?t" using lt loop_done [OF c'(1)] c'(3) by simp
      then show ?thesis using True rs c' Q(2) rb
        by (simp add: verdict_reaction_def Let_def sent_to_def)
    next
      case False
      have "reaction x ?t connected_state (verdict_event ?v) = verdict_reaction x s"
        using verdict_reaction_event [of ?b ?t x] False Q(4) rb by (simp add: frame_simps)
      moreover have "cl_next_event c' \<noteq> NULL_event" using c'(3) False by (cases ?v) simp_all
      ultimately show ?thesis
        using loop_reaction [OF ti c'(1) _ _ _ lt] c' vt r rb Q(2) rs sent_to_frame(1) [of ?t s] by simp
    qed
  qed
qed

end
