(* ===== verification/ServerProtocol.thy ===== *)
theory ServerProtocol
  imports ServerReplies
begin

text \<open>
  The handler of the router socket (\<open>s_server_handle_protocol\<close>): it reads messages as long
  as there are any, finds or makes the client of the sender, and executes the event of the
  message. Resetting the expiry ticket of the client changes no state modelled here.
\<close>

section \<open>The handler\<close>

definition client_of_sender :: "extern \<Rightarrow> frame \<Rightarrow> server \<Rightarrow> client_ptr \<times> server" where
  "client_of_sender x rid s = (case clients s (strhex x rid) of
     Some p \<Rightarrow> (p, s)
   | None \<Rightarrow> (case s_client_new x rid s of (p, s') \<Rightarrow>
       (p, s'\<lparr>clients := zhash_insert (strhex x rid) p (clients s')\<rparr>)))"

definition protocol_iteration :: "extern \<Rightarrow> server \<Rightarrow> fault + server \<times> bool" where
  "protocol_iteration x s =
     (case tpq_codec_recv (message s) (router s) of (rc, m, sk) \<Rightarrow>
        let s1 = s\<lparr>message := m, router := sk\<rparr>
        in if rc = -1 then Inr (s1, False)
           else (case routing_id m of None \<Rightarrow> Inl NullPointer
                 | Some rid \<Rightarrow>
                    (case client_of_sender x rid s1 of (p, s2) \<Rightarrow>
                       if rc = -2 then Inr (s2, True)
                       else bind_fault (s_client_execute x p (s_protocol_event m) s2) (\<lambda>s3. Inr (s3, True)))))"

section \<open>Each pass consumes input\<close>

lemma destroy_router: "s_client_destroy p s = Inr s' \<Longrightarrow> router s' = router s"
  by (auto simp: s_client_destroy_def get_client_def upd_client_def s_client_finalize_def
      split: option.splits if_splits elim!: bind_fault_InrE)

lemma delete_router: "clients_delete k s = Inr s' \<Longrightarrow> router s' = router s"
  by (auto simp: clients_delete_def split: option.splits dest: destroy_router)

lemma iteration_inbound:
  assumes "client_iteration x p s = Inr (s', go)"
  shows "inbound (router s') = inbound (router s)"
proof (cases "heap s p")
  case None
  then show ?thesis using assms by (simp add: client_iteration_def get_client_def)
next
  case (Some c)
  show ?thesis
  proof (cases "cl_state c = zombie_state")
    case True
    then show ?thesis using assms Some
      by (auto simp: client_iteration_def get_client_def Let_def upd_client_run frame_simps)
  next
    case False
    then show ?thesis using assms
      by (auto simp: client_iteration_run [OF Some] bind_fault_Inr_iff frame_simps
          split: if_splits dest: delete_router)
  qed
qed

lemma loop_inbound: "client_loop x p s = Inr s' \<Longrightarrow> inbound (router s') = inbound (router s)"
proof (induction x p s arbitrary: s' rule: client_loop.induct)
  case (1 x p s)
  from "1.prems" obtain c where c: "get_client p s = Inr c"
    by (subst (asm) client_loop.simps) (auto elim: bind_fault_InrE)
  show ?case
  proof (cases "cl_next_event c = NULL_event")
    case True
    then show ?thesis using "1.prems" c by (subst (asm) client_loop.simps) simp
  next
    case False
    then obtain t go where t: "client_iteration x p s = Inr (t, go)"
      "(if go then client_loop x p t else Inr t) = Inr s'"
      using "1.prems" c by (subst (asm) client_loop.simps) (auto elim!: bind_fault_InrE)
    show ?thesis
    proof (cases go)
      case True
      then have "inbound (router s') = inbound (router t)"
        using "1.IH" [OF c False, of "(t, go)" t go] t by simp
      then show ?thesis using iteration_inbound [OF t(1)] by simp
    next
      case False
      then show ?thesis using t iteration_inbound [OF t(1)] by simp
    qed
  qed
qed

lemma execute_inbound: "s_client_execute x p e s = Inr s' \<Longrightarrow> inbound (router s') = inbound (router s)"
  unfolding s_client_execute_def
  by (elim bind_fault_InrE) (auto simp: upd_client_def get_client_def split: option.splits dest!: loop_inbound)

lemma sender_router: "client_of_sender x rid s = (p, s') \<Longrightarrow> router s' = router s"
  by (auto simp: client_of_sender_def s_client_new_def Let_def split: option.splits)

lemma protocol_iteration_length:
  assumes "protocol_iteration x s = Inr (s', go)" "inbound (router s) \<noteq> []"
  shows "length (inbound (router s')) < length (inbound (router s))"
proof -
  obtain rc m sk where r: "tpq_codec_recv (message s) (router s) = (rc, m, sk)" by (metis prod_cases3)
  have "inbound (router s') = inbound sk"
    using assms(1) by (auto simp: protocol_iteration_def r Let_def bind_fault_Inr_iff
        split: if_splits option.splits prod.splits dest!: sender_router execute_inbound)
  then show ?thesis using recv_length [OF r assms(2)] by simp
qed

section \<open>The loop\<close>

function s_server_handle_protocol :: "extern \<Rightarrow> server \<Rightarrow> fault + int \<times> server" where
  "s_server_handle_protocol x s =
     (if inbound (router s) = [] then Inr (0, s)
      else bind_fault (protocol_iteration x s) (\<lambda>(s', go).
             if go then s_server_handle_protocol x s' else Inr (-1, s')))"
  by pat_completeness auto

termination
  by (relation "measure (\<lambda>(x, s). length (inbound (router s)))") (auto dest: protocol_iteration_length)

declare s_server_handle_protocol.simps [simp del]

section \<open>Invariant\<close>

text \<open>Every client's key is the hex form of its routing id.\<close>

definition keys_inv :: "extern \<Rightarrow> server \<Rightarrow> bool" where
  "keys_inv x s \<longleftrightarrow> (\<forall>p c. heap s p = Some c \<longrightarrow> cl_hashkey c = strhex x (cl_routing_id c))"

definition server_inv :: "extern \<Rightarrow> server \<Rightarrow> bool" where
  "server_inv x s \<longleftrightarrow> client_inv s \<and> keys_inv x s \<and> codec_ok (message s) \<and> sock_type (router s) = ROUTER"

lemma executed_keys: "executed p s s' \<Longrightarrow> keys_inv x s \<Longrightarrow> keys_inv x s'"
  unfolding executed_def keys_inv_def by metis

lemma setters_ok:
  assumes "codec_ok c"
  shows "codec_ok (tpq_codec_set_status c st)" "codec_ok (tpq_codec_set_payload c pl)"
    "codec_ok (tpq_codec_set_detmask c dm)"
  using assms by (simp_all add: codec_setters)

lemma react_codec_ok:
  assumes "codec_ok (message s)"
  shows "codec_ok (message (react x p c s))"
proof -
  have r: "codec_ok (message (reply c i t)) = codec_ok (message t)" for i t
    by (simp add: reply_def Let_def)
  have a: "codec_ok (message (set_command_invalid s))" "codec_ok (message (set_not_found s))"
    "codec_ok (message (set_coverage s))" "codec_ok (message (set_payload x s))"
    using assms by (simp_all add: set_command_invalid_def set_not_found_def set_coverage_def set_payload_eq codec_setters)
  show ?thesis using a assms
    by (cases "cl_state c"; cases "verdict (message s) s"; simp add: react_def Let_def frame_simps r after_query_def)
qed

text \<open>What a pass keeps of the codec and the socket holds for a whole execution.\<close>

definition wire_ok :: "server \<Rightarrow> bool" where
  "wire_ok s \<longleftrightarrow> codec_ok (message s) \<and> sock_type (router s) = ROUTER"

text \<open>A property that no pass and no change of the client itself breaks survives an execution.\<close>

lemma loop_keeps:
  assumes pass: "\<And>s c. W s \<Longrightarrow> heap s p = Some c \<Longrightarrow> W (pass x p c s)"
    and drop: "\<And>k s. W s \<Longrightarrow> W (drop_client p k s)"
    and "client_inv_at p s" "heap s p = Some c" "W s" "client_loop x p s = Inr s'"
  shows "W s'"
  using assms(3-)
proof (induction "event_rank (cl_next_event c)" arbitrary: s c rule: less_induct)
  case less
  note D = client_inv_atD [OF less.prems(1,2)]
  show ?case
  proof (cases "cl_next_event c = NULL_event")
    case True
    then show ?thesis using loop_done [OF less.prems(2) True] less.prems(3,4) by simp
  next
    case False
    let ?t = "pass x p c s"
    obtain st n where h: "heap ?t = (heap s)(p \<mapsto> (begin_event c)\<lparr>cl_state := st, cl_next_event := n\<rparr>)"
      "st = zombie_state \<longrightarrow> cl_state c = zombie_state"
      "n = NULL_event \<or> n = terminate_event \<or> (cl_next_event c = query_event \<and> event_rank n = 1)"
      by (rule pass_client [of x p c s])
    let ?d = "(begin_event c)\<lparr>cl_state := st, cl_next_event := n\<rparr>"
    have hp: "heap ?t p = Some ?d" using h(1) by simp
    have it: "client_inv_at p ?t"
      by (rule client_inv_at_put [OF less.prems(1,2) h(1)]) (use h(2) D in \<open>simp_all add: frame_simps\<close>)
    have w: "W ?t" by (rule pass [OF less.prems(3,2)])
    have L: "Inr s' = (if n = terminate_event then clients_delete (cl_hashkey c) ?t else client_loop x p ?t)"
      using loop_step [OF less.prems(2) _ False] D less.prems(4) h(1) by (simp add: next_of_def)
    show ?thesis
    proof (cases "n = terminate_event")
      case True
      then show ?thesis using clients_delete_run [OF it hp] L drop [OF w] by simp
    next
      case nt: False
      have "event_rank (cl_next_event ?d) < event_rank (cl_next_event c)"
        using h(3) nt False by (auto simp: event_rank_def)
      then show ?thesis using less.hyps [OF _ it hp w] L nt by simp
    qed
  qed
qed

lemma execute_keeps:
  assumes pass: "\<And>s c. W s \<Longrightarrow> heap s p = Some c \<Longrightarrow> W (pass x p c s)"
    and drop: "\<And>k s. W s \<Longrightarrow> W (drop_client p k s)"
    and put: "\<And>c d s. W s \<Longrightarrow> heap s p = Some d \<Longrightarrow> cl_state c = cl_state d \<Longrightarrow> W (put_client p c s)"
    and "client_inv s" "heap s p = Some c" "W s" "s_client_execute x p e s = Inr s'"
  shows "W s'"
proof -
  let ?b = "begin_execute p e c s"
  have i: "client_inv_at p s" using assms(4) client_inv_at_iff by blast
  have h: "heap ?b = (heap s)(p \<mapsto> c\<lparr>cl_next_event := e, cl_wakeup := False\<rparr>)"
    by (simp add: begin_execute_def frame_simps)
  have bi: "client_inv_at p ?b"
    by (rule client_inv_at_put [OF i assms(5) h])
      (use client_inv_atD [OF i assms(5)] in \<open>simp_all add: begin_execute_def frame_simps\<close>)
  have hp: "heap ?b p = Some (c\<lparr>cl_next_event := e, cl_wakeup := False\<rparr>)" using h by simp
  have w: "W ?b" unfolding begin_execute_def by (rule put [OF assms(6,5)]) simp
  have "client_loop x p ?b = Inr s'" using assms(7) execute_run [OF assms(5)] by simp
  from loop_keeps [of W, OF pass drop bi hp w this] show ?thesis by simp
qed

lemma execute_wire_ok:
  assumes "client_inv s" "heap s p = Some c" "wire_ok s" "s_client_execute x p e s = Inr s'"
  shows "wire_ok s'"
proof (rule execute_keeps [of wire_ok, OF _ _ _ assms])
  fix s c k
  assume w: "wire_ok s"
  show "wire_ok (pass x p c s)"
    using react_codec_ok [of "put_client p (begin_event c) s" x p "begin_event c"] w
    by (simp add: wire_ok_def pass_def react_keeps_socket frame_simps)
  show "wire_ok (drop_client p k s)" "wire_ok (put_client p c s)" using w by (simp_all add: wire_ok_def frame_simps)
qed

text \<open>The pending requests stay ordered by the end of their intervals, each end once.\<close>

definition pending_sorted :: "server \<Rightarrow> bool" where
  "pending_sorted s \<longleftrightarrow> sorted_wrt (<) (map fst (pending s))"

lemma push_request_sorted:
  assumes "sorted_wrt (<) (map fst q)"
  shows "sorted_wrt (<) (map fst (push_request k r q))"
  using assms
proof (induction k r q rule: push_request.induct)
  case (2 k r k' rs q)
  have "set (map fst (push_request k r q)) \<subseteq> insert k (set (map fst q))"
    by (induction k r q rule: push_request.induct) auto
  then show ?case using 2 by (fastforce simp: image_subset_iff)
qed simp

text \<open>A pending request belongs to a client that is still there, and then connected, or was freed.
  Its address has been handed out, so that no later client gets it.\<close>

definition requests :: "request_queue \<Rightarrow> request_t list" where
  "requests q = concat (map snd q)"

lemma requests_push: "set (requests (push_request k r q)) = insert r (set (requests q))"
  by (induction k r q rule: push_request.induct) (auto simp: requests_def)

definition request_alive :: "server \<Rightarrow> request_t \<Rightarrow> bool" where
  "request_alive s req \<longleftrightarrow> (\<exists>c. heap s (rq_client req) = Some c \<and> cl_state c = connected_state)"

definition request_freed :: "server \<Rightarrow> request_t \<Rightarrow> bool" where
  "request_freed s req \<longleftrightarrow> heap s (rq_client req) = None"

definition pending_inv :: "server \<Rightarrow> bool" where
  "pending_inv s \<longleftrightarrow> pending_sorted s \<and>
     (\<forall>req\<in>set (requests (pending s)). rq_client req < next_ptr s \<and> (request_alive s req \<or> request_freed s req))"

lemma pending_inv_cong:
  "pending_inv s \<Longrightarrow> heap t = heap s \<Longrightarrow> pending t = pending s \<Longrightarrow> next_ptr t = next_ptr s \<Longrightarrow> pending_inv t"
  by (simp add: pending_inv_def pending_sorted_def request_alive_def request_freed_def)

text \<open>A pass adds at most one request, of the client itself when it is connected, and a connected
  client stays connected.\<close>

lemma react_pending:
  "pending (react x p c s) = pending s \<or>
     (\<exists>k r. pending (react x p c s) = push_request k r (pending s) \<and> rq_client r = p \<and> cl_state c = connected_state)"
proof (cases "cl_state c = connected_state \<and> cl_event c = query_event \<and> verdict (message s) s = Waiting")
  case True
  then have "pending (react x p c s) = push_request (query_end (message s))
      \<lparr>rq_client = p, rq_detmask = detmask (message s), rq_tstart = query_beg (message s), rq_seqno = seqno (message s)\<rparr>
      (pending s)" by (simp add: react_def Let_def after_query_def)
  then show ?thesis using True by (metis request_t.select_convs(1))
next
  case False
  then show ?thesis
    by (cases "cl_state c"; cases "verdict (message s) s"; auto simp: react_def Let_def frame_simps after_query_def)
qed

lemma pass_pending:
  "pending (pass x p c s) = pending s \<or>
     (\<exists>k r. pending (pass x p c s) = push_request k r (pending s) \<and> rq_client r = p \<and> cl_state c = connected_state)"
  using react_pending [of x p "begin_event c" "put_client p (begin_event c) s"]
  by (simp add: pass_def frame_simps)

lemma pass_connected:
  assumes "heap s p = Some c" "cl_state c = connected_state"
  shows "\<exists>d. heap (pass x p c s) = (heap s)(p \<mapsto> d) \<and> cl_state d = connected_state"
  using assms(2)
  by (cases "verdict (message s) (put_client p (begin_event c) s)")
    (auto simp: pass_def react_def Let_def frame_simps after_query_def)

lemma pass_pending_inv:
  assumes i: "pending_inv s" and h: "heap s p = Some c" and n: "p < next_ptr s"
  shows "pending_inv (pass x p c s)"
proof -
  obtain st e where hp: "heap (pass x p c s) = (heap s)(p \<mapsto> (begin_event c)\<lparr>cl_state := st, cl_next_event := e\<rparr>)"
    by (rule pass_client [of x p c s])
  let ?d = "(begin_event c)\<lparr>cl_state := st, cl_next_event := e\<rparr>"
  have con: "cl_state ?d = connected_state" if "cl_state c = connected_state"
    using pass_connected [OF h that, of x] hp by (metis fun_upd_same option.inject)
  have keep: "request_alive (pass x p c s) r \<or> request_freed (pass x p c s) r"
    if "request_alive s r \<or> request_freed s r" for r
    using that con h by (auto simp: request_alive_def request_freed_def hp)
  have own: "request_alive (pass x p c s) r" if "rq_client r = p" "cl_state c = connected_state" for r
    using that con by (simp add: request_alive_def hp)
  have old: "\<forall>req\<in>set (requests (pending s)). rq_client req < next_ptr s \<and>
      (request_alive (pass x p c s) req \<or> request_freed (pass x p c s) req)"
    using i keep by (simp add: pending_inv_def)
  have so: "pending_sorted s" using i by (simp add: pending_inv_def)
  from pass_pending [of x p c s] show ?thesis
  proof
    assume "pending (pass x p c s) = pending s"
    then show ?thesis using old so by (simp add: pending_inv_def pending_sorted_def frame_simps)
  next
    assume "\<exists>k r. pending (pass x p c s) = push_request k r (pending s) \<and> rq_client r = p \<and>
      cl_state c = connected_state"
    then obtain k r where r: "pending (pass x p c s) = push_request k r (pending s)" "rq_client r = p"
      "cl_state c = connected_state" by blast
    then show ?thesis using old so own [OF r(2,3)] n
      by (simp add: pending_inv_def pending_sorted_def frame_simps requests_push push_request_sorted)
  qed
qed

lemma execute_pending_inv:
  assumes i: "client_inv s" and h: "heap s p = Some c" and pe: "pending_inv s"
    and s': "s_client_execute x p e s = Inr s'"
  shows "pending_inv s'"
proof -
  let ?W = "\<lambda>s. pending_inv s \<and> p < next_ptr s"
  have n: "p < next_ptr s" using i h table_invD(1) [of s p c] by (simp add: client_inv_def)
  have "?W s'"
  proof (rule execute_keeps [where W = ?W, OF _ _ _ i h conjI [OF pe n] s'])
    fix s c d k
    assume w: "?W s"
    show "heap s p = Some c \<Longrightarrow> ?W (pass x p c s)" using w pass_pending_inv by (simp add: frame_simps)
    show "?W (drop_client p k s)" using w
      by (auto simp: pending_inv_def pending_sorted_def request_alive_def request_freed_def frame_simps)
    show "?W (put_client p c s)" if "heap s p = Some d" "cl_state c = cl_state d"
      using w that by (force simp: pending_inv_def pending_sorted_def request_alive_def request_freed_def frame_simps)
  qed
  then show ?thesis ..
qed

lemma execute_server_inv:
  assumes "server_inv x s" "heap s p = Some c"
  shows "\<exists>s'. s_client_execute x p e s = Inr s' \<and> executed p s s' \<and> server_inv x s'"
proof -
  have i: "client_inv s" "keys_inv x s" "wire_ok s" using assms(1) by (simp_all add: server_inv_def wire_ok_def)
  obtain s' where s': "s_client_execute x p e s = Inr s'" "executed p s s'"
    using execute_total [OF i(1) assms(2)] by blast
  moreover have "server_inv x s'"
    using s'(2) executed_keys [OF s'(2) i(2)] execute_wire_ok [OF i(1) assms(2) i(3) s'(1)]
    by (simp add: server_inv_def wire_ok_def executed_def)
  ultimately show ?thesis by blast
qed

lemma client_of_sender_inv:
  assumes "server_inv x s" "client_of_sender x rid s = (p, s')"
  shows "server_inv x s'" "message s' = message s" "router s' = router s"
    "\<exists>c. heap s' p = Some c \<and> cl_hashkey c = strhex x rid \<and>
      (if clients s (strhex x rid) = None then cl_state c = start_state \<and> cl_routing_id c = rid
       else heap s p = Some c \<and> clients s (strhex x rid) = Some p)"
    "iq s' = iq s \<and> payloads s' = payloads s \<and> pending s' = pending s \<and> own_detmask s' = own_detmask s"
proof -
  have i: "table_inv s" "\<forall>p. next_of p s = NULL_event" "keys_inv x s"
    using assms(1) by (simp_all add: server_inv_def client_inv_def)
  have "server_inv x s' \<and> message s' = message s \<and> router s' = router s \<and>
    (\<exists>c. heap s' p = Some c \<and> cl_hashkey c = strhex x rid \<and>
      (if clients s (strhex x rid) = None then cl_state c = start_state \<and> cl_routing_id c = rid
       else heap s p = Some c \<and> clients s (strhex x rid) = Some p)) \<and>
    iq s' = iq s \<and> payloads s' = payloads s \<and> pending s' = pending s \<and> own_detmask s' = own_detmask s"
  proof (cases "clients s (strhex x rid)")
    case (Some q)
    then have "p = q" "s' = s" using assms(2) by (simp_all add: client_of_sender_def)
    then show ?thesis using assms(1) table_invD(2) [OF i(1) Some] Some by auto
  next
    case None
    have fresh: "heap s (next_ptr s) = None"
      using table_invD(1) [OF i(1), of "next_ptr s"] by (cases "heap s (next_ptr s)") auto
    have nk: "cl_hashkey c \<noteq> strhex x rid" if "heap s q = Some c" for q c
      using table_invD(1) [OF i(1) that] None by auto
    have p: "p = next_ptr s" and s': "s' = (snd (s_client_new x rid s))\<lparr>clients := (clients s)(strhex x rid \<mapsto> p)\<rparr>"
      using assms(2) None by (auto simp: client_of_sender_def s_client_new_def zhash_insert_def Let_def)
    have nt: "clients s k \<noteq> Some (next_ptr s)" for k using table_invD(2) [OF i(1), of k] fresh by fastforce
    have "table_inv s'"
      using i(1) fresh nk nt unfolding table_inv_def s' p s_client_new_def Let_def
      by (auto simp: fun_upd_apply less_Suc_eq)
    moreover have "next_of q s' = NULL_event" for q
      using i(2) by (auto simp: s' p s_client_new_def Let_def next_of_def)
    moreover have "keys_inv x s'" using i(3) by (auto simp: keys_inv_def s' p s_client_new_def Let_def)
    ultimately show ?thesis using assms(1) None
      by (simp add: server_inv_def client_inv_def s' p s_client_new_def Let_def)
  qed
  then show "server_inv x s'" "message s' = message s" "router s' = router s"
    "\<exists>c. heap s' p = Some c \<and> cl_hashkey c = strhex x rid \<and>
      (if clients s (strhex x rid) = None then cl_state c = start_state \<and> cl_routing_id c = rid
       else heap s p = Some c \<and> clients s (strhex x rid) = Some p)"
    "iq s' = iq s \<and> payloads s' = payloads s \<and> pending s' = pending s \<and> own_detmask s' = own_detmask s"
    by auto
qed

section \<open>Totality of the handler\<close>

lemma finish_routing:
  assumes "\<And>c. case r of Inl c \<Rightarrow> routing_id c = rid | Inr s \<Rightarrow> routing_id (fst s) = rid"
  shows "routing_id (finish r) = rid"
  using assms by (cases r) auto

lemma recv_frame_routing:
  "recv_frame c sk = (rc, c', sk') \<Longrightarrow> routing_id c' = routing_id c"
proof -
  note I = and_then_ok [where P = "\<lambda>d. routing_id d = routing_id c"]
    get_field_ok [where P = "\<lambda>d. routing_id d = routing_id c"]
  have F: "routing_id d = routing_id c \<Longrightarrow> (case recv_hello (d, bs) of Inl e \<Rightarrow> routing_id e = routing_id c | Inr s \<Rightarrow> routing_id (fst s) = routing_id c)"
    "routing_id d = routing_id c \<Longrightarrow> (case recv_coverage (d, bs) of Inl e \<Rightarrow> routing_id e = routing_id c | Inr s \<Rightarrow> routing_id (fst s) = routing_id c)"
    "routing_id d = routing_id c \<Longrightarrow> (case recv_query (d, bs) of Inl e \<Rightarrow> routing_id e = routing_id c | Inr s \<Rightarrow> routing_id (fst s) = routing_id c)"
    "routing_id d = routing_id c \<Longrightarrow> (case recv_result (d, bs) of Inl e \<Rightarrow> routing_id e = routing_id c | Inr s \<Rightarrow> routing_id (fst s) = routing_id c)"
    "routing_id d = routing_id c \<Longrightarrow> (case recv_error (d, bs) of Inl e \<Rightarrow> routing_id e = routing_id c | Inr s \<Rightarrow> routing_id (fst s) = routing_id c)"
    for d bs
    unfolding recv_hello_def recv_coverage_def recv_query_def recv_result_def recv_error_def
    by (intro I; simp)+
  have "routing_id (fst (snd (recv_body d bs rcv sk))) = routing_id c" if "routing_id d = routing_id c" for d bs rcv sk
    using F(1-3,5) [OF that, of bs, THEN finish_ok [where P = "\<lambda>d. routing_id d = routing_id c"]] F(4) [OF that, of bs] that
    by (auto simp: recv_body_def recv_payload_def split: sum.splits prod.splits)
  then have "routing_id (fst (snd (recv_frame c sk))) = routing_id c"
    by (auto simp: recv_frame_def recv_part_def split: option.splits list.splits)
  then show "recv_frame c sk = (rc, c', sk') \<Longrightarrow> routing_id c' = routing_id c" by simp
qed

lemma recv_router_routing:
  assumes "tpq_codec_recv c sk = (rc, c', sk')" "sock_type sk = ROUTER" "rc \<noteq> -1"
  shows "routing_id c' \<noteq> None"
  using assms by (auto simp: tpq_codec_recv_def split: option.splits if_splits dest!: recv_frame_routing)

lemma client_of_sender_pending:
  assumes i: "pending_inv s" and p: "client_of_sender x rid s = (p, s')"
  shows "pending_inv s'"
proof (cases "clients s (strhex x rid)")
  case None
  then have h: "\<exists>c. heap s' = (heap s)(next_ptr s \<mapsto> c)" "next_ptr s' = Suc (next_ptr s)" "pending s' = pending s"
    using p by (auto simp: client_of_sender_def s_client_new_def Let_def)
  have "\<forall>req\<in>set (requests (pending s)). heap s' (rq_client req) = heap s (rq_client req) \<and>
      rq_client req < next_ptr s'"
    using i h by (auto simp: pending_inv_def)
  then show ?thesis using i h(3)
    by (simp add: pending_inv_def pending_sorted_def request_alive_def request_freed_def)
qed (use assms in \<open>simp add: client_of_sender_def\<close>)

lemma protocol_iteration_total:
  assumes "server_inv x s"
  shows "\<exists>s' go. protocol_iteration x s = Inr (s', go) \<and> server_inv x s' \<and>
    iq s' = iq s \<and> payloads s' = payloads s \<and> (pending_inv s \<longrightarrow> pending_inv s')"
proof -
  obtain rc m sk where r: "tpq_codec_recv (message s) (router s) = (rc, m, sk)" by (metis prod_cases3)
  let ?s1 = "s\<lparr>message := m, router := sk\<rparr>"
  have st: "sock_type (router s) = ROUTER" "codec_ok (message s)" using assms by (simp_all add: server_inv_def)
  have "codec_ok m" using recv_codec_ok [OF st(2), of "router s"] r by simp
  moreover have "sock_type sk = ROUTER" using recv_socket [OF r] st by simp
  ultimately have i1: "server_inv x ?s1"
    using assms by (auto simp: server_inv_def keys_inv_def client_inv_def table_inv_def next_of_def)
  have pi1: "pending_inv s \<Longrightarrow> pending_inv ?s1" by (erule pending_inv_cong) simp_all
  show ?thesis
  proof (cases "rc = -1")
    case True
    then show ?thesis using i1 r
      by (intro exI [of _ ?s1] exI [of _ False]) (simp add: protocol_iteration_def pi1)
  next
    case False
    obtain rid where rid: "routing_id m = Some rid" using recv_router_routing [OF r st(1) False] by auto
    obtain p s2 where p: "client_of_sender x rid ?s1 = (p, s2)" by fastforce
    note S = client_of_sender_inv [OF i1 p]
    obtain c where c: "heap s2 p = Some c" using S(4) by blast
    obtain s3 where s3: "s_client_execute x p (s_protocol_event m) s2 = Inr s3" "executed p s2 s3" "server_inv x s3"
      using execute_server_inv [OF S(1) c] by blast
    have "pending_inv s \<longrightarrow> pending_inv s2 \<and> pending_inv s3"
      using execute_pending_inv [OF _ c _ s3(1)] client_of_sender_pending [OF _ p] pi1 S(1)
      by (simp add: server_inv_def)
    then show ?thesis using False r rid p s3 S(1,5)
      by (intro exI [of _ "if rc = -2 then s2 else s3"] exI [of _ True])
        (simp add: protocol_iteration_def Let_def executed_def)
  qed
qed

lemma handle_protocol_total:
  assumes "server_inv x s"
  shows "\<exists>rc s'. s_server_handle_protocol x s = Inr (rc, s') \<and> server_inv x s' \<and>
    iq s' = iq s \<and> payloads s' = payloads s \<and> (rc = 0 \<longrightarrow> inbound (router s') = []) \<and>
    (pending_inv s \<longrightarrow> pending_inv s')"
  using assms
proof (induction "length (inbound (router s))" arbitrary: s rule: less_induct)
  case less
  show ?case
  proof (cases "inbound (router s) = []")
    case True
    then show ?thesis using less.prems by (subst s_server_handle_protocol.simps) simp
  next
    case False
    obtain s1 go where s1: "protocol_iteration x s = Inr (s1, go)" "server_inv x s1"
      "iq s1 = iq s" "payloads s1 = payloads s" "pending_inv s \<longrightarrow> pending_inv s1"
      using protocol_iteration_total [OF less.prems] by blast
    show ?thesis
    proof (cases go)
      case True
      obtain rc s' where "s_server_handle_protocol x s1 = Inr (rc, s')" "server_inv x s'"
        "iq s' = iq s1" "payloads s' = payloads s1" "rc = 0 \<longrightarrow> inbound (router s') = []"
        "pending_inv s1 \<longrightarrow> pending_inv s'"
        using less.hyps [OF protocol_iteration_length [OF s1(1) False] s1(2)] by blast
      then show ?thesis using False s1 True by (subst s_server_handle_protocol.simps) simp
    next
      case go: False
      then show ?thesis using False s1 by (subst s_server_handle_protocol.simps) simp
    qed
  qed
qed

section \<open>One message end to end\<close>

text \<open>The state in which the sender's client meets the message: a new client starts.\<close>

definition sender_state :: "extern \<Rightarrow> frame \<Rightarrow> server \<Rightarrow> state_t" where
  "sender_state x rid s = (case clients s (strhex x rid) of None \<Rightarrow> start_state
     | Some p \<Rightarrow> (case heap s p of None \<Rightarrow> start_state | Some c \<Rightarrow> cl_state c))"

lemma s_protocol_event_not_null: "s_protocol_event m \<noteq> NULL_event"
  by (simp add: s_protocol_event_def)

text \<open>A message received without complaint goes to the client of its sender, as the event that the
  codec's id stands for.\<close>

lemma received_reaction:
  assumes inv: "server_inv x s" and inj: "inj (strhex x)"
    and r: "tpq_codec_recv (message s) (router s) = (0, m1, sk)" and rid: "routing_id m1 = Some rid"
    and so1: "outbound sk = outbound (router s)"
  shows "\<exists>s'. protocol_iteration x s = Inr (s', True) \<and> server_inv x s' \<and> inbound (router s') = inbound sk \<and>
    sent_to rid (fst (reaction x (s\<lparr>message := m1\<rparr>) (sender_state x rid s) (s_protocol_event m1))) s s' \<and>
    (case snd (reaction x (s\<lparr>message := m1\<rparr>) (sender_state x rid s) (s_protocol_event m1)) of
       None \<Rightarrow> clients s' (strhex x rid) = None
     | Some st \<Rightarrow> sender_state x rid s' = st)"
proof -
  let ?s1 = "s\<lparr>message := m1, router := sk\<rparr>"
  have st: "sock_type (router s) = ROUTER" "codec_ok (message s)" using inv by (simp_all add: server_inv_def)
  have m1: "codec_ok m1" "sock_type sk = ROUTER"
    using recv_codec_ok [OF st(2), of "router s"] recv_socket [OF r] r st(1) by simp_all
  have i1: "server_inv x ?s1"
    using inv m1 by (auto simp: server_inv_def keys_inv_def client_inv_def table_inv_def next_of_def)
  obtain p s2 where p: "client_of_sender x rid ?s1 = (p, s2)" by fastforce
  note S = client_of_sender_inv [OF i1 p]
  obtain d where d: "heap s2 p = Some d" "cl_hashkey d = strhex x rid"
    "if clients s (strhex x rid) = None then cl_state d = start_state \<and> cl_routing_id d = rid
     else heap s p = Some d \<and> clients s (strhex x rid) = Some p"
    using S(4) by (cases "clients s (strhex x rid)") auto
  have ss: "sender_state x rid s = cl_state d"
    using d(3) by (auto simp: sender_state_def split: if_splits)
  have "strhex x (cl_routing_id d) = strhex x rid"
    using S(1) d(1,2) by (simp add: server_inv_def keys_inv_def)
  then have dr: "cl_routing_id d = rid" using inj by (simp add: inj_eq)
  obtain s3 where s3: "s_client_execute x p (s_protocol_event m1) s2 = Inr s3" "executed p s2 s3" "server_inv x s3"
    using execute_server_inv [OF S(1) d(1)] by blast
  have c2: "client_inv s2" "sock_type (router s2) = ROUTER" using S(1) by (simp_all add: server_inv_def)
  note X = execute_reaction [OF c2(1) d(1) s_protocol_event_not_null c2(2) s3(1)]
  have rx: "reaction x s2 st e = reaction x (s\<lparr>message := m1\<rparr>) st e" for st e
    using S(2,5) by (simp add: reaction_def reaction_rest_def verdict_reaction_def verdict_def matching_frames_def Let_def)
  have so: "sent_to rid q s2 s3 = sent_to rid q s s3" for q
    using S(3) so1 by (simp add: sent_to_def split: option.splits)
  have gone: "clients s3 (strhex x rid) = None" if "heap s3 p = None"
  proof (rule ccontr)
    assume "clients s3 (strhex x rid) \<noteq> None"
    then obtain q where q: "clients s3 (strhex x rid) = Some q" by auto
    have t3: "table_inv s3" "table_inv s2" using s3(3) c2(1) by (simp_all add: server_inv_def client_inv_def)
    obtain e where e: "heap s3 q = Some e" "cl_hashkey e = strhex x rid" using table_invD(2) [OF t3(1) q] by blast
    have "q \<noteq> p" using e that by auto
    then have "heap s2 q = Some e" using e s3(2) by (simp add: executed_def)
    then show False using table_invD(1) [OF t3(2)] d(1,2) e(2) \<open>q \<noteq> p\<close> by (metis option.inject)
  qed
  have stays: "sender_state x rid s3 = cl_state c'" if "heap s3 p = Some c'" for c'
  proof -
    have t3: "table_inv s3" using s3(3) by (simp add: server_inv_def client_inv_def)
    have "cl_hashkey c' = strhex x rid" using s3(2) that d by (auto simp: executed_def)
    then show ?thesis using table_invD(1) [OF t3 that] that by (simp add: sender_state_def)
  qed
  have ev: "protocol_iteration x s = Inr (s3, True)"
    using r p s3(1) rid by (simp add: protocol_iteration_def Let_def)
  have ib: "inbound (router s3) = inbound sk" using s3(2) S(3) by (simp add: executed_def)
  show ?thesis
    using ev s3(3) ib X dr ss gone stays
    by (intro exI [of _ s3]) (auto simp: rx so split: option.splits)
qed

lemma message_received:
  assumes inv: "server_inv x s" and m: "message_of c = Some m" "codec_ok c"
    and i: "inbound (router s) = (rid, True) # message_parts c @ ps"
  shows "\<exists>m1. tpq_codec_recv (message s) (router s) = (0, m1, (router s)\<lparr>inbound := ps\<rparr>) \<and>
    routing_id m1 = Some rid \<and> message_of m1 = Some m \<and> codec_ok m1"
proof -
  have st: "sock_type (router s) = ROUTER" "codec_ok (message s)" using inv by (simp_all add: server_inv_def)
  let ?sk = "(router s)\<lparr>inbound := message_parts c @ ps\<rparr>"
  have "codec_ok ((message s)\<lparr>routing_id := Some rid\<rparr>)" using st by simp
  from recv_delivered [OF m this, of ?sk ps]
  obtain m1 where f: "recv_frame ((message s)\<lparr>routing_id := Some rid\<rparr>) ?sk = (0, m1, ?sk\<lparr>inbound := ps\<rparr>)"
    and m1: "received ((message s)\<lparr>routing_id := Some rid\<rparr>) m1 m"
    by (auto split: prod.splits)
  have "tpq_codec_recv (message s) (router s) = (0, m1, (router s)\<lparr>inbound := ps\<rparr>)"
    using f st i by (simp add: tpq_codec_recv_def recv_part_def)
  then show ?thesis using m1 by (simp add: received_def)
qed

lemma protocol_message:
  assumes inv: "server_inv x s" and inj: "inj (strhex x)"
    and m: "message_of c = Some m" "codec_ok c"
    and i: "inbound (router s) = (rid, True) # message_parts c @ ps"
  shows "\<exists>m1 s'. protocol_iteration x s = Inr (s', True) \<and> server_inv x s' \<and> inbound (router s') = ps \<and>
    codec_ok m1 \<and> message_of m1 = Some m \<and>
    sent_to rid (fst (reaction x (s\<lparr>message := m1\<rparr>) (sender_state x rid s) (s_protocol_event m1))) s s' \<and>
    (case snd (reaction x (s\<lparr>message := m1\<rparr>) (sender_state x rid s) (s_protocol_event m1)) of
       None \<Rightarrow> clients s' (strhex x rid) = None
     | Some st \<Rightarrow> sender_state x rid s' = st)"
proof -
  obtain m1 where m1: "tpq_codec_recv (message s) (router s) = (0, m1, (router s)\<lparr>inbound := ps\<rparr>)"
    "routing_id m1 = Some rid" "message_of m1 = Some m" "codec_ok m1"
    using message_received [OF inv m i] by blast
  then show ?thesis using received_reaction [OF inv inj m1(1,2)] by (intro exI [of _ m1]) simp
qed

end
