(* ===== verification/ServerIngest.thy ===== *)
theory ServerIngest
  imports ServerProtocol
begin

text \<open>
  The handler of the ingest socket (\<open>s_server_handle_ingest\<close> of \<open>src/tpq_server.cpp\<close>): it
  slurps the messages that are there into the queue, answers the pending requests whose end
  the queue has reached, and purges the queue when it spans more than its high water mark.
  Its first argument is the list of messages that can be read without waiting.
\<close>

section \<open>The handler\<close>

definition slurp_one :: "extern \<Rightarrow> zmsg \<Rightarrow> server \<Rightarrow> fault + server" where
  "slurp_one x msg s =
     (let p = new_payload x msg
      in if pl_detid p AND own_detmask s = 0 then Inr s
         else bind_fault (payload_interval p) (\<lambda>i.
           Inr (s\<lparr>payloads := payloads s @ [p],
                  iq := immap_plus (iq s) (i, {|length (payloads s)|}),
                  first_seen := if first_seen s = 0 then pl_tstart p else first_seen s,
                  count_check := (count_check s)(pl_detid p \<mapsto> ucast (pl_count p))\<rparr>)))"

primrec slurp :: "extern \<Rightarrow> zmsg list \<Rightarrow> server \<Rightarrow> fault + server" where
  "slurp x [] s = Inr s"
| "slurp x (msg # msgs) s = bind_fault (slurp_one x msg s) (slurp x msgs)"

definition answer_request :: "extern \<Rightarrow> request_t \<Rightarrow> server \<Rightarrow> fault + server" where
  "answer_request x req s = bind_fault (get_client (rq_client req) s) (\<lambda>_.
     engine_send_event x (rq_client req) query_is_satisfied_event
       (s\<lparr>message := tpq_codec_set_status (tpq_codec_set_seqno (message s) (rq_seqno req)) 200\<rparr>))"

primrec answer_requests :: "extern \<Rightarrow> request_t list \<Rightarrow> server \<Rightarrow> fault + server" where
  "answer_requests x [] s = Inr s"
| "answer_requests x (req # reqs) s = bind_fault (answer_request x req s) (answer_requests x reqs)"

text \<open>The loop over the pending requests. No event it sends changes them, so that it runs over the
  requests it started with.\<close>

fun answer_due :: "extern \<Rightarrow> int \<Rightarrow> request_queue \<Rightarrow> server \<Rightarrow> fault + server" where
  "answer_due x queue_end [] s = Inr s"
| "answer_due x queue_end ((tend, reqs) # q) s =
     (if tend > queue_end then Inr s
      else bind_fault (answer_requests x reqs s) (answer_due x queue_end q))"

definition tokill :: "int \<Rightarrow> request_queue \<Rightarrow> int set" where
  "tokill queue_end q = set (map fst (takeWhile (\<lambda>(tend, _). tend \<le> queue_end) q))"

definition erase_dead :: "int set \<Rightarrow> server \<Rightarrow> server" where
  "erase_dead dead s = s\<lparr>pending := filter (\<lambda>(k, _). k \<notin> dead) (pending s)\<rparr>"

text \<open>\<open>qspan > iq_hwm\<close> compares as unsigned, and \<open>queue_end - iq_lwm\<close> is an unsigned subtraction.\<close>

definition maybe_purge :: "int \<Rightarrow> int \<Rightarrow> server \<Rightarrow> fault + server" where
  "maybe_purge queue_beg queue_end s = bind_fault (sub_i64 queue_end queue_beg) (\<lambda>qspan.
     if of_i64 qspan > iq_hwm s
     then let new_beg = to_i64 (of_i64 queue_end - iq_lwm s)
          in Inr (s\<lparr>iq := immap_minus (iq s) (right_open 0 new_beg)\<rparr>)
     else Inr s)"

definition s_server_handle_ingest :: "extern \<Rightarrow> zmsg list \<Rightarrow> server \<Rightarrow> fault + server" where
  "s_server_handle_ingest x msgs s =
     bind_fault (slurp x msgs s) (\<lambda>s.
       let queue_end = upper_map (iq s);
           queue_beg = lower_map (iq s)
       in bind_fault (answer_due x queue_end (pending s) s) (\<lambda>s'.
            maybe_purge queue_beg queue_end (erase_dead (tokill queue_end (pending s)) s')))"

section \<open>Slurping\<close>

definition accepted :: "server \<Rightarrow> payload_t \<Rightarrow> bool" where
  "accepted s p \<longleftrightarrow> pl_detid p AND own_detmask s \<noteq> 0"

definition payload_end_ok :: "payload_t \<Rightarrow> bool" where
  "payload_end_ok p \<longleftrightarrow> is_i64 (pl_tstart p + pl_tspan p)"

definition in_payload :: "int \<Rightarrow> payload_t \<Rightarrow> bool" where
  "in_payload t p \<longleftrightarrow> pl_tstart p \<le> t \<and> t < pl_tstart p + pl_tspan p"

definition incoming :: "extern \<Rightarrow> zmsg list \<Rightarrow> server \<Rightarrow> payload_t list" where
  "incoming x msgs s = filter (accepted s) (map (new_payload x) msgs)"

lemma accepted_cong: "own_detmask t = own_detmask s \<Longrightarrow> accepted t = accepted s"
  by (simp add: accepted_def fun_eq_iff)

lemma slurp_one_run:
  "slurp_one x msg s = (let p = new_payload x msg in
     if \<not> accepted s p then Inr s
     else if payload_end_ok p then
       Inr (s\<lparr>payloads := payloads s @ [p],
              iq := queue_put (iq s) (pl_tstart p) (pl_tstart p + pl_tspan p) {|length (payloads s)|},
              first_seen := if first_seen s = 0 then pl_tstart p else first_seen s,
              count_check := (count_check s)(pl_detid p \<mapsto> ucast (pl_count p))\<rparr>)
     else Inl SignedOverflow)"
  by (simp add: slurp_one_def Let_def accepted_def payload_end_ok_def payload_interval_def add_i64_def
      queue_put_def)

lemma slurp_frame:
  "slurp x msgs s = Inr s' \<Longrightarrow> heap s' = heap s \<and> clients s' = clients s \<and> zombies s' = zombies s \<and>
     pending s' = pending s \<and> next_ptr s' = next_ptr s \<and> message s' = message s \<and> router s' = router s \<and>
     own_detmask s' = own_detmask s \<and> iq_lwm s' = iq_lwm s \<and> iq_hwm s' = iq_hwm s"
  by (induction msgs arbitrary: s)
    (auto simp: slurp_one_run Let_def elim!: bind_fault_InrE split: if_splits)

lemma slurp_fails:
  "(\<exists>s'. slurp x msgs s = Inr s') \<longleftrightarrow> (\<forall>p\<in>set (incoming x msgs s). payload_end_ok p)"
proof (induction msgs arbitrary: s)
  case (Cons m ms)
  have "accepted (s\<lparr>payloads := a, iq := b, first_seen := c, count_check := d\<rparr>) = accepted s" for a b c d
    by (rule accepted_cong) simp
  then show ?case
    using Cons.IH by (auto simp: slurp_one_run Let_def incoming_def)
qed (simp add: incoming_def)

lemma slurp_queue:
  assumes "slurp x msgs s = Inr s'" "queue_inv (iq s)"
  shows "queue_inv (iq s') \<and> payloads s' = payloads s @ incoming x msgs s \<and>
    (\<forall>i t. i |\<in>| queue_at (iq s') t \<longleftrightarrow> i |\<in>| queue_at (iq s) t \<or>
       (length (payloads s) \<le> i \<and> i < length (payloads s') \<and> in_payload t (payloads s' ! i)))"
  using assms
proof (induction msgs arbitrary: s)
  case Nil
  then show ?case by (auto simp: incoming_def)
next
  case (Cons m ms)
  let ?p = "new_payload x m" and ?n = "length (payloads s)"
  obtain s1 where s1: "slurp_one x m s = Inr s1" "slurp x ms s1 = Inr s'"
    using Cons.prems(1) by (auto elim: bind_fault_InrE)
  show ?case
  proof (cases "accepted s ?p")
    case False
    then have "s1 = s" "incoming x (m # ms) s = incoming x ms s"
      using s1(1) by (simp_all add: slurp_one_run Let_def incoming_def)
    then show ?thesis using Cons.IH [OF s1(2)] Cons.prems(2) by simp
  next
    case True
    let ?q = "queue_put (iq s) (pl_tstart ?p) (pl_tstart ?p + pl_tspan ?p) {|?n|}"
    have e: "iq s1 = ?q" "payloads s1 = payloads s @ [?p]" "own_detmask s1 = own_detmask s"
      using s1(1) True by (auto simp: slurp_one_run Let_def split: if_splits)
    have inc: "incoming x (m # ms) s = ?p # incoming x ms s1"
      using True accepted_cong [OF e(3)] by (simp add: incoming_def)
    have qi: "queue_inv (iq s1)" using e(1) Cons.prems(2) store.inv_put by simp
    have at: "i |\<in>| queue_at (iq s1) t \<longleftrightarrow> i |\<in>| queue_at (iq s) t \<or> (i = ?n \<and> in_payload t ?p)" for i t
      using store.at_put [OF Cons.prems(2)] by (auto simp: e(1) in_payload_def)
    note IH = Cons.IH [OF s1(2) qi]
    have pl: "payloads s' = payloads s @ incoming x (m # ms) s" using IH e(2) inc by simp
    then have "payloads s' ! ?n = ?p" "?n < length (payloads s')" using inc by simp_all
    then have "i |\<in>| queue_at (iq s') t \<longleftrightarrow> i |\<in>| queue_at (iq s) t \<or>
       (?n \<le> i \<and> i < length (payloads s') \<and> in_payload t (payloads s' ! i))" for i t
      using IH at [of i t] e(2) by (cases "i = ?n") auto
    then show ?thesis using IH pl by blast
  qed
qed

section \<open>Answering the pending requests\<close>

text \<open>Several messages put on the router, each behind the routing id of its client.\<close>

definition replies_sent :: "(frame \<times> message) list \<Rightarrow> server \<Rightarrow> server \<Rightarrow> bool" where
  "replies_sent rs s s' \<longleftrightarrow> (\<exists>ms. map (\<lambda>(rid, m). (rid, message_of m)) ms = map (\<lambda>(rid, r). (rid, Some r)) rs \<and>
     outbound (router s') = outbound (router s) @ concat (map (\<lambda>(rid, m). (rid, True) # message_parts m) ms))"

lemma replies_sent_Nil: "outbound (router s') = outbound (router s) \<Longrightarrow> replies_sent [] s s'"
  by (simp add: replies_sent_def)

lemma replies_sent_Cons:
  assumes "sent_to rid (Some r) s t" "replies_sent rs t u"
  shows "replies_sent ((rid, r) # rs) s u"
proof -
  obtain m where m: "message_of m = Some r" "outbound (router t) = outbound (router s) @ (rid, True) # message_parts m"
    using assms(1) by (auto simp: sent_to_def)
  obtain ms where ms: "map (\<lambda>(rid, m). (rid, message_of m)) ms = map (\<lambda>(rid, r). (rid, Some r)) rs"
    "outbound (router u) = outbound (router t) @ concat (map (\<lambda>(rid, m). (rid, True) # message_parts m) ms)"
    using assms(2) by (auto simp: replies_sent_def)
  show ?thesis unfolding replies_sent_def
    by (intro exI [of _ "(rid, m) # ms"]) (simp add: m ms)
qed

lemma replies_sent_append:
  assumes "replies_sent rs s t" "replies_sent rs' t u"
  shows "replies_sent (rs @ rs') s u"
proof -
  obtain ms where ms: "map (\<lambda>(rid, m). (rid, message_of m)) ms = map (\<lambda>(rid, r). (rid, Some r)) rs"
    "outbound (router t) = outbound (router s) @ concat (map (\<lambda>(rid, m). (rid, True) # message_parts m) ms)"
    using assms(1) by (auto simp: replies_sent_def)
  obtain ms' where ms': "map (\<lambda>(rid, m). (rid, message_of m)) ms' = map (\<lambda>(rid, r). (rid, Some r)) rs'"
    "outbound (router u) = outbound (router t) @ concat (map (\<lambda>(rid, m). (rid, True) # message_parts m) ms')"
    using assms(2) by (auto simp: replies_sent_def)
  show ?thesis unfolding replies_sent_def by (intro exI [of _ "ms @ ms'"]) (simp add: ms ms')
qed

definition satisfied_client :: "s_client \<Rightarrow> s_client" where
  "satisfied_client c = begin_event (c\<lparr>cl_next_event := query_is_satisfied_event, cl_wakeup := False\<rparr>)"

lemma satisfied_client_simps [simp]:
  "cl_state (satisfied_client c) = cl_state c" "cl_routing_id (satisfied_client c) = cl_routing_id c"
  "cl_hashkey (satisfied_client c) = cl_hashkey c" "cl_next_event (satisfied_client c) = NULL_event"
  by (simp_all add: satisfied_client_def)

lemma satisfied_run:
  assumes "heap s p = Some c" "cl_state c = connected_state"
  shows "s_client_execute x p query_is_satisfied_event s =
    Inr (reply c TPQ_CODEC_RESULT (set_payload x (put_client p (satisfied_client c) s)))"
proof -
  let ?c = "c\<lparr>cl_next_event := query_is_satisfied_event, cl_wakeup := False\<rparr>"
  let ?b = "begin_execute p query_is_satisfied_event c s"
  have hb: "heap ?b p = Some ?c" by (simp add: begin_execute_def frame_simps)
  have r: "reply (satisfied_client c) i = reply c i" for i by (simp add: reply_def fun_eq_iff Let_def)
  have p: "pass x p ?c ?b = reply c TPQ_CODEC_RESULT (set_payload x (put_client p (satisfied_client c) s))"
    using assms(2) r [unfolded satisfied_client_def]
    by (simp add: pass_def react_def Let_def satisfied_client_def begin_execute_def)
  have hp: "heap (pass x p ?c ?b) p = Some (satisfied_client c)" by (simp add: p frame_simps)
  show ?thesis
    using execute_run [OF assms(1)] loop_step [OF hb] assms(2) hp loop_done [OF hp]
    by (simp add: next_of_def p)
qed

definition rid_of :: "server \<Rightarrow> client_ptr \<Rightarrow> frame" where
  "rid_of s p = (case heap s p of None \<Rightarrow> [] | Some c \<Rightarrow> cl_routing_id c)"

text \<open>The reply to a pending request: the interval is the one of the message the server holds.\<close>

definition request_reply :: "extern \<Rightarrow> server \<Rightarrow> request_t \<Rightarrow> frame \<times> message" where
  "request_reply x s req = (rid_of s (rq_client req), Result (rq_seqno req) 200 (matching_frames x (message s) s))"

text \<open>What answering requests does not change.\<close>

definition answered :: "extern \<Rightarrow> server \<Rightarrow> server \<Rightarrow> bool" where
  "answered x s t \<longleftrightarrow> server_inv x t \<and> iq t = iq s \<and> payloads t = payloads s \<and> pending t = pending s \<and>
     inbound (router t) = inbound (router s) \<and> iq_hwm t = iq_hwm s \<and> iq_lwm t = iq_lwm s \<and>
     own_detmask t = own_detmask s \<and> rid_of t = rid_of s \<and> request_alive t = request_alive s \<and>
     request_freed t = request_freed s \<and> next_ptr t = next_ptr s \<and> request_reply x t = request_reply x s"

lemma answer_request_run:
  assumes i: "server_inv x s" and a: "request_alive s req"
  shows "\<exists>t. answer_request x req s = Inr t \<and> answered x s t \<and>
    sent_to (fst (request_reply x s req)) (Some (snd (request_reply x s req))) s t"
proof -
  obtain c where c: "heap s (rq_client req) = Some c" "cl_state c = connected_state"
    using a by (auto simp: request_alive_def)
  let ?p = "rq_client req"
  let ?m = "(message s)\<lparr>seqno := rq_seqno req, status := 200\<rparr>"
  let ?s = "s\<lparr>message := ?m\<rparr>"
  let ?u = "put_client ?p (satisfied_client c) ?s"
  let ?t = "reply c TPQ_CODEC_RESULT (set_payload x ?u)"
  have hs: "heap ?s ?p = Some c" using c by simp
  have ex: "s_client_execute x ?p query_is_satisfied_event ?s = Inr ?t" using satisfied_run [OF hs c(2)] .
  have inv: "server_inv x ?s"
    using i by (auto simp: server_inv_def keys_inv_def client_inv_def table_inv_def next_of_def)
  have run: "answer_request x req s = Inr ?t"
    using ex c by (simp add: answer_request_def engine_send_event_def get_client_def codec_setters)
  have mf: "matching_frames x m u = matching_frames x (message s) s"
    if "iq u = iq s" "payloads u = payloads s" "tstart m = tstart (message s)" "tspan m = tspan (message s)" for m u
    using that by (simp add: matching_frames_def query_beg_def query_end_def)
  have "sock_type (router ?u) = ROUTER" using i by (simp add: server_inv_def frame_simps)
  from replies(7) [OF this, of c x]
  have st: "sent_to (cl_routing_id c) (Some (Result (rq_seqno req) 200 (matching_frames x (message s) s))) s ?t"
    using mf [of ?u ?m] by (simp add: frame_simps sent_to_frame(1) [of ?u s])
  have tt: "tstart (message ?t) = tstart (message s)" "tspan (message ?t) = tspan (message s)"
    by (simp_all add: reply_def Let_def set_payload_eq frame_simps)
  have ht: "heap ?t = (heap s)(?p \<mapsto> satisfied_client c)" by (simp add: frame_simps)
  have hw: "iq_hwm ?t = iq_hwm s" "iq_lwm ?t = iq_lwm s" "own_detmask ?t = own_detmask s"
    by (simp_all add: reply_def Let_def set_payload_eq put_client_def)
  have rd: "rid_of ?t = rid_of s" using c by (auto simp: rid_of_def ht fun_eq_iff)
  moreover have "request_alive ?t = request_alive s" using c by (auto simp: request_alive_def ht fun_eq_iff)
  moreover have "request_freed ?t = request_freed s" using c by (auto simp: request_freed_def ht fun_eq_iff)
  moreover have "request_reply x ?t = request_reply x s"
    using rd tt mf [of ?t "message ?t"] by (simp add: request_reply_def fun_eq_iff frame_simps)
  moreover have "server_inv x ?t" using execute_server_inv [OF inv hs, of query_is_satisfied_event] ex by auto
  ultimately have "answered x s ?t" using hw by (simp add: answered_def frame_simps)
  then show ?thesis using run st c by (auto simp: request_reply_def rid_of_def)
qed

lemma answered_trans: "answered x s t \<Longrightarrow> answered x t u \<Longrightarrow> answered x s u"
  by (simp add: answered_def)

lemma answer_requests_run:
  assumes "server_inv x s" "\<forall>req\<in>set reqs. request_alive s req"
  shows "\<exists>t. answer_requests x reqs s = Inr t \<and> answered x s t \<and> replies_sent (map (request_reply x s) reqs) s t"
  using assms
proof (induction reqs arbitrary: s)
  case Nil
  then show ?case by (simp add: replies_sent_Nil answered_def)
next
  case (Cons req reqs)
  obtain t where t: "answer_request x req s = Inr t" "answered x s t"
    "sent_to (fst (request_reply x s req)) (Some (snd (request_reply x s req))) s t"
    using answer_request_run [OF Cons.prems(1), of req] Cons.prems(2) by auto
  have "server_inv x t" "\<forall>req\<in>set reqs. request_alive t req"
    using t(2) Cons.prems(2) by (simp_all add: answered_def)
  from Cons.IH [OF this] obtain u where u: "answer_requests x reqs t = Inr u" "answered x t u"
    "replies_sent (map (request_reply x t) reqs) t u" by blast
  have "request_reply x t = request_reply x s" using t(2) by (simp add: answered_def)
  then have "replies_sent (map (request_reply x s) (req # reqs)) s u"
    using replies_sent_Cons [OF t(3)] u(3) by simp
  then show ?case using t(1) u(1) answered_trans [OF t(2) u(2)] by simp
qed

definition due_requests :: "int \<Rightarrow> request_queue \<Rightarrow> request_t list" where
  "due_requests queue_end q = concat (map snd (takeWhile (\<lambda>(tend, _). tend \<le> queue_end) q))"

lemma answer_due_run:
  assumes "server_inv x s" "\<forall>req\<in>set (due_requests queue_end q). request_alive s req"
  shows "\<exists>t. answer_due x queue_end q s = Inr t \<and> answered x s t \<and>
    replies_sent (map (request_reply x s) (due_requests queue_end q)) s t"
  using assms
proof (induction q arbitrary: s)
  case Nil
  then show ?case by (simp add: replies_sent_Nil answered_def due_requests_def)
next
  case (Cons e q)
  obtain tend reqs where e: "e = (tend, reqs)" by fastforce
  show ?case
  proof (cases "tend \<le> queue_end")
    case False
    then show ?thesis using Cons.prems by (simp add: e replies_sent_Nil answered_def due_requests_def)
  next
    case True
    then have d: "due_requests queue_end (e # q) = reqs @ due_requests queue_end q" by (simp add: e due_requests_def)
    obtain t where t: "answer_requests x reqs s = Inr t" "answered x s t"
      "replies_sent (map (request_reply x s) reqs) s t"
      using answer_requests_run [OF Cons.prems(1), of reqs] Cons.prems(2) d by auto
    have "server_inv x t" "\<forall>req\<in>set (due_requests queue_end q). request_alive t req"
      using t(2) Cons.prems(2) d by (simp_all add: answered_def)
    from Cons.IH [OF this] obtain u where u: "answer_due x queue_end q t = Inr u" "answered x t u"
      "replies_sent (map (request_reply x t) (due_requests queue_end q)) t u" by blast
    have "request_reply x t = request_reply x s" using t(2) by (simp add: answered_def)
    then show ?thesis using True t u answered_trans [OF t(2) u(2)] replies_sent_append [OF t(3)] d e by simp
  qed
qed

section \<open>A request whose client is gone\<close>

lemma answer_requests_freed:
  assumes "server_inv x s" "\<forall>req\<in>set reqs. request_alive s req \<or> request_freed s req"
    "\<exists>req\<in>set reqs. request_freed s req"
  shows "answer_requests x reqs s = Inl UseAfterFree"
  using assms
proof (induction reqs arbitrary: s)
  case (Cons req reqs)
  show ?case
  proof (cases "request_freed s req")
    case True
    then show ?thesis by (simp add: answer_request_def request_freed_def get_client_def)
  next
    case False
    then obtain t where t: "answer_request x req s = Inr t" "answered x s t" "server_inv x t"
      using answer_request_run [OF Cons.prems(1), of req] Cons.prems(2) by (auto simp: answered_def)
    have "\<forall>r\<in>set reqs. request_alive t r \<or> request_freed t r" "\<exists>r\<in>set reqs. request_freed t r"
      using Cons.prems(2,3) t(2) False by (auto simp: answered_def)
    then show ?thesis using Cons.IH [OF t(3)] t(1) by simp
  qed
qed simp

lemma answer_due_freed:
  assumes "server_inv x s" "\<forall>req\<in>set (due_requests queue_end q). request_alive s req \<or> request_freed s req"
    "\<exists>req\<in>set (due_requests queue_end q). request_freed s req"
  shows "answer_due x queue_end q s = Inl UseAfterFree"
  using assms
proof (induction q arbitrary: s)
  case (Cons e q)
  obtain tend reqs where e: "e = (tend, reqs)" by fastforce
  have k: "tend \<le> queue_end" using Cons.prems(3) by (auto simp: e due_requests_def split: if_splits)
  then have d: "due_requests queue_end (e # q) = reqs @ due_requests queue_end q" by (simp add: e due_requests_def)
  show ?case
  proof (cases "\<exists>req\<in>set reqs. request_freed s req")
    case True
    have "answer_requests x reqs s = Inl UseAfterFree"
      using answer_requests_freed [OF Cons.prems(1) _ True] Cons.prems(2) d by auto
    then show ?thesis using k e by simp
  next
    case False
    then have al: "\<forall>req\<in>set reqs. request_alive s req" using Cons.prems(2) d by auto
    obtain t where t: "answer_requests x reqs s = Inr t" "answered x s t"
      using answer_requests_run [OF Cons.prems(1) al] by blast
    have a: "request_alive t = request_alive s" "server_inv x t" "request_freed t = request_freed s"
      using t(2) by (simp_all add: answered_def)
    have "answer_due x queue_end q t = Inl UseAfterFree"
      using Cons.IH [OF a(2)] Cons.prems(2,3) d a False by auto
    then show ?thesis using k e t by simp
  qed
qed (simp add: due_requests_def)

text \<open>A client that says goodbye, or expires, takes no request of its own along.\<close>

lemma leaving_keeps_pending:
  assumes i: "client_inv s" and h: "heap s p = Some c" and e: "e = goodbye_event \<or> e = expired_event"
    and s': "s_client_execute x p e s = Inr s'"
  shows "pending s' = pending s \<and> heap s' p = None"
proof -
  let ?b = "begin_execute p e c s" and ?c = "c\<lparr>cl_next_event := e, cl_wakeup := False\<rparr>"
  have ia: "client_inv_at p s" using i client_inv_at_iff by blast
  note D = client_inv_atD [OF ia h]
  have hb: "heap ?b p = Some ?c" "heap ?b = (heap s)(p \<mapsto> ?c)" by (simp_all add: begin_execute_def frame_simps)
  have bi: "client_inv_at p ?b"
    by (rule client_inv_at_put [OF ia h hb(2)]) (use D in \<open>simp_all add: begin_execute_def frame_simps\<close>)
  let ?t = "pass x p ?c ?b"
  have r: "pending (react x p d u) = pending u \<and> next_of p (react x p d u) = terminate_event"
    if "cl_event d = e" "cl_state d \<noteq> zombie_state" for d u
    using that e by (cases "cl_state d") (auto simp: react_def Let_def frame_simps next_of_def)
  have t: "pending ?t = pending s" "next_of p ?t = terminate_event"
    using r [of "begin_event ?c" "put_client p (begin_event ?c) ?b"] D
    by (simp_all add: pass_def frame_simps begin_execute_def)
  obtain st n where hq: "heap ?t = (heap ?b)(p \<mapsto> (begin_event ?c)\<lparr>cl_state := st, cl_next_event := n\<rparr>)"
    "st = zombie_state \<longrightarrow> cl_state ?c = zombie_state"
    by (rule pass_client [of x p ?c ?b])
  have ti: "client_inv_at p ?t"
    by (rule client_inv_at_put [OF bi hb(1) hq(1)])
      (use hq(2) D in \<open>simp_all add: frame_simps begin_execute_def\<close>)
  have "e \<noteq> NULL_event" using e by auto
  then have "client_loop x p ?b = clients_delete (cl_hashkey c) ?t"
    using loop_step [OF hb(1), of x] D t(2) by simp
  then have "s' = drop_client p (cl_hashkey c) ?t"
    using clients_delete_run [OF ti, of p] hq(1) s' execute_run [OF h] by simp
  then show ?thesis using t(1) by (simp add: frame_simps)
qed

section \<open>Purging\<close>

lemma maybe_purge_run:
  assumes "is_i64 (queue_end - queue_beg)"
  shows "maybe_purge queue_beg queue_end s =
    Inr (if of_i64 (queue_end - queue_beg) > iq_hwm s
         then s\<lparr>iq := queue_cut (iq s) 0 (to_i64 (of_i64 queue_end - iq_lwm s))\<rparr> else s)"
  using assms by (simp add: maybe_purge_def sub_i64_def Let_def queue_cut_def)

lemma server_inv_cong:
  assumes "server_inv x s" "heap t = heap s" "clients t = clients s" "next_ptr t = next_ptr s"
    "message t = message s" "router t = router s"
  shows "server_inv x t"
proof -
  have "server_inv x t = server_inv x s"
    unfolding server_inv_def keys_inv_def client_inv_def table_inv_def next_of_def by (simp only: assms(2-6))
  then show ?thesis using assms(1) by simp
qed

lemma erase_dead_pending:
  assumes "sorted_wrt (<) (map fst q)"
  shows "filter (\<lambda>(k, _). k \<notin> tokill queue_end q) q = filter (\<lambda>(k, _). queue_end < k) q"
proof -
  have t: "takeWhile (\<lambda>(tend, _). tend \<le> queue_end) q = filter (\<lambda>(k, _). k \<le> queue_end) q"
    using assms
  proof (induction q)
    case (Cons e q)
    obtain a b where e: "e = (a, b)" by fastforce
    show ?case
    proof (cases "a \<le> queue_end")
      case False
      then have "filter (\<lambda>(k, _). k \<le> queue_end) q = []"
        using Cons.prems by (force simp: e filter_empty_conv)
      then show ?thesis using False by (simp add: e)
    qed (use Cons in \<open>simp add: e\<close>)
  qed simp
  have "k \<in> tokill queue_end q \<longleftrightarrow> k \<le> queue_end" if "(k, r) \<in> set q" for k r
    using that unfolding tokill_def t by force
  then show ?thesis by (intro filter_cong refl) force
qed

section \<open>The whole handler\<close>

lemma ingest_run:
  assumes i: "server_inv x s" and q: "queue_inv (iq s)" and so: "pending_sorted s"
    and sl: "slurp x msgs s = Inr s1"
    and al: "\<forall>req\<in>set (due_requests (upper_map (iq s1)) (pending s)). request_alive s req"
    and sp: "is_i64 (upper_map (iq s1) - lower_map (iq s1))"
  shows "\<exists>s'. s_server_handle_ingest x msgs s = Inr s' \<and> server_inv x s' \<and> queue_inv (iq s') \<and>
    payloads s' = payloads s @ incoming x msgs s \<and> inbound (router s') = inbound (router s) \<and>
    replies_sent (map (request_reply x s1) (due_requests (upper_map (iq s1)) (pending s))) s s' \<and>
    pending s' = filter (\<lambda>(k, _). upper_map (iq s1) < k) (pending s) \<and>
    iq s' = (if of_i64 (upper_map (iq s1) - lower_map (iq s1)) > iq_hwm s
             then queue_cut (iq s1) 0 (to_i64 (of_i64 (upper_map (iq s1)) - iq_lwm s)) else iq s1) \<and>
    (pending_inv s \<longrightarrow> pending_inv s')"
proof -
  note F = slurp_frame [OF sl] and Q = slurp_queue [OF sl q]
  have i1: "server_inv x s1" by (rule server_inv_cong [OF i]) (use F in simp_all)
  have ra: "request_alive s1 = request_alive s" using F by (simp add: request_alive_def fun_eq_iff)
  obtain t where t: "answer_due x (upper_map (iq s1)) (pending s) s1 = Inr t" "answered x s1 t"
    "replies_sent (map (request_reply x s1) (due_requests (upper_map (iq s1)) (pending s))) s1 t"
    using answer_due_run [OF i1] al ra by fastforce
  let ?d = "erase_dead (tokill (upper_map (iq s1)) (pending s)) t"
  have d: "server_inv x ?d" "iq ?d = iq s1" "payloads ?d = payloads s1" "iq_hwm ?d = iq_hwm s" "iq_lwm ?d = iq_lwm s"
    "router ?d = router t" "pending ?d = filter (\<lambda>(k, _). upper_map (iq s1) < k) (pending s)"
    using t(2) F erase_dead_pending [OF so [unfolded pending_sorted_def]] server_inv_cong [of x t ?d]
    by (simp_all add: answered_def erase_dead_def)
  let ?u = "?d\<lparr>iq := queue_cut (iq s1) 0 (to_i64 (of_i64 (upper_map (iq s1)) - iq_lwm s))\<rparr>"
  have u: "server_inv x ?u" using server_inv_cong [OF d(1), of ?u] by simp
  have run: "s_server_handle_ingest x msgs s = Inr (if of_i64 (upper_map (iq s1) - lower_map (iq s1)) > iq_hwm s then ?u else ?d)"
    using sl t(1) F maybe_purge_run [OF sp] d by (simp add: s_server_handle_ingest_def Let_def)
  have rs: "replies_sent rs s v = replies_sent rs s1 t" if "router v = router t" for rs v
    using that F by (simp add: replies_sent_def)
  have ah: "request_alive t = request_alive s" "request_freed t = request_freed s" "next_ptr t = next_ptr s"
    using t(2) F ra by (simp_all add: answered_def request_freed_def fun_eq_iff)
  have pv: "pending_inv v" if p: "pending_inv s" and v: "heap v = heap t" "next_ptr v = next_ptr t"
    "pending v = filter (\<lambda>(k, _). upper_map (iq s1) < k) (pending s)" for v
  proof -
    have "set (requests (pending v)) \<subseteq> set (requests (pending s))" by (auto simp: v(3) requests_def)
    moreover have "pending_sorted v" using p
      by (simp add: v(3) pending_inv_def pending_sorted_def sorted_wrt_map sorted_wrt_filter)
    moreover have "request_alive v = request_alive s" "request_freed v = request_freed s"
      using ah v(1) by (simp_all add: request_alive_def request_freed_def fun_eq_iff)
    ultimately show ?thesis using p ah(3) v(2) by (auto simp: pending_inv_def)
  qed
  have hd: "heap ?d = heap t" "next_ptr ?d = next_ptr t" by (simp_all add: erase_dead_def)
  have rt: "inbound (router t) = inbound (router s)" using t(2) F by (simp add: answered_def)
  show ?thesis unfolding run
    using Q u d t(3) rs [of ?u] rs [of ?d] rt store.inv_cut [of "iq s1"] pv [of ?u] pv [of ?d] hd by simp
qed

lemma due_requests_subset: "set (due_requests queue_end q) \<subseteq> set (requests q)"
  by (auto simp: due_requests_def requests_def dest: set_takeWhileD)

text \<open>Under the invariant of the pending requests the handler either meets a freed client, or the
  span of the queue overflows, or it runs to its end.\<close>

lemma ingest_cases:
  assumes i: "server_inv x s" and q: "queue_inv (iq s)" and pe: "pending_inv s"
    and sl: "slurp x msgs s = Inr s1"
  shows "s_server_handle_ingest x msgs s =
      (if \<exists>req\<in>set (due_requests (upper_map (iq s1)) (pending s)). request_freed s req then Inl UseAfterFree
       else if \<not> is_i64 (upper_map (iq s1) - lower_map (iq s1)) then Inl SignedOverflow
       else s_server_handle_ingest x msgs s)"
proof -
  note F = slurp_frame [OF sl]
  have i1: "server_inv x s1" by (rule server_inv_cong [OF i]) (use F in simp_all)
  have ra: "request_alive s1 = request_alive s" "request_freed s1 = request_freed s"
    using F by (simp_all add: request_alive_def request_freed_def fun_eq_iff)
  have ow: "\<forall>req\<in>set (due_requests (upper_map (iq s1)) (pending s)). request_alive s1 req \<or> request_freed s1 req"
    using pe due_requests_subset ra by (fastforce simp: pending_inv_def)
  show ?thesis
  proof (cases "\<exists>req\<in>set (due_requests (upper_map (iq s1)) (pending s)). request_freed s req")
    case True
    then have "answer_due x (upper_map (iq s1)) (pending s) s1 = Inl UseAfterFree"
      using answer_due_freed [OF i1 ow] ra by simp
    then show ?thesis using True sl F by (simp add: s_server_handle_ingest_def Let_def)
  next
    case False
    then obtain t where "answer_due x (upper_map (iq s1)) (pending s) s1 = Inr t"
      using answer_due_run [OF i1] ow ra by fastforce
    then show ?thesis using False sl F
      by (simp add: s_server_handle_ingest_def Let_def maybe_purge_def sub_i64_def)
  qed
qed

end
