(* ===== verification/CNumbers.thy ===== *)
theory CNumbers
  imports Prelude
begin

text \<open>
  The numeric functions of the C library that the program uses on strings (\<open>strtoul\<close>,
  \<open>strtoll\<close>, \<open>atoi\<close>, the conversions \<open>%ld\<close> and \<open>%lu\<close> of \<open>printf\<close>), and
  \<open>readint\<close> of \<open>src/tpqutil.h\<close>. A C string is the list of its bytes before the
  terminating zero. A parser returns the value and how many bytes it consumed.
\<close>

definition bytes :: "string \<Rightarrow> byte list" where
  "bytes s = map (\<lambda>c. of_char c) s"

section \<open>Scanning\<close>

definition is_space :: "byte \<Rightarrow> bool" where
  "is_space b \<longleftrightarrow> b = 32 \<or> (9 \<le> b \<and> b \<le> 13)"

definition digit_val :: "byte \<Rightarrow> nat" where
  "digit_val b = (if 48 \<le> b \<and> b \<le> 57 then unat b - 48
     else if 97 \<le> b \<and> b \<le> 122 then unat b - 87
     else if 65 \<le> b \<and> b \<le> 90 then unat b - 55 else 36)"

definition skip_prefix :: "nat \<Rightarrow> byte list \<Rightarrow> byte list" where
  "skip_prefix base s =
     (if base = 16 \<and> length s \<ge> 3 \<and> s ! 0 = 48 \<and> (s ! 1 = 120 \<or> s ! 1 = 88) \<and> digit_val (s ! 2) < 16
      then drop 2 s else s)"

definition skip_sign :: "byte list \<Rightarrow> bool \<times> byte list" where
  "skip_sign s = (case s of [] \<Rightarrow> (False, []) | b # r \<Rightarrow>
     if b = 45 then (True, r) else if b = 43 then (False, r) else (False, s))"

definition from_digits :: "nat \<Rightarrow> byte list \<Rightarrow> nat" where
  "from_digits base ds = foldl (\<lambda>n d. n * base + digit_val d) 0 ds"

text \<open>Sign, magnitude and number of bytes used, or nothing when there is no digit.\<close>

definition scan_number :: "nat \<Rightarrow> byte list \<Rightarrow> (bool \<times> nat \<times> nat) option" where
  "scan_number base s =
     (case skip_sign (dropWhile is_space s) of (neg, s1) \<Rightarrow>
        let s2 = skip_prefix base s1;
            ds = takeWhile (\<lambda>b. digit_val b < base) s2
        in if ds = [] then None
           else Some (neg, from_digits base ds, length s - length (drop (length ds) s2)))"

definition strtoul :: "nat \<Rightarrow> byte list \<Rightarrow> u64 \<times> nat" where
  "strtoul base s = (case scan_number base s of None \<Rightarrow> (0, 0)
     | Some (neg, n, k) \<Rightarrow>
        (if n \<ge> 2 ^ 64 then - 1 else if neg then - of_nat n else of_nat n, k))"

definition strtoll :: "nat \<Rightarrow> byte list \<Rightarrow> int \<times> nat" where
  "strtoll base s = (case scan_number base s of None \<Rightarrow> (0, 0)
     | Some (neg, n, k) \<Rightarrow>
        (if neg then max (- int n) (- (2 ^ 63)) else min (int n) (2 ^ 63 - 1), k))"

text \<open>\<open>atoi\<close> is \<open>strtol\<close> cut to 32 bits.\<close>

definition atoi :: "byte list \<Rightarrow> int" where
  "atoi s = sint (word_of_int (fst (strtoll 10 s)) :: 32 word)"

section \<open>Printing\<close>

definition digit_char :: "nat \<Rightarrow> byte" where
  "digit_char d = (if d < 10 then of_nat (48 + d) else of_nat (87 + d))"

text \<open>The digits of a number in a base between 2 and 16, lower case.\<close>

function in_base :: "nat \<Rightarrow> nat \<Rightarrow> byte list" where
  "in_base base n = (if base < 2 \<or> n < base then [digit_char n]
     else in_base base (n div base) @ [digit_char (n mod base)])"
  by pat_completeness auto

termination
  by (relation "measure snd") auto

declare in_base.simps [simp del]

definition print_ld :: "int \<Rightarrow> byte list" where
  "print_ld i = (if i < 0 then 45 # in_base 10 (nat (- i)) else in_base 10 (nat i))"

section \<open>Reading integers\<close>

definition readint_maybe :: "byte list \<Rightarrow> nat \<Rightarrow> u64 option" where
  "readint_maybe str base = (case strtoul base str of (maybe, k) \<Rightarrow>
     if k \<noteq> length str then None else Some maybe)"

definition readint :: "byte list \<Rightarrow> u64 option" where
  "readint str = (case readint_maybe str 10 of Some v \<Rightarrow> Some v | None \<Rightarrow> readint_maybe str 16)"

section \<open>Parsing what was printed\<close>

lemma digit_bytes: "\<forall>d\<in>set [0..<16]. digit_val (digit_char d) = d \<and> \<not> is_space (digit_char d) \<and>
    digit_char d \<noteq> 45 \<and> digit_char d \<noteq> 43 \<and> digit_char d \<noteq> 120 \<and> digit_char d \<noteq> 88"
  by code_simp

lemma digit_byte:
  assumes "d < 16"
  shows "digit_val (digit_char d) = d" "\<not> is_space (digit_char d)"
    "digit_char d \<noteq> 45" "digit_char d \<noteq> 43" "digit_char d \<noteq> 120" "digit_char d \<noteq> 88"
  using digit_bytes assms by auto

lemma in_base_induct [consumes 1, case_names small large]:
  assumes "2 \<le> base" "\<And>n. n < base \<Longrightarrow> P n" "\<And>n. base \<le> n \<Longrightarrow> P (n div base) \<Longrightarrow> P n"
  shows "P (n :: nat)"
proof (induction n rule: less_induct)
  case (less n)
  show ?case
  proof (cases "n < base")
    case False
    then have "n div base < n" using assms(1) by (intro div_less_dividend) auto
    then show ?thesis using less assms(3) False by simp
  qed (rule assms(2))
qed

lemma in_base_step:
  assumes "2 \<le> base"
  shows "n < base \<Longrightarrow> in_base base n = [digit_char n]"
    "base \<le> n \<Longrightarrow> in_base base n = in_base base (n div base) @ [digit_char (n mod base)]"
  using assms by (subst in_base.simps; simp)+

lemma in_base_digits:
  assumes "2 \<le> base"
  shows "\<forall>b\<in>set (in_base base n). \<exists>d<base. b = digit_char d"
  using assms
proof (induction n rule: in_base_induct)
  case (small n)
  then show ?case using assms by (auto simp: in_base_step)
next
  case (large n)
  have "\<exists>d<base. digit_char (n mod base) = digit_char d"
    using assms by (intro exI [of _ "n mod base"]) simp
  then show ?case using large assms by (auto simp: in_base_step)
qed

lemma in_base_not_empty [simp]: "in_base base n \<noteq> []"
  by (subst in_base.simps) simp

lemma from_digits_snoc: "from_digits base (xs @ [b]) = from_digits base xs * base + digit_val b"
  by (simp add: from_digits_def)

lemma from_digits_in_base:
  assumes "2 \<le> base" "base \<le> 16"
  shows "from_digits base (in_base base n) = n"
  using assms(1)
proof (induction n rule: in_base_induct)
  case (small n)
  then show ?case using assms digit_byte(1) [of n] by (simp add: in_base_step from_digits_def)
next
  case (large n)
  have "n mod base < 16" using assms mod_less_divisor [of base n] by linarith
  then show ?case using large assms digit_byte(1) [of "n mod base"]
    by (simp add: in_base_step from_digits_snoc)
qed

text \<open>Facts about the digits of a number, as the scanner sees them.\<close>

lemma in_base_scan:
  assumes "2 \<le> base" "base \<le> 16"
  shows "takeWhile (\<lambda>b. digit_val b < base) (in_base base n) = in_base base n"
    "dropWhile is_space (in_base base n) = in_base base n"
    "skip_sign (in_base base n) = (False, in_base base n)"
    "skip_prefix base (in_base base n) = in_base base n"
proof -
  have D: "\<forall>b\<in>set (in_base base n). \<exists>d<base. b = digit_char d" using in_base_digits [OF assms(1)] .
  have V: "digit_val (digit_char d) < base" if "d < base" for d using that digit_byte(1) [of d] assms by simp
  show "takeWhile (\<lambda>b. digit_val b < base) (in_base base n) = in_base base n"
    unfolding takeWhile_eq_all_conv using D V by auto
  obtain b r where b: "in_base base n = b # r" by (cases "in_base base n") auto
  then have "b \<in> set (in_base base n)" by simp
  then obtain d where d0: "d < base" "b = digit_char d" using D by blast
  then have d: "d < 16" "b = digit_char d" using assms by simp_all
  show "dropWhile is_space (in_base base n) = in_base base n"
    "skip_sign (in_base base n) = (False, in_base base n)"
    using b d digit_byte [OF d(1)] by (simp_all add: skip_sign_def)
  have "in_base base n ! 1 \<noteq> 120 \<and> in_base base n ! 1 \<noteq> 88" if l: "length (in_base base n) \<ge> 3"
  proof -
    have "in_base base n ! 1 \<in> set (in_base base n)" using l by (intro nth_mem) simp
    then obtain e where e: "e < base" "in_base base n ! 1 = digit_char e" using D by blast
    then have "e < 16" using assms by simp
    then show ?thesis using digit_byte(5,6) [of e] e by simp
  qed
  then show "skip_prefix base (in_base base n) = in_base base n" by (auto simp: skip_prefix_def)
qed

lemma scan_in_base:
  assumes "2 \<le> base" "base \<le> 16"
  shows "scan_number base (in_base base n) = Some (False, n, length (in_base base n))"
    "scan_number base (45 # in_base base n) = Some (True, n, Suc (length (in_base base n)))"
proof -
  note S = in_base_scan [OF assms, of n] from_digits_in_base [OF assms, of n]
  show "scan_number base (in_base base n) = Some (False, n, length (in_base base n))"
    using S by (simp add: scan_number_def Let_def del: takeWhile_eq_all_conv)
  have m: "dropWhile is_space (45 # in_base base n) = 45 # in_base base n"
    "skip_sign (45 # in_base base n) = (True, in_base base n)"
    by (simp_all add: is_space_def skip_sign_def)
  show "scan_number base (45 # in_base base n) = Some (True, n, Suc (length (in_base base n)))"
    unfolding scan_number_def m using S by (simp add: Let_def del: takeWhile_eq_all_conv)
qed

lemma strtoul_in_base:
  "2 \<le> base \<Longrightarrow> base \<le> 16 \<Longrightarrow> n < 2 ^ 64 \<Longrightarrow>
     strtoul base (in_base base n) = (of_nat n, length (in_base base n))"
  by (simp add: strtoul_def scan_in_base)

lemma strtoll_print: "is_i64 i \<Longrightarrow> strtoll 10 (print_ld i) = (i, length (print_ld i))"
  by (auto simp: strtoll_def print_ld_def scan_in_base is_i64_def)

lemma scan_hex_prefix:
  "scan_number 16 (48 # 120 # in_base 16 n) = Some (False, n, 2 + length (in_base 16 n))"
  "scan_number 10 (48 # 120 # in_base 16 n) = Some (False, 0, 1)"
proof -
  note S = in_base_scan(1) [of 16 n] from_digits_in_base [of 16 n]
  obtain b r where b: "in_base 16 n = b # r" by (cases "in_base 16 n") auto
  then have "\<exists>d<16. b = digit_char d" using in_base_digits [of 16 n] by simp
  then have d: "digit_val b < 16" using digit_byte(1) by auto
  have sp: "dropWhile is_space (48 # 120 # in_base 16 n) = 48 # 120 # in_base 16 n"
    "skip_sign (48 # 120 # in_base 16 n) = (False, 48 # 120 # in_base 16 n)"
    by (simp_all add: is_space_def skip_sign_def)
  have p: "skip_prefix 16 (48 # 120 # in_base 16 n) = in_base 16 n"
    "skip_prefix 10 (48 # 120 # in_base 16 n) = 48 # 120 # in_base 16 n"
    using d by (simp_all add: skip_prefix_def b)
  show "scan_number 16 (48 # 120 # in_base 16 n) = Some (False, n, 2 + length (in_base 16 n))"
    unfolding scan_number_def sp using S by (simp add: Let_def p del: takeWhile_eq_all_conv)
  have t: "takeWhile (\<lambda>b. digit_val b < 10) (48 # 120 # in_base 16 n) = [48]"
    by (simp add: digit_val_def)
  have f: "from_digits 10 [48] = 0" by code_simp
  show "scan_number 10 (48 # 120 # in_base 16 n) = Some (False, 0, 1)"
    unfolding scan_number_def sp by (simp add: Let_def p t f del: takeWhile.simps)
qed

section \<open>Properties\<close>

lemmas scan_defs = readint_def readint_maybe_def strtoul_def scan_number_def is_space_def skip_sign_def
  skip_prefix_def digit_val_def from_digits_def Let_def

lemma readint_corners:
  "readint [] = Some 0 \<and> readint (bytes ''-1'') = Some 0xffffffffffffffff \<and>
   readint (bytes ''99999999999999999999'') = Some 0xffffffffffffffff \<and> readint (bytes ''12z'') = None"
proof -
  have b: "bytes ''-1'' = [45, 49]" "bytes ''12z'' = [49, 50, 122]"
    "bytes ''99999999999999999999'' = [57, 57, 57, 57, 57, 57, 57, 57, 57, 57, 57, 57, 57, 57, 57, 57, 57, 57, 57, 57]"
    by code_simp+
  show ?thesis unfolding b by (intro conjI; simp add: scan_defs)
qed

text \<open>C40: \<open>readint\<close> reads back every unsigned 64-bit number printed in decimal, or in hexadecimal with
  the prefix 0x. It also accepts the empty string as 0, wraps a negative number around and
  saturates a number above 64 bits; it rejects trailing text.\<close>

theorem readint_numbers:
  assumes "n < 2 ^ 64"
  shows "readint (in_base 10 n) = Some (of_nat n) \<and> readint (48 # 120 # in_base 16 n) = Some (of_nat n) \<and>
    readint [] = Some 0 \<and> readint (bytes ''-1'') = Some 0xffffffffffffffff \<and>
    readint (bytes ''99999999999999999999'') = Some 0xffffffffffffffff \<and> readint (bytes ''12z'') = None"
proof -
  have "readint (in_base 10 n) = Some (of_nat n)" using assms by (simp add: readint_def readint_maybe_def strtoul_in_base)
  moreover have "readint (48 # 120 # in_base 16 n) = Some (of_nat n)"
    using assms by (simp add: readint_def readint_maybe_def strtoul_def scan_hex_prefix)
  ultimately show ?thesis using readint_corners by blast
qed

lemma readint_numbers_witness: "readint (48 # 120 # in_base 16 65535) = Some 0xffff"
  using readint_numbers [of 65535] by simp

end
