(* ===== verification/ServerPipe.thy ===== *)
theory ServerPipe
  imports ServerProtocol CNumbers
begin

text \<open>
  Creation, configuration and control of the server: \<open>s_server_new\<close>, \<open>s_server_destroy\<close>, the
  configuration functions, the commands that arrive on the pipe of the actor
  (\<open>s_server_handle_pipe\<close>) and the server's own methods (\<open>server_method\<close>).

  \<open>pipe_extern\<close> holds what these take from \<open>czmq\<close>: the port a bind returns (or -1), the tree in
  a configuration file, and the tree after a value is put into it. A message on the pipe is its list
  of frames; a string popped from an empty message is a null pointer.
\<close>

record pipe_extern =
  bind_socket :: "cstr option \<Rightarrow> int"
  load_config :: "cstr option \<Rightarrow> config option"
  put_config :: "config \<Rightarrow> cstr \<Rightarrow> cstr option \<Rightarrow> config"

definition root_config :: config where
  "root_config = \<lparr>cf_values = Map.empty, cf_sections = []\<rparr>"

definition zconfig_get :: "(cstr \<rightharpoonup> cstr) \<Rightarrow> string \<Rightarrow> string \<Rightarrow> cstr" where
  "zconfig_get values path dflt = (case values (bytes path) of None \<Rightarrow> bytes dflt | Some v \<Rightarrow> v)"

definition zmsg_popstr :: "zmsg \<Rightarrow> cstr option \<times> zmsg" where
  "zmsg_popstr msg = (case msg of [] \<Rightarrow> (None, []) | f # fs \<Rightarrow> (Some (cstring f), fs))"

section \<open>Configuration\<close>

definition s_server_config_global :: "server \<Rightarrow> server" where
  "s_server_config_global s =
     (let s1 = if \<not> verbose s \<and> atoi (zconfig_get (cf_values (config s)) ''server/verbose'' ''0'') \<noteq> 0
               then s\<lparr>verbose := True\<rparr> else s
      in s1\<lparr>srv_timeout := word_of_int (atoi (zconfig_get (cf_values (config s1)) ''server/timeout'' ''60000''))\<rparr>)"

definition apply_section :: "pipe_extern \<Rightarrow> cstr \<times> (cstr \<rightharpoonup> cstr) \<Rightarrow> server \<Rightarrow> server" where
  "apply_section px section s = (case section of (name, values) \<Rightarrow>
     if name = bytes ''echo'' then s
     else if name = bytes ''bind''
     then s\<lparr>port := bind_socket px (Some (zconfig_get values ''endpoint'' ''?''))\<rparr>
     else s)"

definition s_server_config_service :: "pipe_extern \<Rightarrow> server \<Rightarrow> server" where
  "s_server_config_service px s =
     s_server_config_global (foldl (\<lambda>s section. apply_section px section s) s (cf_sections (config s)))"

definition engine_configure :: "pipe_extern \<Rightarrow> cstr \<Rightarrow> cstr option \<Rightarrow> server \<Rightarrow> server" where
  "engine_configure px path value s = s_server_config_global (s\<lparr>config := put_config px (config s) path value\<rparr>)"

text \<open>The monitor of the configuration file; its argument is the tree read again, when the file changed.\<close>

definition s_watch_server_config :: "pipe_extern \<Rightarrow> config option \<Rightarrow> server \<Rightarrow> server" where
  "s_watch_server_config px reloaded s = (case reloaded of None \<Rightarrow> s
     | Some c \<Rightarrow> s_server_config_service px (s\<lparr>config := c\<rparr>))"

section \<open>Creation and destruction\<close>

text \<open>The argument is the random number that client identifiers start from.\<close>

definition s_server_new :: "u32 \<Rightarrow> server" where
  "s_server_new rnd = server_initialize (s_server_config_global
     \<lparr>ingest = False, own_detmask = 0, iq = [], iq_lwm = 0, iq_hwm = 0, pending = [], first_seen = 0,
      count_check = Map.empty, payloads = [], message = tpq_codec_new, router = idle ROUTER,
      clients = Map.empty, zombies = Map.empty, heap = Map.empty, next_ptr = 0, client_id = rnd,
      srv_timeout = 0, verbose = False, port = 0, config = root_config\<rparr>)"

text \<open>Destroying the table of clients deletes its items, in the order of the table.\<close>

primrec destroy_clients :: "string list \<Rightarrow> server \<Rightarrow> fault + server" where
  "destroy_clients [] s = Inr s"
| "destroy_clients (k # ks) s = bind_fault (clients_delete k s) (destroy_clients ks)"

primrec destroy_zombies :: "string list \<Rightarrow> server \<Rightarrow> server" where
  "destroy_zombies [] s = s"
| "destroy_zombies (k # ks) s = destroy_zombies ks
     (case zombies s k of None \<Rightarrow> s | Some p \<Rightarrow> s_client_finalize p s)"

definition server_terminate :: "server \<Rightarrow> server" where
  "server_terminate s = s\<lparr>ingest := False, iq := [], pending := [], count_check := Map.empty\<rparr>"

definition s_server_destroy :: "string list \<Rightarrow> string list \<Rightarrow> server \<Rightarrow> fault + server" where
  "s_server_destroy keys zkeys s = bind_fault (destroy_clients keys s) (\<lambda>s.
     Inr (server_terminate ((destroy_zombies zkeys s)\<lparr>zombies := Map.empty\<rparr>)))"

text \<open>\<open>engine_broadcast_event\<close>, over the keys of the table; \<open>but\<close> is the client left out.\<close>

primrec broadcast :: "extern \<Rightarrow> client_ptr option \<Rightarrow> event_t \<Rightarrow> string list \<Rightarrow> server \<Rightarrow> fault + server" where
  "broadcast x but e [] s = Inr s"
| "broadcast x but e (k # ks) s = bind_fault
     (case clients s k of None \<Rightarrow> if but = None then Inr s else Inl NullPointer
      | Some p \<Rightarrow> if but \<noteq> Some p then s_client_execute x p e s else Inr s) (broadcast x but e ks)"

section \<open>Methods of the server\<close>

definition poplong :: "zmsg \<Rightarrow> fault + u64 \<times> zmsg" where
  "poplong msg = (case zmsg_popstr msg of (None, _) \<Rightarrow> Inl NullPointer
     | (Some value, msg') \<Rightarrow> Inr (fst (strtoul 10 value), msg'))"

text \<open>For INGEST, \<open>endpoint_made\<close> says of the text whether it parses as JSON, has a member \<open>input\<close> to look
  up, and whether an ingest socket can be made of that member. When one of the three fails, an
  exception that nobody catches or the assertion ends the process.\<close>

definition server_method :: "extern \<Rightarrow> cstr \<Rightarrow> zmsg \<Rightarrow> server \<Rightarrow> fault + server \<times> zmsg" where
  "server_method x meth msg s =
     (if meth = bytes ''INGEST'' then
        (case fst (zmsg_popstr msg) of None \<Rightarrow> Inl NullPointer
         | Some cfgstr \<Rightarrow> if endpoint_made x cfgstr
             then Inr (s\<lparr>ingest := True\<rparr>, [bytes ''INGEST OK'']) else Inl AssertFailed)
      else if meth = bytes ''DETMASK'' then
        bind_fault (poplong msg) (\<lambda>(mask, _).
          if mask > 0 then Inr (s\<lparr>own_detmask := mask\<rparr>, [bytes ''DETMASK OK'']) else Inl AssertFailed)
      else if meth = bytes ''QUEUE'' then
        bind_fault (poplong msg) (\<lambda>(lwm, msg1).
        bind_fault (poplong msg1) (\<lambda>(hwm, _).
          Inr (s\<lparr>iq_lwm := lwm, iq_hwm := hwm\<rparr>, [bytes ''QUEUE OK''])))
      else Inl AssertFailed)"

text \<open>The handler of the pipe: its return value, the server, and the messages put on the pipe.\<close>

definition s_server_handle_pipe :: "extern \<Rightarrow> pipe_extern \<Rightarrow> zmsg \<Rightarrow> server \<Rightarrow> fault + int \<times> server \<times> zmsg list" where
  "s_server_handle_pipe x px msg s = (case zmsg_popstr msg of
     (None, _) \<Rightarrow> Inl NullPointer
   | (Some meth, args) \<Rightarrow>
       if meth = bytes ''VERBOSE'' then Inr (0, s\<lparr>verbose := True\<rparr>, [])
       else if meth = bytes ''$TERM'' then Inr (- 1, s, [])
       else if meth = bytes ''BIND'' then
         Inr (0, s\<lparr>port := bind_socket px (fst (zmsg_popstr args))\<rparr>, [])
       else if meth = bytes ''PORT'' then Inr (0, s, [[bytes ''PORT'', print_ld (port s)]])
       else if meth = bytes ''LOAD'' \<or> meth = bytes ''CONFIGURE'' then
         (case load_config px (fst (zmsg_popstr args)) of
            Some c \<Rightarrow> Inr (0, s_server_config_service px (s\<lparr>config := c\<rparr>), [])
          | None \<Rightarrow> Inr (0, s\<lparr>config := root_config\<rparr>, []))
       else if meth = bytes ''SET'' then
         (case zmsg_popstr args of (None, _) \<Rightarrow> Inl NullPointer
          | (Some path, args1) \<Rightarrow>
             let value = fst (zmsg_popstr args1);
                 s1 = s\<lparr>config := put_config px (config s) path value\<rparr>
             in if path = bytes ''server/animate''
                then (case value of None \<Rightarrow> Inl NullPointer
                      | Some v \<Rightarrow> Inr (0, s_server_config_global (s1\<lparr>verbose := (atoi v = 1)\<rparr>), []))
                else Inr (0, s_server_config_global s1, []))
       else if meth = bytes ''SAVE'' then Inr (0, s, [])
       else bind_fault (server_method x meth args s) (\<lambda>(s', reply). Inr (0, s', [reply])))"

section \<open>Lemmas\<close>

text \<open>Control of the server leaves its clients and its sockets alone.\<close>

definition same_clients :: "server \<Rightarrow> server \<Rightarrow> bool" where
  "same_clients s t \<longleftrightarrow> heap t = heap s \<and> clients t = clients s \<and> zombies t = zombies s \<and> next_ptr t = next_ptr s \<and>
     message t = message s \<and> router t = router s \<and> pending t = pending s \<and> iq t = iq s \<and> payloads t = payloads s"

lemma same_clients_refl [simp]: "same_clients s s"
  by (simp add: same_clients_def)

lemma same_clients_trans: "same_clients s t \<Longrightarrow> same_clients t u \<Longrightarrow> same_clients s u"
  by (simp add: same_clients_def)

lemma same_clients_upd [simp]:
  "same_clients s (t\<lparr>config := c\<rparr>) = same_clients s t" "same_clients s (t\<lparr>verbose := v\<rparr>) = same_clients s t"
  "same_clients s (t\<lparr>port := n\<rparr>) = same_clients s t" "same_clients s (t\<lparr>srv_timeout := w\<rparr>) = same_clients s t"
  "same_clients s (t\<lparr>ingest := b\<rparr>) = same_clients s t" "same_clients s (t\<lparr>own_detmask := m\<rparr>) = same_clients s t"
  "same_clients s (t\<lparr>iq_lwm := m\<rparr>) = same_clients s t" "same_clients s (t\<lparr>iq_hwm := m\<rparr>) = same_clients s t"
  by (simp_all add: same_clients_def)

lemma config_global_same [simp]: "same_clients s (s_server_config_global t) = same_clients s t"
proof -
  have "same_clients s ((if b then t\<lparr>verbose := True\<rparr> else t)\<lparr>srv_timeout := w\<rparr>) = same_clients s t" for b w by simp
  then show ?thesis unfolding s_server_config_global_def Let_def .
qed

lemma apply_section_same: "same_clients s (apply_section px sec t) = same_clients s t"
  unfolding apply_section_def by (cases sec) simp

lemma config_service_same [simp]: "same_clients s (s_server_config_service px t) = same_clients s t"
proof -
  have "same_clients s (foldl (\<lambda>s section. apply_section px section s) t cs) = same_clients s t" for cs
    by (induction cs arbitrary: t) (simp_all add: apply_section_same)
  then show ?thesis by (simp add: s_server_config_service_def)
qed

definition keeps_clients :: "('a \<Rightarrow> server) \<Rightarrow> server \<Rightarrow> fault + 'a \<Rightarrow> bool" where
  "keeps_clients f s r \<longleftrightarrow> (\<forall>a. r = Inr a \<longrightarrow> same_clients s (f a))"

lemma keeps_clients_intros:
  "keeps_clients f s (Inl e)" "same_clients s (f a) \<Longrightarrow> keeps_clients f s (Inr a)"
  "keeps_clients f s r1 \<Longrightarrow> keeps_clients f s r2 \<Longrightarrow> keeps_clients f s (if b then r1 else r2)"
  "keeps_clients f s r1 \<Longrightarrow> (\<And>v. keeps_clients f s (g v)) \<Longrightarrow> keeps_clients f s (case_option r1 g v')"
  "(\<And>v w. keeps_clients f s (h v w)) \<Longrightarrow> keeps_clients f s (case_prod h p)"
  by (auto simp: keeps_clients_def split: option.splits prod.splits)

lemma keeps_clients_bind:
  "(\<And>b. r = Inr b \<Longrightarrow> keeps_clients f s (g b)) \<Longrightarrow> keeps_clients f s (bind_fault r g)"
  by (cases r) (simp_all add: keeps_clients_def)

lemma server_method_keeps: "keeps_clients fst s (server_method x meth msg s)"
  unfolding server_method_def by (intro keeps_clients_intros keeps_clients_bind) simp_all

lemma handle_pipe_keeps: "keeps_clients (\<lambda>(rc, s', out). s') s (s_server_handle_pipe x px msg s)"
proof -
  have "keeps_clients (\<lambda>(rc, s', out). s') s
      (bind_fault (server_method x meth args s) (\<lambda>(s', reply). Inr (0, s', [reply])))" for meth args
    using server_method_keeps [of s x meth args]
    by (auto simp: keeps_clients_def elim!: bind_fault_InrE)
  then show ?thesis unfolding s_server_handle_pipe_def Let_def
    by (intro keeps_clients_intros) simp_all
qed

lemma handle_pipe_same: "s_server_handle_pipe x px msg s = Inr (rc, s', out) \<Longrightarrow> same_clients s s'"
  using handle_pipe_keeps [of s x px msg] by (simp add: keeps_clients_def)

lemma same_clients_inv:
  assumes "server_inv x s" "same_clients s t"
  shows "server_inv x t"
proof -
  have "server_inv x t = server_inv x s"
    unfolding server_inv_def keys_inv_def client_inv_def table_inv_def next_of_def
    using assms(2) by (simp only: same_clients_def)
  then show ?thesis using assms(1) by simp
qed

text \<open>The server as created.\<close>

lemma server_new_inv: "server_inv x (s_server_new rnd)"
  by (simp add: s_server_new_def s_server_config_global_def server_initialize_def Let_def server_inv_def
      client_inv_def table_inv_def keys_inv_def next_of_def codec_ok_new idle_def)

section \<open>Numbers in commands\<close>

lemma handle_pipe_numbers:
  assumes "n < 2 ^ 64" "k < 2 ^ 64"
  shows "s_server_handle_pipe x px [bytes ''DETMASK'', in_base 10 n] s =
      (if n = 0 then Inl AssertFailed else Inr (0, s\<lparr>own_detmask := of_nat n\<rparr>, [[bytes ''DETMASK OK'']])) \<and>
    s_server_handle_pipe x px [bytes ''QUEUE'', in_base 10 n, in_base 10 k] s =
      Inr (0, s\<lparr>iq_lwm := of_nat n, iq_hwm := of_nat k\<rparr>, [[bytes ''QUEUE OK'']])"
proof (intro conjI)
  have c: "cstring (in_base 10 m) = in_base 10 m" for m
  proof -
    have "\<forall>d\<in>set [0..<10]. digit_char d \<noteq> 0" by code_simp
    then have "\<forall>b\<in>set (in_base 10 m). b \<noteq> 0" using in_base_digits [of 10 m] by fastforce
    then show ?thesis by (simp add: cstring_def)
  qed
  have b: "cstring (bytes ''DETMASK'') = bytes ''DETMASK''" "cstring (bytes ''QUEUE'') = bytes ''QUEUE''" by code_simp+
  have d: "\<forall>m\<in>set [''VERBOSE'', ''$TERM'', ''BIND'', ''PORT'', ''LOAD'', ''CONFIGURE'', ''SET'', ''SAVE'', ''INGEST'']. 
      bytes ''DETMASK'' \<noteq> bytes m \<and> bytes ''QUEUE'' \<noteq> bytes m" "bytes ''QUEUE'' \<noteq> bytes ''DETMASK''" by code_simp+
  have p: "poplong (in_base 10 m # r) = Inr (of_nat m, r)" if "m < 2 ^ 64" for m r
    using that by (simp add: poplong_def zmsg_popstr_def c strtoul_in_base)
  have z: "(0 < (of_nat n :: u64)) = (n \<noteq> 0)"
    using assms(1) nat_dvd_not_less [of n "2 ^ 64"] by (cases "n = 0") (auto simp: word_greater_zero_iff word_of_nat_eq_0_iff)
  show "s_server_handle_pipe x px [bytes ''DETMASK'', in_base 10 n] s =
      (if n = 0 then Inl AssertFailed else Inr (0, s\<lparr>own_detmask := of_nat n\<rparr>, [[bytes ''DETMASK OK'']]))"
    using d p [OF assms(1), of "[]"] z
    by (simp add: s_server_handle_pipe_def zmsg_popstr_def b server_method_def)
  show "s_server_handle_pipe x px [bytes ''QUEUE'', in_base 10 n, in_base 10 k] s =
      Inr (0, s\<lparr>iq_lwm := of_nat n, iq_hwm := of_nat k\<rparr>, [[bytes ''QUEUE OK'']])"
    using d p [OF assms(1), of "[in_base 10 k]"] p [OF assms(2), of "[]"]
    by (simp add: s_server_handle_pipe_def zmsg_popstr_def b server_method_def)
qed

end
