(* ===== verification/ServerSystem.thy ===== *)
theory ServerSystem
  imports ServerIngest ServerPipe
begin

text \<open>
  The server as a whole: the reactor calls one handler at a time, for input on the router, on
  the ingest socket and on the pipe, for an expired ticket, a wakeup timer and the monitor of
  the configuration file. \<open>server_step\<close> is one such call that returns; a state is reachable
  when a sequence of them leads to it from a new server.
\<close>

section \<open>Steps of the reactor\<close>

definition deliver :: "part list \<Rightarrow> server \<Rightarrow> server" where
  "deliver ps s = s\<lparr>router := (router s)\<lparr>inbound := inbound (router s) @ ps\<rparr>\<rparr>"

inductive server_step :: "extern \<Rightarrow> pipe_extern \<Rightarrow> server \<Rightarrow> server \<Rightarrow> bool" for x px where
  router_input: "s_server_handle_protocol x (deliver ps s) = Inr (rc, s') \<Longrightarrow> server_step x px s s'"
| ingest_input: "ingest s \<Longrightarrow> s_server_handle_ingest x msgs s = Inr s' \<Longrightarrow> server_step x px s s'"
| pipe_input: "s_server_handle_pipe x px msg s = Inr (0, s', replies) \<Longrightarrow> server_step x px s s'"
| ticket_expired: "heap s p = Some c \<Longrightarrow> cl_ticket c \<Longrightarrow> s_client_handle_ticket x p s = Inr s' \<Longrightarrow>
    server_step x px s s'"
| wakeup_fired: "heap s p = Some c \<Longrightarrow> cl_wakeup c \<Longrightarrow> s_client_handle_wakeup x p s = Inr s' \<Longrightarrow>
    server_step x px s s'"
| config_watched: "server_step x px s (s_watch_server_config px reloaded s)"

inductive server_reachable :: "extern \<Rightarrow> pipe_extern \<Rightarrow> server \<Rightarrow> bool" for x px where
  created: "server_reachable x px (s_server_new rnd)"
| stepped: "server_reachable x px s \<Longrightarrow> server_step x px s s' \<Longrightarrow> server_reachable x px s'"

inductive_cases server_stepE: "server_step x px s s'"

section \<open>The invariant\<close>

text \<open>An element of the queue is one of the payloads and lies in its interval.\<close>

definition stored_ok :: "server \<Rightarrow> bool" where
  "stored_ok s \<longleftrightarrow> (\<forall>i t. i |\<in>| queue_at (iq s) t \<longrightarrow> i < length (payloads s) \<and> in_payload t (payloads s ! i))"

definition system_inv :: "extern \<Rightarrow> server \<Rightarrow> bool" where
  "system_inv x s \<longleftrightarrow> server_inv x s \<and> pending_inv s \<and> queue_inv (iq s) \<and> stored_ok s"

lemma stored_ok_cong: "iq t = iq s \<Longrightarrow> payloads t = payloads s \<Longrightarrow> stored_ok t = stored_ok s"
  by (simp add: stored_ok_def)

lemma new_inv: "system_inv x (s_server_new rnd)"
proof -
  have "iq (s_server_new rnd) = []" "pending (s_server_new rnd) = []"
    by (simp_all add: s_server_new_def server_initialize_def)
  then show ?thesis using server_new_inv store.inv_empty store.at_empty
    by (simp add: system_inv_def pending_inv_def pending_sorted_def requests_def stored_ok_def)
qed

lemma same_clients_system:
  assumes "system_inv x s" "same_clients s t"
  shows "system_inv x t"
proof -
  have p: "pending_inv t"
    by (rule pending_inv_cong [of s]) (use assms in \<open>simp_all add: system_inv_def same_clients_def\<close>)
  have "iq t = iq s" "payloads t = payloads s" using assms(2) by (simp_all add: same_clients_def)
  moreover have "server_inv x t" using assms same_clients_inv [of x s t] by (simp add: system_inv_def)
  ultimately show ?thesis using assms(1) p stored_ok_cong [of t s] by (simp add: system_inv_def)
qed

lemma deliver_inv:
  assumes "system_inv x s"
  shows "system_inv x (deliver ps s)"
proof -
  let ?t = "deliver ps s"
  have f: "heap ?t = heap s" "clients ?t = clients s" "next_ptr ?t = next_ptr s" "message ?t = message s"
    "sock_type (router ?t) = sock_type (router s)" "pending ?t = pending s" "iq ?t = iq s" "payloads ?t = payloads s"
    by (simp_all add: deliver_def)
  have "server_inv x ?t = server_inv x s"
    unfolding server_inv_def keys_inv_def client_inv_def table_inv_def next_of_def by (simp only: f)
  moreover have "pending_inv s \<Longrightarrow> pending_inv ?t" using f pending_inv_cong by blast
  ultimately show ?thesis using assms f stored_ok_cong [of ?t s] by (simp add: system_inv_def)
qed

lemma protocol_system_inv:
  assumes i: "system_inv x s" and r: "s_server_handle_protocol x s = Inr (rc, s')"
  shows "system_inv x s'"
  using handle_protocol_total [of x s] i r stored_ok_cong [of s' s] by (auto simp: system_inv_def)

lemma execute_system_inv:
  assumes i: "system_inv x s" and h: "heap s p = Some c" and r: "s_client_execute x p e s = Inr s'"
  shows "system_inv x s'"
proof -
  have v: "server_inv x s" "client_inv s" "pending_inv s" using i by (simp_all add: system_inv_def server_inv_def)
  have "server_inv x s'" "iq s' = iq s" "payloads s' = payloads s"
    using execute_server_inv [OF v(1) h, of e] r by (auto simp: executed_def)
  then show ?thesis using execute_pending_inv [OF v(2) h v(3) r] i stored_ok_cong [of s' s]
    by (simp add: system_inv_def)
qed

lemma ingest_system_inv:
  assumes i: "system_inv x s" and r: "s_server_handle_ingest x msgs s = Inr s'"
  shows "system_inv x s'"
proof -
  have v: "server_inv x s" "queue_inv (iq s)" "pending_inv s" "stored_ok s" "pending_sorted s"
    using i by (simp_all add: system_inv_def pending_inv_def)
  obtain s1 where sl: "slurp x msgs s = Inr s1"
    using r by (auto simp: s_server_handle_ingest_def elim: bind_fault_InrE)
  have c: "\<not> (\<exists>req\<in>set (due_requests (upper_map (iq s1)) (pending s)). request_freed s req)"
    "is_i64 (upper_map (iq s1) - lower_map (iq s1))"
    using ingest_cases [OF v(1-3) sl] r by (auto split: if_splits)
  have al: "\<forall>req\<in>set (due_requests (upper_map (iq s1)) (pending s)). request_alive s req"
    using c(1) v(3) due_requests_subset by (fastforce simp: pending_inv_def)
  note Q = slurp_queue [OF sl v(2)]
  have st: "stored_ok s1" unfolding stored_ok_def
  proof (intro allI impI)
    fix i t
    assume "i |\<in>| queue_at (iq s1) t"
    then have "i |\<in>| queue_at (iq s) t \<or>
        (length (payloads s) \<le> i \<and> i < length (payloads s1) \<and> in_payload t (payloads s1 ! i))" using Q by blast
    then show "i < length (payloads s1) \<and> in_payload t (payloads s1 ! i)"
      using v(4) Q by (auto simp: stored_ok_def nth_append)
  qed
  have cut: "stored_ok t" if "payloads t = payloads s1" "iq t = iq s1 \<or> (\<exists>b. iq t = queue_cut (iq s1) 0 b)" for t
  proof -
    have "i |\<in>| queue_at (iq s1) u" if "i |\<in>| queue_at (iq t) u" for i u
      using that \<open>iq t = iq s1 \<or> _\<close> store.at_cut [of "iq s1"] Q by (auto split: if_splits)
    then show ?thesis using st that(1) by (auto simp: stored_ok_def)
  qed
  have "server_inv x s'" "queue_inv (iq s')" "pending_inv s'" "payloads s' = payloads s @ incoming x msgs s"
    "iq s' = iq s1 \<or> (\<exists>b. iq s' = queue_cut (iq s1) 0 b)"
    using ingest_run [OF v(1,2,5) sl al c(2)] r v(3) by (auto split: if_splits)
  then show ?thesis using cut [of s'] Q by (simp add: system_inv_def)
qed

lemma watch_same: "same_clients s (s_watch_server_config px reloaded s)"
  by (simp add: s_watch_server_config_def split: option.splits)

lemma step_inv:
  assumes "server_step x px s s'" "system_inv x s"
  shows "system_inv x s'"
  using assms
proof cases
  case (ticket_expired p c)
  let ?t = "put_client p (c\<lparr>cl_ticket := False\<rparr>) s"
  have c: "client_inv_at p s" "server_inv x s"
    using assms(2) client_inv_at_iff [of s p] by (simp_all add: system_inv_def server_inv_def)
  have r: "s_client_execute x p expired_event ?t = Inr s'"
    using ticket_expired by (simp add: s_client_handle_ticket_def upd_client_run)
  have h: "heap ?t = (heap s)(p \<mapsto> c\<lparr>cl_ticket := False\<rparr>)" by (simp add: frame_simps)
  have "client_inv_at p ?t"
    by (rule client_inv_at_put [OF c(1) ticket_expired(1) h])
      (use client_inv_atD [OF c(1) ticket_expired(1)] in \<open>simp_all add: frame_simps\<close>)
  moreover have "next_of p ?t = next_of p s" using ticket_expired(1) by (simp add: next_of_def frame_simps)
  ultimately have "client_inv ?t"
    using c(2) client_inv_at_iff [of s p] client_inv_at_iff [of ?t p] by (simp add: server_inv_def)
  then have "server_inv x ?t"
    using c(2) ticket_expired(1) by (auto simp: server_inv_def keys_inv_def frame_simps)
  moreover have "pending_inv ?t"
    using assms(2) ticket_expired(1)
    by (force simp: system_inv_def pending_inv_def pending_sorted_def request_alive_def request_freed_def frame_simps)
  ultimately have "system_inv x ?t"
    using assms(2) stored_ok_cong [of ?t s] by (simp add: system_inv_def frame_simps)
  then show ?thesis using execute_system_inv [OF _ _ r] h by simp
next
  case (wakeup_fired p c)
  then show ?thesis using execute_system_inv [OF assms(2) wakeup_fired(1)]
    by (simp add: s_client_handle_wakeup_def get_client_def)
next
  case (router_input ps rc)
  then show ?thesis using deliver_inv [OF assms(2)] protocol_system_inv by blast
next
  case (ingest_input msgs)
  then show ?thesis using ingest_system_inv [OF assms(2)] by blast
next
  case (pipe_input msg replies)
  then show ?thesis using same_clients_system [OF assms(2)] handle_pipe_same by blast
next
  case (config_watched reloaded)
  then show ?thesis using same_clients_system [OF assms(2) watch_same] by simp
qed

lemma reachable_inv:
  assumes "server_reachable x px s"
  shows "system_inv x s"
  using assms by (induction rule: server_reachable.induct) (auto intro: new_inv step_inv)

section \<open>Destruction\<close>

lemma destroy_clients_run:
  assumes "client_inv s" "distinct keys" "set keys = dom (clients s)"
  shows "\<exists>t. destroy_clients keys s = Inr t \<and> heap t = Map.empty \<and> clients t = Map.empty"
  using assms
proof (induction keys arbitrary: s)
  case Nil
  then have "clients s = Map.empty" by auto
  moreover have "heap s p = None" for p
  proof (cases "heap s p")
    case (Some c)
    then show ?thesis using Nil.prems(1) table_invD(1) [of s p c] calculation by (simp add: client_inv_def)
  qed
  ultimately show ?case by auto
next
  case (Cons k ks)
  have "k \<in> dom (clients s)" using Cons.prems(3) by (metis list.set_intros(1))
  then obtain p where p: "clients s k = Some p" unfolding dom_def by blast
  have t: "table_inv s" using Cons.prems(1) by (simp add: client_inv_def)
  obtain c where c: "heap s p = Some c" "cl_hashkey c = k" using table_invD(2) [OF t p] by blast
  have ia: "client_inv_at p s" using Cons.prems(1) client_inv_at_iff by blast
  let ?t = "drop_client p k s"
  have d: "clients_delete k s = Inr ?t" "client_inv ?t"
    using clients_delete_run [OF ia c(1)] drop_client_inv [OF ia c(1)] c(2) by simp_all
  have "clients ?t = (clients s)(k := None)" by (simp add: drop_client_def)
  then have "dom (clients ?t) = dom (clients s) - {k}" by simp
  then have "set ks = dom (clients ?t)" using Cons.prems(2) Cons.prems(3) [symmetric] by simp
  with Cons.IH [OF d(2)] Cons.prems(2) d(1) show ?case by simp
qed

end
