(* ===== verification/ServerWaiting.thy ===== *)
theory ServerWaiting
  imports ServerSystem
begin

text \<open>
  A query that ends after the server's data: the router handler stores it as a pending request and
  sends nothing; the ingest handler answers it when the queue has reached its end.
\<close>

section \<open>The request is stored\<close>

definition waiting_request :: "client_ptr \<Rightarrow> tpq_codec \<Rightarrow> request_t" where
  "waiting_request p m = \<lparr>rq_client = p, rq_detmask = detmask m, rq_tstart = query_beg m, rq_seqno = seqno m\<rparr>"

lemma waiting_execute:
  assumes "heap s p = Some c" "cl_state c = connected_state" "verdict (message s) s = Waiting"
  shows "\<exists>d. s_client_execute x p query_event s = Inr ((put_client p d s)\<lparr>pending := push_request (query_end (message s))
      (waiting_request p (message s)) (pending s)\<rparr>) \<and> cl_state d = connected_state \<and> cl_routing_id d = cl_routing_id c"
proof -
  let ?c = "c\<lparr>cl_next_event := query_event, cl_wakeup := False\<rparr>"
  let ?b = "begin_execute p query_event c s" and ?d = "begin_event ?c"
  have hb: "heap ?b p = Some ?c" by (simp add: begin_execute_def frame_simps)
  have v: "verdict (message s) (put_client p ?d s) = Waiting"
    using assms(3) by (auto simp: verdict_def frame_simps split: if_splits)
  have t: "pass x p ?c ?b = (put_client p ?d s)\<lparr>pending := push_request (query_end (message s))
      (waiting_request p (message s)) (pending s)\<rparr>" (is "_ = ?t")
    using assms(2) v by (simp add: pass_def react_def after_query_def waiting_request_def begin_execute_def Let_def frame_simps)
  have ht: "heap ?t p = Some ?d" by (simp add: frame_simps)
  have "s_client_execute x p query_event s = Inr ?t"
    using execute_run [OF assms(1)] loop_step [OF hb] assms(2) loop_done [OF ht] ht by (simp add: t next_of_def)
  then show ?thesis using assms(2) by (intro exI [of _ ?d]) simp
qed

lemma waiting_stored:
  assumes inv: "server_inv x s" "pending_inv s" "inj (strhex x)" "inbound (router s) = []"
    and m: "message_of k = Some (Query n qb qs qm qt)" "codec_ok k"
    and v: "sender_state x rid s = connected_state" "verdict k s = Waiting"
  shows "\<exists>s' p. s_server_handle_protocol x (deliver ((rid, True) # message_parts k) s) = Inr (0, s') \<and>
    server_inv x s' \<and> pending_inv s' \<and> outbound (router s') = outbound (router s) \<and>
    message_of (message s') = Some (Query n qb qs qm qt) \<and> rid_of s' p = rid \<and>
    request_alive s' (waiting_request p (message s')) \<and>
    pending s' = push_request (query_end (message s')) (waiting_request p (message s')) (pending s) \<and>
    iq s' = iq s \<and> payloads s' = payloads s \<and> own_detmask s' = own_detmask s"
proof -
  let ?s0 = "deliver ((rid, True) # message_parts k) s"
  have i: "server_inv x ?s0" "pending_inv ?s0" "inbound (router ?s0) = (rid, True) # message_parts k @ []"
    using inv by (auto simp: deliver_def server_inv_def keys_inv_def client_inv_def table_inv_def next_of_def
        pending_inv_def pending_sorted_def request_alive_def request_freed_def)
  obtain m1 where m1: "tpq_codec_recv (message ?s0) (router ?s0) = (0, m1, (router ?s0)\<lparr>inbound := []\<rparr>)"
    "routing_id m1 = Some rid" "message_of m1 = Some (Query n qb qs qm qt)"
    using message_received [OF i(1) m i(3)] by blast
  let ?s1 = "?s0\<lparr>message := m1, router := (router ?s0)\<lparr>inbound := []\<rparr>\<rparr>"
  obtain p c where p: "clients s (strhex x rid) = Some p" "heap s p = Some c" "cl_state c = connected_state"
    using v(1) by (auto simp: sender_state_def split: option.splits)
  have f: "seqno m1 = n" "tstart m1 = qb" "tspan m1 = qs" "detmask m1 = qm" "tstart k = qb" "tspan k = qs" "detmask k = qm"
    "codec_id m1 = TPQ_CODEC_QUERY"
    using m(1) m1(3) message_of_id [OF m1(3)] by (auto simp: message_of_def split: if_splits)
  have h: "heap ?s1 p = Some c" "client_of_sender x rid ?s1 = (p, ?s1)"
    using p by (simp_all add: deliver_def client_of_sender_def)
  have "query_beg m1 = query_beg k" "query_end m1 = query_end k" "detmask m1 = detmask k"
    using f by (simp_all add: query_beg_def query_end_def)
  then have "verdict (message ?s1) ?s1 = verdict k s" by (simp add: verdict_def deliver_def)
  then have "verdict (message ?s1) ?s1 = Waiting" using v(2) by simp
  from waiting_execute [OF h(1) p(3) this, of x]
  obtain d where d: "s_client_execute x p query_event ?s1 = Inr ((put_client p d ?s1)\<lparr>pending :=
      push_request (query_end m1) (waiting_request p m1) (pending ?s1)\<rparr>)" (is "_ = Inr ?t")
    "cl_state d = connected_state" "cl_routing_id d = cl_routing_id c"
    by auto
  have "strhex x (cl_routing_id c) = strhex x rid"
  proof -
    have "table_inv s" "keys_inv x s" using inv(1) by (simp_all add: server_inv_def client_inv_def)
    then show ?thesis using table_invD(2) [of s "strhex x rid" p] p by (auto simp: keys_inv_def)
  qed
  then have rid: "cl_routing_id c = rid" using inv(3) by (simp add: inj_eq)
  have it: "protocol_iteration x ?s0 = Inr (?t, True)"
    using m1(1,2) h(2) d(1) f(8) by (simp add: protocol_iteration_def Let_def s_protocol_event_def codec_ids)
  have ok: "server_inv x ?t" "pending_inv ?t" using protocol_iteration_total [OF i(1)] it i(2) by auto
  have ib: "inbound (router ?t) = []" by (simp add: frame_simps)
  have "s_server_handle_protocol x ?s0 = Inr (0, ?t)"
    using i(3) it ib by (subst s_server_handle_protocol.simps) (simp, simp add: s_server_handle_protocol.simps)
  then show ?thesis using ok m1(3) d rid
    by (intro exI [of _ ?t] exI [of _ p])
      (simp add: frame_simps rid_of_def request_alive_def waiting_request_def deliver_def put_client_def)
qed

section \<open>The request is answered\<close>

text \<open>What slurping does depends on the queue, the payloads and the mask only.\<close>

lemma slurp_same_queue:
  assumes "slurp x msgs s = Inr t" "iq s' = iq s" "payloads s' = payloads s" "own_detmask s' = own_detmask s"
  shows "\<exists>t'. slurp x msgs s' = Inr t' \<and> iq t' = iq t \<and> payloads t' = payloads t"
  using assms
proof (induction msgs arbitrary: s s')
  case (Cons m ms)
  have a: "accepted s' = accepted s" using Cons.prems(4) by (rule accepted_cong)
  obtain u where u: "slurp_one x m s = Inr u" "slurp x ms u = Inr t" using Cons.prems(1) by (auto elim: bind_fault_InrE)
  then obtain u' where u': "slurp_one x m s' = Inr u'" "iq u' = iq u" "payloads u' = payloads u" "own_detmask u' = own_detmask u"
    using Cons.prems(2-4) by (auto simp: slurp_one_run Let_def a split: if_splits)
  show ?case using Cons.IH [OF u(2) u'(2-4)] u'(1) by simp
qed simp

lemma push_first:
  assumes "\<forall>(j, rs)\<in>set q. k < j"
  shows "push_request k r q = (k, [r]) # q"
  using assms by (cases q) auto

lemma one_reply_sent: "replies_sent [(rid, r)] s s' \<Longrightarrow> sent_to rid (Some r) s s'"
  by (auto simp: replies_sent_def sent_to_def map_eq_Cons_conv)

lemma waiting_answered:
  assumes i: "server_inv x s" "queue_inv (iq s)" "pending_inv s"
    and p: "pending s = push_request k r q" "request_alive s r"
    and sl: "slurp x msgs s = Inr s1" "k \<le> upper_map (iq s1)" "\<forall>(j, rs)\<in>set q. upper_map (iq s1) < j"
    and sp: "is_i64 (upper_map (iq s1) - lower_map (iq s1))"
  shows "\<exists>s'. s_server_handle_ingest x msgs s = Inr s' \<and> pending s' = q \<and>
    sent_to (rid_of s (rq_client r)) (Some (Result (rq_seqno r) 200 (matching_frames x (message s) s1))) s s'"
proof -
  have e: "pending s = (k, [r]) # q" using p(1) push_first [of q k r] sl(2,3) by fastforce
  have d: "due_requests (upper_map (iq s1)) (pending s) = [r]"
    using sl(2,3) by (cases q) (auto simp: e due_requests_def)
  have "filter (\<lambda>(j, rs). upper_map (iq s1) < j) (pending s) = q"
    using sl(2,3) by (auto simp: e filter_id_conv)
  moreover have "pending_sorted s" using i(3) by (simp add: pending_inv_def)
  moreover have "request_reply x s1 r = (rid_of s (rq_client r), Result (rq_seqno r) 200 (matching_frames x (message s) s1))"
    using slurp_frame [OF sl(1)] by (simp add: request_reply_def rid_of_def)
  ultimately show ?thesis using ingest_run [OF i(1,2) _ sl(1) _ sp] p(2) d one_reply_sent by fastforce
qed

end
