(* ===== verification/ClientState.thy ===== *)
theory ClientState
  imports CodecWire
begin

text \<open>
  The client actor (\<open>src/tpq_client.cpp\<close> and \<open>src/tpq_client_engine.inc\<close>): its state, the
  functions the engine offers to the actions, and the actions. The application part \<open>client_t\<close>
  and the engine part \<open>s_client_t\<close> are one record, as the engine embeds the former; names that the
  server uses too carry the suffix \<open>_c\<close>.

  What the actor sends to its caller over the command and message pipes is a sequence of
  \<open>api_reply\<close>, one constructor for each picture it sends. A timer is a flag that tells whether it
  is armed. The argument \<open>connect_fails\<close> tells for which endpoints \<open>zsock_connect\<close> reports an error.
\<close>

section \<open>State\<close>

datatype state_c = start_c | expect_coverage_c | connected_c | defaults_c | have_error_c | reconnecting_c

datatype event_c = NULL_c | say_hello_c | bad_endpoint_c | coverage_c | query_c | result_c | destructor_c
  | goodbye_ok_c | expired_c | pong_c | error_c | exception_c | command_invalid_c | other_c | hello_ok_c

datatype api_reply = Connected int u64 | ResultReply u32 u16 zmsg | Success int | Failure int string
  | ConnectedFlag bool | Signal int

record client_args =
  arg_nickname :: "frame option"
  arg_endpoint :: "frame option"
  arg_tstart :: u64
  arg_tspan :: u64
  arg_detmask :: u64
  arg_timeout :: u32

record client =
  c_dealer :: zsock
  c_message :: tpq_codec
  c_args :: client_args
  c_cmdpipe :: "api_reply list"
  c_msgpipe :: "api_reply list"
  c_heartbeat_timer :: int
  c_retries :: int
  c_seqno :: int
  c_detmask :: u64
  c_verbose :: bool
  c_connected :: bool
  c_terminated :: bool
  c_fsm_stopped :: bool
  c_expiry :: u64
  c_heartbeat :: u64
  c_state :: state_c
  c_event :: event_c
  c_next_event :: event_c
  c_exception :: event_c
  c_expiry_timer :: bool
  c_wakeup_timer :: bool
  c_wakeup_event :: event_c

definition no_args :: client_args where
  "no_args = \<lparr>arg_nickname = None, arg_endpoint = None, arg_tstart = 0, arg_tspan = 0, arg_detmask = 0, arg_timeout = 0\<rparr>"

definition s_client_new_c :: client where
  "s_client_new_c = \<lparr>c_dealer = idle DEALER, c_message = tpq_codec_new, c_args = no_args, c_cmdpipe = [],
     c_msgpipe = [], c_heartbeat_timer = 1000, c_retries = 0, c_seqno = 0, c_detmask = 0, c_verbose = False,
     c_connected = False, c_terminated = False, c_fsm_stopped = False, c_expiry = 0, c_heartbeat = 0,
     c_state = start_c, c_event = NULL_c, c_next_event = NULL_c, c_exception = NULL_c, c_expiry_timer = False,
     c_wakeup_timer = False, c_wakeup_event = NULL_c\<rparr>"

section \<open>Engine functions for the actions\<close>

definition engine_set_next_event_c :: "event_c \<Rightarrow> client \<Rightarrow> client" where
  "engine_set_next_event_c e c = c\<lparr>c_next_event := e\<rparr>"

definition engine_set_exception_c :: "event_c \<Rightarrow> client \<Rightarrow> client" where
  "engine_set_exception_c e c = c\<lparr>c_exception := e\<rparr>"

definition engine_set_wakeup_event_c :: "event_c \<Rightarrow> client \<Rightarrow> client" where
  "engine_set_wakeup_event_c e c = c\<lparr>c_wakeup_timer := True, c_wakeup_event := e\<rparr>"

definition engine_set_heartbeat :: "u64 \<Rightarrow> client \<Rightarrow> client" where
  "engine_set_heartbeat h c = c\<lparr>c_heartbeat := h\<rparr>"

definition engine_set_expiry :: "u64 \<Rightarrow> client \<Rightarrow> client" where
  "engine_set_expiry e c = c\<lparr>c_expiry := e, c_expiry_timer := (e \<noteq> 0)\<rparr>"

definition engine_set_connected :: "bool \<Rightarrow> client \<Rightarrow> client" where
  "engine_set_connected b c = c\<lparr>c_connected := b\<rparr>"

section \<open>Actions\<close>

text \<open>A signed 32-bit counter overflows into undefined behaviour.\<close>

definition incr_i32 :: "int \<Rightarrow> fault + int" where
  "incr_i32 n = (if n + 1 < 2 ^ 31 then Inr (n + 1) else Inl SignedOverflow)"

definition set_nickname :: "client \<Rightarrow> fault + client" where
  "set_nickname c = (case arg_nickname (c_args c) of None \<Rightarrow> Inl AssertFailed
     | Some v \<Rightarrow> Inr (c\<lparr>c_message := tpq_codec_set_nickname (c_message c) v\<rparr>))"

definition use_connect_timeout :: "client \<Rightarrow> fault + client" where
  "use_connect_timeout c = Inr (engine_set_expiry (ucast (arg_timeout (c_args c))) c)"

definition connect_to_server :: "(frame option \<Rightarrow> bool) \<Rightarrow> client \<Rightarrow> fault + client" where
  "connect_to_server connect_fails c =
     Inr (if connect_fails (arg_endpoint (c_args c)) then engine_set_exception_c bad_endpoint_c c else c)"

definition signal_connected :: "client \<Rightarrow> fault + client" where
  "signal_connected c = (let m = detmask (c_message c) in
     Inr (c\<lparr>c_detmask := m, c_cmdpipe := c_cmdpipe c @ [Connected 0 m]\<rparr>))"

definition client_is_connected :: "client \<Rightarrow> fault + client" where
  "client_is_connected c =
     Inr (engine_set_expiry (word_of_int (c_heartbeat_timer c)) (engine_set_connected True (c\<lparr>c_retries := 0\<rparr>)))"

definition set_query :: "client \<Rightarrow> fault + client" where
  "set_query c = bind_fault (incr_i32 (c_seqno c)) (\<lambda>n.
     let m = tpq_codec_set_seqno (c_message c) (word_of_int n);
         m = tpq_codec_set_tstart m (arg_tstart (c_args c));
         m = tpq_codec_set_tspan m (arg_tspan (c_args c));
         m = tpq_codec_set_detmask m (arg_detmask (c_args c));
         m = tpq_codec_set_timeout m (arg_timeout (c_args c))
     in Inr (c\<lparr>c_seqno := n, c_message := m\<rparr>))"

definition signal_result :: "client \<Rightarrow> fault + client" where
  "signal_result c = (case payload (c_message c) of None \<Rightarrow> Inl AssertFailed
     | Some msg \<Rightarrow> Inr (c\<lparr>c_cmdpipe := c_cmdpipe c
                      @ [ResultReply (seqno (c_message c)) (status (c_message c)) msg]\<rparr>))"

definition check_if_connection_is_dead :: "client \<Rightarrow> fault + client" where
  "check_if_connection_is_dead c = bind_fault (incr_i32 (c_retries c)) (\<lambda>n.
     Inr (if n \<ge> 3
          then engine_set_exception_c exception_c (engine_set_connected False (engine_set_expiry 0 (c\<lparr>c_retries := n\<rparr>)))
          else c\<lparr>c_retries := n\<rparr>))"

definition check_status_code :: "client \<Rightarrow> fault + client" where
  "check_status_code c = Inr (if status (c_message c) = 502
     then engine_set_next_event_c command_invalid_c c else engine_set_next_event_c other_c c)"

definition signal_internal_error :: "client \<Rightarrow> fault + client" where
  "signal_internal_error c =
     Inr (c\<lparr>c_cmdpipe := c_cmdpipe c @ [Failure (- 1) ''Internal server error''],
            c_msgpipe := c_msgpipe c @ [Failure (- 1) ''Internal server error'']\<rparr>)"

text \<open>The remaining actions write to the log only.\<close>

definition signal_success :: "client \<Rightarrow> fault + client" where
  "signal_success c = Inr c"

definition signal_unhandled_error :: "client \<Rightarrow> fault + client" where
  "signal_unhandled_error c = Inr c"

definition signal_bad_endpoint :: "client \<Rightarrow> fault + client" where
  "signal_bad_endpoint c = Inr c"

lemmas client_actions = set_nickname_def use_connect_timeout_def connect_to_server_def signal_connected_def
  client_is_connected_def set_query_def signal_result_def check_if_connection_is_dead_def check_status_code_def
  signal_internal_error_def signal_success_def signal_unhandled_error_def signal_bad_endpoint_def
  engine_set_next_event_c_def engine_set_exception_c_def engine_set_expiry_def engine_set_connected_def

end
