(* ===== verification/ClientEngine.thy ===== *)
theory ClientEngine
  imports ClientState
begin

text \<open>
  The engine of the client actor (\<open>src/tpq_client_engine.inc\<close>): the state machine, one
  function per state, the loop that runs it as long as there are events, and the handlers of the
  expiry and wakeup timers, of the two pipes and of the dealer socket. The execution of one event
  ends because only \<open>say_hello\<close>, \<open>expired\<close> and \<open>ERROR\<close> lead to another event, which leads to none.
\<close>

section \<open>Building blocks\<close>

definition guarded_c :: "(client \<Rightarrow> fault + client) \<Rightarrow> client \<Rightarrow> fault + client" where
  "guarded_c act c = (if c_exception c = NULL_c then act c else Inr c)"

definition seq_c :: "(client \<Rightarrow> fault + client) \<Rightarrow> (client \<Rightarrow> fault + client) \<Rightarrow> client \<Rightarrow> fault + client" where
  "seq_c f g c = bind_fault (f c) g"

definition send_c :: "int \<Rightarrow> client \<Rightarrow> fault + client" where
  "send_c i c = (let m = tpq_codec_set_id (c_message c) i
     in Inr (c\<lparr>c_message := m, c_dealer := snd (tpq_codec_send m (c_dealer c))\<rparr>))"

definition terminate_c :: "client \<Rightarrow> fault + client" where
  "terminate_c c = Inr (c\<lparr>c_fsm_stopped := True\<rparr>)"

definition goto_c :: "state_c \<Rightarrow> client \<Rightarrow> fault + client" where
  "goto_c st c = Inr (c\<lparr>c_state := st\<rparr>)"

text \<open>Branches that several states have.\<close>

definition on_destructor_c :: "client \<Rightarrow> fault + client" where
  "on_destructor_c = guarded_c (send_c TPQ_CODEC_GOODBYE)"

definition on_goodbye_ok_c :: "client \<Rightarrow> fault + client" where
  "on_goodbye_ok_c = seq_c (guarded_c signal_success) (guarded_c terminate_c)"

definition on_expired_c :: "client \<Rightarrow> fault + client" where
  "on_expired_c = seq_c (guarded_c check_if_connection_is_dead) (guarded_c (send_c TPQ_CODEC_PING))"

definition on_pong_c :: "client \<Rightarrow> fault + client" where
  "on_pong_c = guarded_c client_is_connected"

definition on_error_c :: "client \<Rightarrow> fault + client" where
  "on_error_c = seq_c (guarded_c check_status_code) (guarded_c (goto_c have_error_c))"

definition on_unexpected_c :: "client \<Rightarrow> fault + client" where
  "on_unexpected_c = seq_c (guarded_c signal_internal_error) (guarded_c terminate_c)"

section \<open>The states\<close>

definition start_step_c :: "(frame option \<Rightarrow> bool) \<Rightarrow> event_c \<Rightarrow> client \<Rightarrow> fault + client" where
  "start_step_c connect_fails e =
     (if e = say_hello_c then
        seq_c (guarded_c set_nickname)
        (seq_c (guarded_c use_connect_timeout)
        (seq_c (guarded_c (connect_to_server connect_fails))
        (seq_c (guarded_c (send_c TPQ_CODEC_HELLO)) (guarded_c (goto_c expect_coverage_c)))))
      else if e = bad_endpoint_c then seq_c (guarded_c signal_bad_endpoint) (guarded_c terminate_c)
      else (\<lambda>c. Inl AssertFailed))"

definition defaults_step_c :: "event_c \<Rightarrow> client \<Rightarrow> fault + client" where
  "defaults_step_c e =
     (if e = destructor_c then on_destructor_c
      else if e = goodbye_ok_c then on_goodbye_ok_c
      else if e = expired_c then on_expired_c
      else if e = pong_c then on_pong_c
      else if e = error_c then on_error_c
      else if e = exception_c then Inr
      else on_unexpected_c)"

definition expect_coverage_step_c :: "event_c \<Rightarrow> client \<Rightarrow> fault + client" where
  "expect_coverage_step_c e =
     (if e = coverage_c then
        seq_c (guarded_c signal_connected) (seq_c (guarded_c client_is_connected) (guarded_c (goto_c connected_c)))
      else if e = destructor_c then on_destructor_c
      else if e = goodbye_ok_c then on_goodbye_ok_c
      else if e = expired_c then on_expired_c
      else if e = pong_c then on_pong_c
      else if e = error_c then on_error_c
      else if e = exception_c then Inr
      else on_unexpected_c)"

definition connected_step_c :: "event_c \<Rightarrow> client \<Rightarrow> fault + client" where
  "connected_step_c e =
     (if e = query_c then seq_c (guarded_c set_query) (guarded_c (send_c TPQ_CODEC_QUERY))
      else if e = result_c then guarded_c signal_result
      else if e = destructor_c then on_destructor_c
      else if e = goodbye_ok_c then on_goodbye_ok_c
      else if e = expired_c then on_expired_c
      else if e = pong_c then on_pong_c
      else if e = error_c then on_error_c
      else if e = exception_c then Inr
      else on_unexpected_c)"

definition have_error_step_c :: "event_c \<Rightarrow> client \<Rightarrow> fault + client" where
  "have_error_step_c e =
     (if e = command_invalid_c then
        seq_c (guarded_c use_connect_timeout)
        (seq_c (guarded_c (send_c TPQ_CODEC_HELLO)) (guarded_c (goto_c reconnecting_c)))
      else if e = other_c then seq_c (guarded_c signal_unhandled_error) (guarded_c terminate_c)
      else (\<lambda>c. Inl AssertFailed))"

definition reconnecting_step_c :: "event_c \<Rightarrow> client \<Rightarrow> fault + client" where
  "reconnecting_step_c e =
     (if e = hello_ok_c then seq_c (guarded_c client_is_connected) (guarded_c (goto_c connected_c))
      else if e = destructor_c then on_destructor_c
      else if e = goodbye_ok_c then on_goodbye_ok_c
      else if e = expired_c then on_expired_c
      else if e = pong_c then on_pong_c
      else if e = error_c then on_error_c
      else if e = exception_c then Inr
      else on_unexpected_c)"

definition state_step_c :: "(frame option \<Rightarrow> bool) \<Rightarrow> state_c \<Rightarrow> event_c \<Rightarrow> client \<Rightarrow> fault + client" where
  "state_step_c connect_fails st e = (case st of
     start_c \<Rightarrow> start_step_c connect_fails e | expect_coverage_c \<Rightarrow> expect_coverage_step_c e
   | connected_c \<Rightarrow> connected_step_c e | defaults_c \<Rightarrow> defaults_step_c e
   | have_error_c \<Rightarrow> have_error_step_c e | reconnecting_c \<Rightarrow> reconnecting_step_c e)"

section \<open>Executing events\<close>

definition client_iteration_c :: "(frame option \<Rightarrow> bool) \<Rightarrow> client \<Rightarrow> fault + client" where
  "client_iteration_c connect_fails c =
     (let e = c_next_event c;
          c1 = c\<lparr>c_event := e, c_next_event := NULL_c, c_exception := NULL_c\<rparr>
      in bind_fault (state_step_c connect_fails (c_state c) e c1) (\<lambda>c.
           Inr (if c_exception c \<noteq> NULL_c then c\<lparr>c_next_event := c_exception c\<rparr> else c)))"

definition running_c :: "client \<Rightarrow> bool" where
  "running_c c \<longleftrightarrow> \<not> c_terminated c \<and> \<not> c_fsm_stopped c \<and> c_next_event c \<noteq> NULL_c"

definition event_rank_c :: "event_c \<Rightarrow> nat" where
  "event_rank_c e = (if e = NULL_c then 0 else if e = say_hello_c \<or> e = expired_c \<or> e = error_c then 2 else 1)"

lemmas client_steps = state_step_c_def start_step_c_def expect_coverage_step_c_def connected_step_c_def
  defaults_step_c_def have_error_step_c_def reconnecting_step_c_def on_destructor_c_def on_goodbye_ok_c_def
  on_expired_c_def on_pong_c_def on_error_c_def on_unexpected_c_def guarded_c_def seq_c_def send_c_def
  terminate_c_def goto_c_def Let_def

text \<open>What a pass can lead to: events of rank one after one of rank two, and none after one of rank one.\<close>

definition ready_c :: "event_c \<Rightarrow> client \<Rightarrow> client" where
  "ready_c e c = c\<lparr>c_event := e, c_next_event := NULL_c, c_exception := NULL_c\<rparr>"

lemma state_step_rank:
  assumes "state_step_c f st e (ready_c e c) = Inr d" "e \<noteq> NULL_c"
  shows "event_rank_c (if c_exception d \<noteq> NULL_c then c_exception d else c_next_event d) < event_rank_c e"
  using assms
  by (cases st; cases e)
    (simp_all add: client_steps client_actions ready_c_def incr_i32_def event_rank_c_def split: if_splits option.splits,
     (force simp: event_rank_c_def)+)

lemma iteration_rank_c:
  assumes "client_iteration_c f c = Inr c'" "c_next_event c \<noteq> NULL_c"
  shows "event_rank_c (c_next_event c') < event_rank_c (c_next_event c)"
proof -
  obtain d where d: "state_step_c f (c_state c) (c_next_event c) (ready_c (c_next_event c) c) = Inr d"
    "c' = (if c_exception d \<noteq> NULL_c then d\<lparr>c_next_event := c_exception d\<rparr> else d)"
    using assms(1) by (auto simp: client_iteration_c_def ready_c_def Let_def bind_fault_Inr_iff)
  show ?thesis using state_step_rank [OF d(1) assms(2)] unfolding d(2) by (simp split: if_splits)
qed

function client_loop_c :: "(frame option \<Rightarrow> bool) \<Rightarrow> client \<Rightarrow> fault + client" where
  "client_loop_c connect_fails c =
     (if running_c c then bind_fault (client_iteration_c connect_fails c) (client_loop_c connect_fails) else Inr c)"
  by pat_completeness auto

termination
  by (relation "measure (\<lambda>(f, c). event_rank_c (c_next_event c))") (auto simp: running_c_def intro: iteration_rank_c)

declare client_loop_c.simps [simp del]

definition s_client_execute_c :: "(frame option \<Rightarrow> bool) \<Rightarrow> event_c \<Rightarrow> client \<Rightarrow> fault + client" where
  "s_client_execute_c connect_fails e c =
     client_loop_c connect_fails (c\<lparr>c_next_event := e, c_wakeup_timer := False\<rparr>)"

section \<open>Handlers\<close>

definition s_protocol_event_c :: "client \<Rightarrow> event_c \<times> client" where
  "s_protocol_event_c c = (let i = codec_id (c_message c) in
     if i = TPQ_CODEC_COVERAGE then (coverage_c, c)
     else if i = TPQ_CODEC_QUERY then (query_c, c)
     else if i = TPQ_CODEC_RESULT then (result_c, c)
     else if i = TPQ_CODEC_PONG then (pong_c, c)
     else if i = TPQ_CODEC_GOODBYE_OK then (goodbye_ok_c, c)
     else if i = TPQ_CODEC_ERROR then (error_c, c)
     else (NULL_c, c\<lparr>c_terminated := True\<rparr>))"

definition s_client_handle_expiry :: "(frame option \<Rightarrow> bool) \<Rightarrow> client \<Rightarrow> fault + int \<times> client" where
  "s_client_handle_expiry connect_fails c = bind_fault (s_client_execute_c connect_fails expired_c c) (\<lambda>c.
     if c_terminated c then Inr (- 1, c)
     else Inr (0, if c_expiry c > 0 then c\<lparr>c_expiry_timer := True\<rparr> else c))"

definition s_client_handle_wakeup_c :: "(frame option \<Rightarrow> bool) \<Rightarrow> client \<Rightarrow> fault + int \<times> client" where
  "s_client_handle_wakeup_c connect_fails c =
     bind_fault (s_client_execute_c connect_fails (c_wakeup_event c) c) (\<lambda>c. Inr (0, c))"

text \<open>A command from the caller, as its method and the arguments its picture reads.\<close>

datatype api_command = TermCmd | ConnectedCmd | VerboseCmd bool | SayHelloCmd "frame option" "frame option"
  | QueryCmd u64 u64 u64 u32 | OtherCmd frame

definition s_client_handle_cmdpipe :: "(frame option \<Rightarrow> bool) \<Rightarrow> api_command \<Rightarrow> client \<Rightarrow> fault + int \<times> client" where
  "s_client_handle_cmdpipe connect_fails cmd c = bind_fault
     (case cmd of
        TermCmd \<Rightarrow> Inr (c\<lparr>c_terminated := True\<rparr>)
      | ConnectedCmd \<Rightarrow> Inr (c\<lparr>c_cmdpipe := c_cmdpipe c @ [ConnectedFlag (c_connected c)]\<rparr>)
      | VerboseCmd b \<Rightarrow> Inr (c\<lparr>c_verbose := b\<rparr>)
      | SayHelloCmd nick endpoint \<Rightarrow> s_client_execute_c connect_fails say_hello_c
          (c\<lparr>c_args := (c_args c)\<lparr>arg_nickname := nick, arg_endpoint := endpoint\<rparr>\<rparr>)
      | QueryCmd qb qs qm qt \<Rightarrow> s_client_execute_c connect_fails query_c
          (c\<lparr>c_args := (c_args c)\<lparr>arg_tstart := qb, arg_tspan := qs, arg_detmask := qm, arg_timeout := qt\<rparr>\<rparr>)
      | OtherCmd _ \<Rightarrow> Inr c)
     (\<lambda>c. Inr (if c_terminated c then - 1 else 0, c))"

text \<open>The message pipe: its argument is the methods of the messages that wait on it.\<close>

primrec s_client_handle_msgpipe :: "string list \<Rightarrow> client \<Rightarrow> int \<times> client" where
  "s_client_handle_msgpipe [] c = (0, c)"
| "s_client_handle_msgpipe (meth # meths) c = s_client_handle_msgpipe meths
     (if meth = ''$FLUSH'' then c\<lparr>c_cmdpipe := c_cmdpipe c @ [Signal 0]\<rparr> else c)"

definition protocol_iteration_c :: "(frame option \<Rightarrow> bool) \<Rightarrow> client \<Rightarrow> fault + client \<times> bool" where
  "protocol_iteration_c connect_fails c =
     (case tpq_codec_recv (c_message c) (c_dealer c) of (rc, m, sk) \<Rightarrow>
        let c1 = c\<lparr>c_message := m, c_dealer := sk\<rparr>
        in if rc \<noteq> 0 then Inr (c1, False)
           else let c2 = c1\<lparr>c_expiry_timer := (c_expiry c1 \<noteq> 0)\<rparr>
                in (case s_protocol_event_c c2 of (e, c3) \<Rightarrow>
                      bind_fault (s_client_execute_c connect_fails e c3) (\<lambda>c4. Inr (c4, \<not> c_terminated c4))))"

section \<open>Every pass of the dealer's handler consumes input\<close>

lemma send_inbound_c: "inbound (snd (tpq_codec_send m sk)) = inbound sk"
  by (rule send_inbound)

lemma step_inbound_c:
  assumes "state_step_c f st e c = Inr d"
  shows "inbound (c_dealer d) = inbound (c_dealer c)"
  using assms
  by (cases st; cases e)
    (auto simp: client_steps client_actions send_inbound Let_def split: if_splits option.splits elim!: bind_fault_InrE)

lemma loop_inbound_c: "client_loop_c f c = Inr d \<Longrightarrow> inbound (c_dealer d) = inbound (c_dealer c)"
proof (induction f c arbitrary: d rule: client_loop_c.induct)
  case (1 f c)
  show ?case
  proof (cases "running_c c")
    case True
    then obtain t where t: "client_iteration_c f c = Inr t" "client_loop_c f t = Inr d"
      using "1.prems" by (subst (asm) client_loop_c.simps) (auto elim: bind_fault_InrE)
    have "inbound (c_dealer t) = inbound (c_dealer c)"
      using t(1) by (auto simp: client_iteration_c_def Let_def elim!: bind_fault_InrE dest!: step_inbound_c split: if_splits)
    then show ?thesis using "1.IH" [OF True t(1) t(2)] by simp
  qed (use "1.prems" in \<open>simp add: client_loop_c.simps\<close>)
qed

lemma protocol_iteration_c_length:
  assumes "protocol_iteration_c f c = Inr (d, go)" "inbound (c_dealer c) \<noteq> []"
  shows "length (inbound (c_dealer d)) < length (inbound (c_dealer c))"
proof -
  obtain rc m sk where r: "tpq_codec_recv (c_message c) (c_dealer c) = (rc, m, sk)" by (metis prod_cases3)
  have "inbound (c_dealer d) = inbound sk"
    using assms(1) by (auto simp: protocol_iteration_c_def r Let_def s_client_execute_c_def s_protocol_event_c_def
        bind_fault_Inr_iff split: prod.splits if_splits dest!: loop_inbound_c)
  then show ?thesis using recv_length [OF r assms(2)] by simp
qed

function s_client_handle_protocol_c :: "(frame option \<Rightarrow> bool) \<Rightarrow> client \<Rightarrow> fault + int \<times> client" where
  "s_client_handle_protocol_c connect_fails c =
     (if inbound (c_dealer c) = [] then Inr (0, c)
      else bind_fault (protocol_iteration_c connect_fails c) (\<lambda>(c', go).
             if go then s_client_handle_protocol_c connect_fails c' else Inr (- 1, c')))"
  by pat_completeness auto

termination
  by (relation "measure (\<lambda>(f, c). length (inbound (c_dealer c)))") (auto dest: protocol_iteration_c_length)

declare s_client_handle_protocol_c.simps [simp del]

end
