(* ===== verification/ClientContract.thy ===== *)
theory ClientContract
  imports ClientEngine
begin

text \<open>
  The contract of the client's state machine: for a state and an event it gives the message that goes
  to the server, the replies that go to the caller, and the state, connection flag, expiry time,
  retry count and sequence number the client is left with. The engine implements it, including the passes that
  an exception or an internal event adds.
\<close>

section \<open>The contract\<close>

record outcome =
  o_sent :: "message option"
  o_cmd :: "api_reply list"
  o_msg :: "api_reply list"
  o_state :: state_c
  o_stopped :: bool
  o_connected :: bool
  o_expiry :: u64
  o_retries :: int
  o_seqno :: int

definition unchanged :: "client \<Rightarrow> outcome" where
  "unchanged c = \<lparr>o_sent = None, o_cmd = [], o_msg = [], o_state = c_state c, o_stopped = False,
     o_connected = c_connected c, o_expiry = c_expiry c, o_retries = c_retries c, o_seqno = c_seqno c\<rparr>"

definition hello_outcome :: "byte list \<Rightarrow> state_c \<Rightarrow> client \<Rightarrow> outcome" where
  "hello_outcome nick st c = (unchanged c)\<lparr>o_sent := Some (Hello nick), o_state := st,
     o_expiry := ucast (arg_timeout (c_args c))\<rparr>"

definition alive_outcome :: "state_c \<Rightarrow> client \<Rightarrow> outcome" where
  "alive_outcome st c = (unchanged c)\<lparr>o_state := st, o_connected := True,
     o_expiry := word_of_int (c_heartbeat_timer c), o_retries := 0\<rparr>"

definition contract_rest :: "client \<Rightarrow> event_c \<Rightarrow> fault + outcome" where
  "contract_rest c e =
     (if e = destructor_c then Inr ((unchanged c)\<lparr>o_sent := Some Goodbye\<rparr>)
      else if e = goodbye_ok_c then Inr ((unchanged c)\<lparr>o_stopped := True\<rparr>)
      else if e = expired_c then
        (if c_retries c + 1 \<ge> 2 ^ 31 then Inl SignedOverflow
         else if c_retries c + 1 \<ge> 3
         then Inr ((unchanged c)\<lparr>o_connected := False, o_expiry := 0, o_retries := c_retries c + 1\<rparr>)
         else Inr ((unchanged c)\<lparr>o_sent := Some Ping, o_retries := c_retries c + 1\<rparr>))
      else if e = pong_c then Inr (alive_outcome (c_state c) c)
      else if e = error_c then
        (if status (c_message c) = 502
         then Inr (hello_outcome (cstring (nickname (c_message c))) reconnecting_c c)
         else Inr ((unchanged c)\<lparr>o_state := have_error_c, o_stopped := True\<rparr>))
      else if e = exception_c then Inr (unchanged c)
      else Inr ((unchanged c)\<lparr>o_cmd := [Failure (- 1) ''Internal server error''],
                  o_msg := [Failure (- 1) ''Internal server error''], o_stopped := True\<rparr>))"

definition contract :: "(frame option \<Rightarrow> bool) \<Rightarrow> client \<Rightarrow> event_c \<Rightarrow> fault + outcome" where
  "contract connect_fails c e = (let a = c_args c; m = c_message c in case c_state c of
     start_c \<Rightarrow>
       if e = say_hello_c then (case arg_nickname a of None \<Rightarrow> Inl AssertFailed
         | Some v \<Rightarrow> if connect_fails (arg_endpoint a)
             then Inr ((unchanged c)\<lparr>o_expiry := ucast (arg_timeout a), o_stopped := True\<rparr>)
             else Inr (hello_outcome (take 255 (cstring v)) expect_coverage_c c))
       else if e = bad_endpoint_c then Inr ((unchanged c)\<lparr>o_stopped := True\<rparr>)
       else Inl AssertFailed
   | expect_coverage_c \<Rightarrow>
       if e = coverage_c then Inr ((alive_outcome connected_c c)\<lparr>o_cmd := [Connected 0 (detmask m)]\<rparr>)
       else contract_rest c e
   | connected_c \<Rightarrow>
       if e = query_c then
         (if c_seqno c + 1 \<ge> 2 ^ 31 then Inl SignedOverflow
          else Inr ((unchanged c)\<lparr>o_sent := Some (Query (word_of_int (c_seqno c + 1)) (arg_tstart a) (arg_tspan a)
                 (arg_detmask a) (arg_timeout a)), o_seqno := c_seqno c + 1\<rparr>))
       else if e = result_c then (case payload m of None \<Rightarrow> Inl AssertFailed
         | Some msg \<Rightarrow> Inr ((unchanged c)\<lparr>o_cmd := [ResultReply (seqno m) (status m) msg]\<rparr>))
       else contract_rest c e
   | defaults_c \<Rightarrow> contract_rest c e
   | have_error_c \<Rightarrow>
       if e = command_invalid_c then Inr (hello_outcome (cstring (nickname m)) reconnecting_c c)
       else if e = other_c then Inr ((unchanged c)\<lparr>o_stopped := True\<rparr>)
       else Inl AssertFailed
   | reconnecting_c \<Rightarrow>
       if e = hello_ok_c then Inr (alive_outcome connected_c c) else contract_rest c e)"

text \<open>A client that is in an outcome, compared with the client before.\<close>

definition sent_by :: "message option \<Rightarrow> client \<Rightarrow> client \<Rightarrow> bool" where
  "sent_by r c c' \<longleftrightarrow> (case r of
     None \<Rightarrow> outbound (c_dealer c') = outbound (c_dealer c)
   | Some msg \<Rightarrow> \<exists>m. message_of m = Some msg \<and> codec_ok m \<and>
       outbound (c_dealer c') = outbound (c_dealer c) @ message_parts m)"

definition in_outcome :: "client \<Rightarrow> outcome \<Rightarrow> client \<Rightarrow> bool" where
  "in_outcome c r c' \<longleftrightarrow> sent_by (o_sent r) c c' \<and> c_cmdpipe c' = c_cmdpipe c @ o_cmd r \<and>
     c_msgpipe c' = c_msgpipe c @ o_msg r \<and> c_state c' = o_state r \<and> c_fsm_stopped c' = o_stopped r \<and>
     c_connected c' = o_connected r \<and> c_expiry c' = o_expiry r \<and> c_retries c' = o_retries r \<and> c_seqno c' = o_seqno r \<and>
     \<not> c_terminated c' \<and> inbound (c_dealer c') = inbound (c_dealer c)"

definition meets :: "client \<Rightarrow> fault + outcome \<Rightarrow> fault + client \<Rightarrow> bool" where
  "meets c spec run \<longleftrightarrow> (case spec of
     Inl e \<Rightarrow> run = Inl e
   | Inr r \<Rightarrow> \<exists>c'. run = Inr c' \<and> in_outcome c r c')"

text \<open>Clients the engine works on: a DEALER socket and a codec with proper strings.\<close>

definition client_ok :: "client \<Rightarrow> bool" where
  "client_ok c \<longleftrightarrow> sock_type (c_dealer c) = DEALER \<and> codec_ok (c_message c)"

definition active :: "client \<Rightarrow> bool" where
  "active c \<longleftrightarrow> \<not> c_terminated c \<and> \<not> c_fsm_stopped c"

section \<open>The engine meets it\<close>

text \<open>At most two passes: the second handles the event the first one leads to.\<close>

definition pass_c :: "(frame option \<Rightarrow> bool) \<Rightarrow> client \<Rightarrow> fault + client" where
  "pass_c f c = (if running_c c then client_iteration_c f c else Inr c)"

lemma rank_stops: "event_rank_c (c_next_event c) = 0 \<Longrightarrow> client_loop_c f c = Inr c"
  by (subst client_loop_c.simps) (auto simp: running_c_def event_rank_c_def split: if_splits)

lemma rank_pass:
  assumes "pass_c f c = Inr d" "\<not> running_c d \<or> event_rank_c (c_next_event c) \<le> 1"
  shows "client_loop_c f d = Inr d"
proof (cases "running_c d")
  case True
  then have "event_rank_c (c_next_event d) = 0"
  proof (cases "running_c c")
    case True
    then show ?thesis using assms \<open>running_c d\<close> iteration_rank_c [of f c d] by (simp add: pass_c_def running_c_def)
  next
    case False
    then show ?thesis using assms(1) \<open>running_c d\<close> by (simp add: pass_c_def)
  qed
  then show ?thesis by (rule rank_stops)
qed (simp add: client_loop_c.simps)

lemma loop_pass: "client_loop_c f c = bind_fault (pass_c f c) (client_loop_c f)"
  by (subst client_loop_c.simps) (simp add: pass_c_def client_loop_c.simps)

lemma rank_bound: "event_rank_c e \<le> 2"
  by (simp add: event_rank_c_def)

lemma two_passes: "client_loop_c f c = bind_fault (pass_c f c) (pass_c f)"
proof (cases "pass_c f c")
  case (Inr d)
  show ?thesis
  proof (cases "running_c c \<and> running_c d")
    case True
    then have "event_rank_c (c_next_event d) \<le> 1"
      using Inr iteration_rank_c [of f c d] rank_bound [of "c_next_event c"]
      by (simp add: pass_c_def running_c_def)
    then have "bind_fault (pass_c f d) (client_loop_c f) = pass_c f d"
      using rank_pass [of f d] by (cases "pass_c f d") auto
    then show ?thesis using Inr loop_pass [of f d] by (simp add: loop_pass [of f c])
  next
    case False
    then have "\<not> running_c d" using Inr by (auto simp: pass_c_def split: if_splits)
    then show ?thesis using Inr by (simp add: loop_pass [of f c]) (simp add: client_loop_c.simps pass_c_def)
  qed
qed (simp add: loop_pass [of f c])

lemma execute_two_passes: "s_client_execute_c f e c =
    bind_fault (pass_c f (c\<lparr>c_next_event := e, c_wakeup_timer := False\<rparr>)) (pass_c f)"
  by (simp add: s_client_execute_c_def two_passes)

lemma sent_by_same: "outbound (c_dealer c') = outbound (c_dealer c) \<Longrightarrow> sent_by None c c'"
  by (simp add: sent_by_def)

lemma sent_by_send:
  assumes "message_of m = Some msg" "codec_ok m" "sock_type (c_dealer c) = DEALER" "c_dealer c' = snd (tpq_codec_send m (c_dealer c))"
  shows "sent_by (Some msg) c c'"
  using assms by (auto simp: sent_by_def send_outbound)

lemma set_nickname_ok:
  assumes "codec_ok m"
  shows "codec_ok (tpq_codec_set_nickname m v)" "cstring (nickname (tpq_codec_set_nickname m v)) = take 255 (cstring v)"
  using assms strncpy_ok [of "nickname m" v] by (simp_all add: codec_ok_def buf_ok_def tpq_codec_set_nickname_def)

lemmas pass_simps = pass_c_def running_c_def client_iteration_c_def client_steps client_actions incr_i32_def

text \<open>What the engine sends.\<close>

lemma sends:
  assumes "client_ok c"
  shows "c_dealer c' = snd (tpq_codec_send (tpq_codec_set_id (c_message c) TPQ_CODEC_PING) (c_dealer c)) \<Longrightarrow> sent_by (Some Ping) c c'"
    "c_dealer c' = snd (tpq_codec_send (tpq_codec_set_id (c_message c) TPQ_CODEC_GOODBYE) (c_dealer c)) \<Longrightarrow> sent_by (Some Goodbye) c c'"
    "c_dealer c' = snd (tpq_codec_send (tpq_codec_set_id (c_message c) TPQ_CODEC_HELLO) (c_dealer c)) \<Longrightarrow>
       sent_by (Some (Hello (cstring (nickname (c_message c))))) c c'"
    "c_dealer c' = snd (tpq_codec_send (tpq_codec_set_id (tpq_codec_set_nickname (c_message c) v) TPQ_CODEC_HELLO) (c_dealer c)) \<Longrightarrow>
       sent_by (Some (Hello (take 255 (cstring v)))) c c'"
    "c_dealer c' = snd (tpq_codec_send (tpq_codec_set_id (tpq_codec_set_timeout (tpq_codec_set_detmask (tpq_codec_set_tspan
         (tpq_codec_set_tstart (tpq_codec_set_seqno (c_message c) n) qb) qs) qm) qt) TPQ_CODEC_QUERY) (c_dealer c)) \<Longrightarrow>
       sent_by (Some (Query n qb qs qm qt)) c c'"
  by (erule sent_by_send [rotated 3]; use assms set_nickname_ok [of "c_message c" v] in \<open>simp add: client_ok_def
      message_of_def codec_ids tpq_codec_set_id_def tpq_codec_set_timeout_def tpq_codec_set_detmask_def
      tpq_codec_set_tspan_def tpq_codec_set_tstart_def tpq_codec_set_seqno_def\<close>)+

lemma engine_meets_contract:
  assumes "client_ok c" "active c" "e \<noteq> NULL_c"
  shows "meets c (contract f c e) (s_client_execute_c f e c)"
  using assms(2,3)
  by (cases "c_state c"; cases e)
    (simp_all add: meets_def in_outcome_def contract_def contract_rest_def unchanged_def hello_outcome_def
      alive_outcome_def execute_two_passes pass_simps active_def sends [OF assms(1)] sent_by_same send_inbound
      split: option.splits)

end
