(* ===== verification/ClientApi.thy ===== *)
theory ClientApi
  imports ClientContract
begin

text \<open>
  The class interface of the client (the second half of \<open>src/tpq_client_engine.inc\<close>): the calls an
  application makes. Each sends one command to the actor and then reads the command pipe until a
  reply it waits for arrives. The argument \<open>replies\<close> is what the actor has put on the pipe; a call
  that finds no such reply there blocks, which is the result \<open>None\<close> (it returns -1 only when the
  process is interrupted).
\<close>

section \<open>State\<close>

record tpq_client =
  a_status :: u32
  a_detmask :: u64
  a_seqno :: u32
  a_payload :: "zmsg option"
  a_reason :: "string option"

definition tpq_client_new :: tpq_client where
  "tpq_client_new = \<lparr>a_status = 0, a_detmask = 0, a_seqno = 0, a_payload = None, a_reason = None\<rparr>"

section \<open>Replies\<close>

text \<open>The first frame of a reply. That of \<open>$CONNECTED\<close> is a number, that of a signal is no string.\<close>

fun reply_name :: "api_reply \<Rightarrow> string" where
  "reply_name (Connected _ _) = ''CONNECTED''"
| "reply_name (ResultReply _ _ _) = ''RESULT''"
| "reply_name (Success _) = ''SUCCESS''"
| "reply_name (Failure _ _) = ''FAILURE''"
| "reply_name (ConnectedFlag b) = (if b then ''1'' else ''0'')"
| "reply_name (Signal _) = ''''"

text \<open>
  The other frames go to the fields of the object. The picture \<open>42p\<close> of a result stores sixteen bits
  for the status, so only the low half of the \<open>int\<close> field changes.
\<close>

fun load_reply :: "api_reply \<Rightarrow> tpq_client \<Rightarrow> tpq_client" where
  "load_reply (Connected st m) a = a\<lparr>a_status := word_of_int st, a_detmask := m\<rparr>"
| "load_reply (ResultReply n st p) a =
     a\<lparr>a_payload := Some p, a_seqno := n, a_status := (a_status a AND 0xFFFF0000) OR ucast st\<rparr>"
| "load_reply (Success st) a = a\<lparr>a_status := word_of_int st\<rparr>"
| "load_reply (Failure st r) a = a\<lparr>a_status := word_of_int st, a_reason := Some r\<rparr>"
| "load_reply (ConnectedFlag _) a = a"
| "load_reply (Signal _) a = a"

primrec s_accept_reply :: "string list \<Rightarrow> api_reply list \<Rightarrow> tpq_client \<Rightarrow> (api_reply list \<times> tpq_client) option" where
  "s_accept_reply filters [] a = None"
| "s_accept_reply filters (r # rs) a =
     (if reply_name r \<in> set filters then Some (rs, load_reply r a) else s_accept_reply filters rs a)"

section \<open>Calls\<close>

definition tpq_client_say_hello :: "frame \<Rightarrow> frame \<Rightarrow> api_command" where
  "tpq_client_say_hello nick endpoint = SayHelloCmd (Some (cstring nick)) (Some (cstring endpoint))"

definition say_hello_returns :: "api_reply list \<Rightarrow> tpq_client \<Rightarrow> (int \<times> api_reply list \<times> tpq_client) option" where
  "say_hello_returns replies a =
     map_option (\<lambda>(rest, a). (sint (a_status a), rest, a)) (s_accept_reply [''CONNECTED'', ''FAILURE''] replies a)"

definition tpq_client_query :: "u64 \<Rightarrow> u64 \<Rightarrow> u64 \<Rightarrow> u32 \<Rightarrow> api_command" where
  "tpq_client_query qb qs qm qt = QueryCmd qb qs qm qt"

definition query_returns :: "api_reply list \<Rightarrow> tpq_client \<Rightarrow> (int \<times> api_reply list \<times> tpq_client) option" where
  "query_returns replies a =
     map_option (\<lambda>(rest, a). (sint (a_status a), rest, a)) (s_accept_reply [''RESULT'', ''FAILURE''] replies a)"

text \<open>The first message on the pipe is taken for the answer; the first frame of any other reply is not
  a number and reads as 0.\<close>

fun tpq_client_connected :: "api_reply list \<Rightarrow> (bool \<times> api_reply list) option" where
  "tpq_client_connected [] = None"
| "tpq_client_connected (r # rs) = Some (r = ConnectedFlag True, rs)"

definition tpq_client_set_verbose :: "bool \<Rightarrow> api_command" where
  "tpq_client_set_verbose b = VerboseCmd b"

definition tpq_client_get_payload :: "tpq_client \<Rightarrow> zmsg option \<times> tpq_client" where
  "tpq_client_get_payload a = (a_payload a, a\<lparr>a_payload := None\<rparr>)"

definition tpq_client_get_reason :: "tpq_client \<Rightarrow> string option \<times> tpq_client" where
  "tpq_client_get_reason a = (a_reason a, a\<lparr>a_reason := None\<rparr>)"

text \<open>Destroying the object flushes the message pipe, waits until the signal that answers this has come,
  and ends the actor. The result is the actor at its end, or nothing when the wait does not end.\<close>

definition tpq_client_destroy :: "(frame option \<Rightarrow> bool) \<Rightarrow> client \<Rightarrow> fault + client option" where
  "tpq_client_destroy connect_fails c =
     (let c = snd (s_client_handle_msgpipe [''$FLUSH''] c) in
      if Signal 0 \<in> set (c_cmdpipe c)
      then bind_fault (s_client_handle_cmdpipe connect_fails TermCmd c) (\<lambda>(rc, c). Inr (if rc = - 1 then Some c else None))
      else Inr None)"

section \<open>What a call returns\<close>

text \<open>The object can always be destroyed. The server is not told: no \<open>GOODBYE\<close> is sent.\<close>

lemma destroy_ends:
  "\<exists>c'. tpq_client_destroy f c = Inr (Some c') \<and> c_terminated c' \<and> c_dealer c' = c_dealer c \<and> c_state c' = c_state c"
  by (simp add: tpq_client_destroy_def s_client_handle_cmdpipe_def)

text \<open>A pipe without a reply of the wanted kind.\<close>

lemma accept_blocks: "s_accept_reply filters rs a = None \<longleftrightarrow> (\<forall>r\<in>set rs. reply_name r \<notin> set filters)"
  by (induction rs) auto

lemma accept_skips:
  "\<forall>r\<in>set rs. reply_name r \<notin> set filters \<Longrightarrow> s_accept_reply filters (rs @ rs') a = s_accept_reply filters rs' a"
  by (induction rs) auto

lemma high_half: "bit (0xFFFF0000 :: u32) n \<Longrightarrow> 16 \<le> n"
proof (rule ccontr)
  have "\<forall>n\<in>set [0..<16]. \<not> bit (0xFFFF0000 :: u32) n" by code_simp
  then show "bit (0xFFFF0000 :: u32) n \<Longrightarrow> \<not> 16 \<le> n \<Longrightarrow> False" by auto
qed

lemma low_half: "(x :: u32) < 2 ^ 16 \<Longrightarrow> bit x n \<Longrightarrow> n < 16"
  by (metis bit_take_bit_iff less_mask_eq take_bit_eq_mask)

lemma status_low_half:
  assumes "a_status a < 2 ^ 16"
  shows "sint ((a_status a AND 0xFFFF0000) OR ucast (st :: u16) :: u32) = uint st"
proof -
  have z: "a_status a AND 0xFFFF0000 = 0"
    using low_half [OF assms] high_half by (intro bit_word_eqI) (fastforce simp: bit_and_iff)
  have "uint st < 65536" using uint_lt2p [of st] by simp
  moreover have "0 \<le> uint st" by simp
  ultimately have "take_bit 32 (uint st) = uint st" "signed_take_bit 31 (uint st) = uint st"
    unfolding take_bit_int_eq_self_iff signed_take_bit_int_eq_self_iff
    using order.trans [of "- 2147483648" 0 "uint st"] by auto
  then have "sint (ucast st :: u32) = uint st" by (simp add: sint_uint unsigned_ucast_eq)
  then show ?thesis by (simp add: z)
qed

lemma query_returns_result:
  assumes "a_status a < 2 ^ 16"
  shows "query_returns (ResultReply n st p # rest) a = Some (uint st, rest,
    a\<lparr>a_payload := Some p, a_seqno := n, a_status := (a_status a AND 0xFFFF0000) OR ucast st\<rparr>)"
  using status_low_half [OF assms, of st] by (simp add: query_returns_def)

lemma say_hello_returns_connected:
  "say_hello_returns (Connected 0 m # rest) a = Some (0, rest, a\<lparr>a_status := 0, a_detmask := m\<rparr>)"
  by (simp add: say_hello_returns_def)

end
