(* ===== verification/ClientSystem.thy ===== *)
theory ClientSystem
  imports ClientApi
begin

text \<open>
  The client actor as a whole: the reactor (\<open>tpq_client\<close>) calls one handler at a time, for input on
  the dealer and on the two pipes and for the two timers, until one returns -1. \<open>client_step\<close> is
  one such call; a state is reachable when a sequence of them leads to it from a new client.
  The invariant says which replies the caller can have been sent in each state.
\<close>

section \<open>Steps of the reactor\<close>

definition arrive :: "part list \<Rightarrow> client \<Rightarrow> client" where
  "arrive ps c = c\<lparr>c_dealer := (c_dealer c)\<lparr>inbound := inbound (c_dealer c) @ ps\<rparr>\<rparr>"

inductive client_step :: "(frame option \<Rightarrow> bool) \<Rightarrow> client \<Rightarrow> int \<times> client \<Rightarrow> bool" for f where
  dealer_input: "s_client_handle_protocol_c f (arrive ps c) = Inr r \<Longrightarrow> client_step f c r"
| command: "s_client_handle_cmdpipe f cmd c = Inr r \<Longrightarrow> client_step f c r"
| messages: "s_client_handle_msgpipe meths c = r \<Longrightarrow> client_step f c r"
| expiry: "c_expiry_timer c \<Longrightarrow> s_client_handle_expiry f c = Inr r \<Longrightarrow> client_step f c r"
| wakeup: "c_wakeup_timer c \<Longrightarrow> s_client_handle_wakeup_c f c = Inr r \<Longrightarrow> client_step f c r"

text \<open>The state the reactor is in after a number of calls, and whether it goes on.\<close>

inductive client_reachable :: "(frame option \<Rightarrow> bool) \<Rightarrow> int \<times> client \<Rightarrow> bool" for f where
  created: "client_reachable f (0, s_client_new_c)"
| stepped: "client_reachable f (0, c) \<Longrightarrow> client_step f c r \<Longrightarrow> client_reachable f r"

inductive_cases client_stepE: "client_step f c r"

section \<open>The invariant\<close>

definition is_connected :: "api_reply \<Rightarrow> bool" where
  "is_connected r \<longleftrightarrow> reply_name r = ''CONNECTED''"

definition is_result :: "api_reply \<Rightarrow> bool" where
  "is_result r \<longleftrightarrow> reply_name r = ''RESULT''"

definition connections :: "client \<Rightarrow> nat" where
  "connections c = length (filter is_connected (c_cmdpipe c))"

text \<open>No result comes before the reply that the connection is there.\<close>

definition results_late :: "api_reply list \<Rightarrow> bool" where
  "results_late rs \<longleftrightarrow> (\<forall>r\<in>set (takeWhile (Not \<circ> is_connected) rs). \<not> is_result r)"

definition replies_inv :: "client \<Rightarrow> bool" where
  "replies_inv c \<longleftrightarrow> results_late (c_cmdpipe c) \<and> c_state c \<noteq> defaults_c \<and>
     (if c_state c \<in> {start_c, expect_coverage_c} then connections c = 0
      else if c_state c = connected_c then connections c = 1 else connections c \<le> 1) \<and>
     (c_state c = have_error_c \<longrightarrow> c_fsm_stopped c) \<and>
     (c_state c = start_c \<longrightarrow> \<not> c_connected c \<and> outbound (c_dealer c) = [])"

definition client_inv_c :: "client \<Rightarrow> bool" where
  "client_inv_c c \<longleftrightarrow> client_ok c \<and> replies_inv c \<and> \<not> c_wakeup_timer c"

lemma results_late_append:
  "results_late (rs @ rs') \<longleftrightarrow> results_late rs \<and> (filter is_connected rs = [] \<longrightarrow> results_late rs')"
  by (induction rs) (auto simp: results_late_def)

lemma results_late_other: "\<forall>r\<in>set rs. \<not> is_result r \<Longrightarrow> results_late rs"
  by (auto simp: results_late_def dest: set_takeWhileD)

lemma not_connection [simp]:
  "\<not> is_connected (ResultReply n st m)" "\<not> is_connected (Failure k r)" "\<not> is_connected (ConnectedFlag b)"
  "\<not> is_connected (Signal k)" "is_connected (Connected k w)" "is_result (ResultReply n st m)"
  "\<not> is_result (Failure k r)" "\<not> is_result (ConnectedFlag b)" "\<not> is_result (Signal k)" "\<not> is_result (Connected k w)"
  by (simp_all add: is_connected_def is_result_def)

section \<open>Executing an event keeps it\<close>

text \<open>What an event can do: report the connection, report a result, or neither.\<close>

lemma contract_moves:
  assumes "contract f c e = Inr r" "e \<noteq> hello_ok_c" "c_state c \<noteq> defaults_c" "c_state c \<noteq> have_error_c"
  shows "(c_state c = expect_coverage_c \<and> o_state r = connected_c \<and> (\<exists>m. o_cmd r = [Connected 0 m])) \<or>
    (c_state c = connected_c \<and> o_state r = connected_c \<and> (\<exists>n st m. o_cmd r = [ResultReply n st m])) \<or>
    ((o_cmd r = [] \<or> (\<exists>k s. o_cmd r = [Failure k s])) \<and>
     (o_state r = c_state c \<or> o_state r = (if c_state c = start_c then expect_coverage_c else reconnecting_c) \<or>
      c_state c \<noteq> start_c \<and> o_state r = have_error_c \<and> o_stopped r))"
  using assms
  by (cases "c_state c"; cases e)
    (simp_all add: contract_def contract_rest_def unchanged_def hello_outcome_def alive_outcome_def Let_def
      split: if_splits option.splits, auto)

lemma contract_start:
  assumes "contract f c e = Inr r" "o_state r = start_c"
  shows "c_state c = start_c \<and> o_sent r = None \<and> o_connected r = c_connected c"
  using assms
  by (cases "c_state c"; cases e)
    (simp_all add: contract_def contract_rest_def unchanged_def hello_outcome_def alive_outcome_def Let_def
      split: if_splits option.splits, auto)

lemma contract_keeps_replies:
  assumes i: "replies_inv c" and r: "contract f c e = Inr r" "in_outcome c r c'" and e: "e \<noteq> hello_ok_c" and a: "active c"
  shows "replies_inv c'"
proof -
  have st: "c_state c \<noteq> defaults_c" "c_state c \<noteq> have_error_c"
    using i a by (auto simp: replies_inv_def active_def)
  have f: "c_cmdpipe c' = c_cmdpipe c @ o_cmd r" "c_state c' = o_state r" "c_fsm_stopped c' = o_stopped r"
    "c_connected c' = o_connected r" "sent_by (o_sent r) c c'"
    using r(2) by (simp_all add: in_outcome_def)
  have s: "c_state c' = start_c \<longrightarrow> \<not> c_connected c' \<and> outbound (c_dealer c') = []"
    using contract_start [OF r(1)] i f by (auto simp: replies_inv_def sent_by_def)
  note D = results_late_append results_late_other connections_def f
  from contract_moves [OF r(1) e st] show ?thesis
  proof (elim disjE exE conjE)
    fix n sts m assume c: "c_state c = connected_c" "o_state r = connected_c" "o_cmd r = [ResultReply n sts m]"
    then have "filter is_connected (c_cmdpipe c) \<noteq> []"
      using i by (auto simp: replies_inv_def connections_def)
    then show ?thesis using i c by (simp add: replies_inv_def D)
  qed (use i s st in \<open>auto simp: replies_inv_def D split: if_splits\<close>)
qed

lemma step_ok:
  assumes "state_step_c f st e c = Inr d" "client_ok c"
  shows "client_ok d \<and> c_wakeup_timer d = c_wakeup_timer c"
  using assms set_nickname_ok(1) [of "c_message c"]
  by (cases st; cases e)
    (auto simp: client_steps client_actions incr_i32_def client_ok_def tpq_codec_set_id_def tpq_codec_set_timeout_def
      tpq_codec_set_detmask_def tpq_codec_set_tspan_def tpq_codec_set_tstart_def tpq_codec_set_seqno_def send_socket
      split: if_splits option.splits)

lemma iteration_ok:
  assumes "client_iteration_c f c = Inr d" "client_ok c"
  shows "client_ok d \<and> c_wakeup_timer d = c_wakeup_timer c"
proof -
  obtain t where t: "state_step_c f (c_state c) (c_next_event c) (ready_c (c_next_event c) c) = Inr t"
    "d = (if c_exception t \<noteq> NULL_c then t\<lparr>c_next_event := c_exception t\<rparr> else t)"
    using assms(1) by (auto simp: client_iteration_c_def ready_c_def Let_def bind_fault_Inr_iff)
  have "client_ok t \<and> c_wakeup_timer t = c_wakeup_timer c"
    using step_ok [OF t(1)] assms(2) by (simp add: ready_c_def client_ok_def)
  then show ?thesis by (simp add: t(2) client_ok_def)
qed

lemma execute_ok:
  assumes "s_client_execute_c f e c = Inr d" "client_ok c"
  shows "client_ok d \<and> \<not> c_wakeup_timer d"
proof -
  have p: "client_ok d \<and> c_wakeup_timer d = c_wakeup_timer c" if "pass_c f c = Inr d" "client_ok c" for c d
    using that iteration_ok by (auto simp: pass_c_def split: if_splits)
  obtain t where "pass_c f (c\<lparr>c_next_event := e, c_wakeup_timer := False\<rparr>) = Inr t" "pass_c f t = Inr d"
    using assms(1) by (auto simp: execute_two_passes bind_fault_Inr_iff)
  moreover have "client_ok (c\<lparr>c_next_event := e, c_wakeup_timer := False\<rparr>)" using assms(2) by (simp add: client_ok_def)
  ultimately show ?thesis using p by fastforce
qed

lemma execute_idle:
  assumes "\<not> active c \<or> e = NULL_c"
  shows "s_client_execute_c f e c = Inr (c\<lparr>c_next_event := e, c_wakeup_timer := False\<rparr>)"
  using assms by (auto simp: execute_two_passes pass_c_def running_c_def active_def)

lemma replies_inv_cong:
  assumes "c_cmdpipe d = c_cmdpipe c" "c_state d = c_state c" "c_fsm_stopped d = c_fsm_stopped c"
    "c_connected d = c_connected c" "outbound (c_dealer d) = outbound (c_dealer c)"
  shows "replies_inv d = replies_inv c"
  using assms by (simp add: replies_inv_def connections_def)

lemma execute_keeps_inv:
  assumes i: "client_inv_c c" and r: "s_client_execute_c f e c = Inr d" and e: "e \<noteq> hello_ok_c"
  shows "client_inv_c d"
proof (cases "active c \<and> e \<noteq> NULL_c")
  case True
  then have "meets c (contract f c e) (Inr d)"
    using engine_meets_contract [of c e f] i r by (simp add: client_inv_c_def)
  then obtain q where q: "contract f c e = Inr q" "in_outcome c q d" by (auto simp: meets_def split: sum.splits)
  have "replies_inv c" using i by (simp add: client_inv_c_def)
  then have "replies_inv d" using contract_keeps_replies [OF _ q e] True by simp
  then show ?thesis using execute_ok [OF r] i by (simp add: client_inv_c_def)
next
  case False
  then have d: "d = c\<lparr>c_next_event := e, c_wakeup_timer := False\<rparr>" using execute_idle [of c e f] r by simp
  then have "replies_inv d = replies_inv c" by (intro replies_inv_cong) simp_all
  then show ?thesis using execute_ok [OF r] i by (simp add: client_inv_c_def)
qed

section \<open>Every handler keeps it\<close>

lemma recv_outbound: "tpq_codec_recv c sk = (rc, c', sk') \<Longrightarrow> outbound sk' = outbound sk"
proof -
  have b: "outbound (snd (snd (recv_body c bs rcv sk))) = outbound sk" for c bs rcv sk
    by (auto simp: recv_body_def recv_payload_def split: sum.splits prod.splits)
  have f: "outbound (snd (snd (recv_frame c sk))) = outbound sk" for c sk
    by (auto simp: recv_frame_def recv_part_def b split: option.splits list.splits)
  have "outbound (snd (snd (tpq_codec_recv c sk))) = outbound sk"
    by (auto simp: tpq_codec_recv_def recv_part_def f split: option.splits list.splits)
  then show "tpq_codec_recv c sk = (rc, c', sk') \<Longrightarrow> outbound sk' = outbound sk" by simp
qed

lemma client_ok_recv:
  assumes "client_ok c" "tpq_codec_recv (c_message c) (c_dealer c) = (rc, m, sk)"
  shows "codec_ok m" "sock_type sk = DEALER" "outbound sk = outbound (c_dealer c)"
  using assms recv_codec_ok [of "c_message c" "c_dealer c"] recv_socket [OF assms(2)] recv_outbound [OF assms(2)]
  by (simp_all add: client_ok_def)

lemma client_inv_cong:
  assumes "client_inv_c c" "client_ok d" "c_wakeup_timer d = c_wakeup_timer c"
    "c_cmdpipe d = c_cmdpipe c" "c_state d = c_state c" "c_fsm_stopped d = c_fsm_stopped c"
    "c_connected d = c_connected c" "outbound (c_dealer d) = outbound (c_dealer c)"
  shows "client_inv_c d"
  using assms replies_inv_cong [of d c] by (simp add: client_inv_c_def)

lemma outer_events: "s_protocol_event_c c = (e, d) \<Longrightarrow> e \<noteq> hello_ok_c \<and> d = c\<lparr>c_terminated := c_terminated d\<rparr>"
  by (auto simp: s_protocol_event_c_def Let_def split: if_splits)

lemma protocol_iteration_keeps_inv:
  assumes i: "client_inv_c c" and r: "protocol_iteration_c f c = Inr (d, go)"
  shows "client_inv_c d"
proof -
  obtain rc m sk where v: "tpq_codec_recv (c_message c) (c_dealer c) = (rc, m, sk)" by (metis prod_cases3)
  have ok: "client_ok c" using i by (simp add: client_inv_c_def)
  note R = client_ok_recv [OF ok v]
  let ?c1 = "c\<lparr>c_message := m, c_dealer := sk\<rparr>"
  have i1: "client_inv_c (?c1\<lparr>c_expiry_timer := b, c_terminated := t\<rparr>)" for b t
    by (rule client_inv_cong [OF i]) (use R in \<open>simp_all add: client_ok_def\<close>)
  show ?thesis
  proof (cases "rc = 0")
    case False
    then have "d = ?c1" using r by (simp add: protocol_iteration_c_def v Let_def)
    then show ?thesis using client_inv_cong [OF i, of d] R by (simp add: client_ok_def)
  next
    case True
    obtain e c3 where e: "s_protocol_event_c (?c1\<lparr>c_expiry_timer := (c_expiry c \<noteq> 0)\<rparr>) = (e, c3)" by fastforce
    then have "s_client_execute_c f e c3 = Inr d"
      using r True by (auto simp: protocol_iteration_c_def v Let_def bind_fault_Inr_iff)
    moreover have c3: "c3 = ?c1\<lparr>c_expiry_timer := (c_expiry c \<noteq> 0), c_terminated := c_terminated c3\<rparr>"
      using outer_events [OF e] by simp
    moreover have "client_inv_c c3" by (subst c3) (rule i1)
    ultimately show ?thesis using execute_keeps_inv outer_events [OF e] by blast
  qed
qed

lemma handle_protocol_keeps_inv:
  "s_client_handle_protocol_c f c = Inr (rc, d) \<Longrightarrow> client_inv_c c \<Longrightarrow> client_inv_c d"
proof (induction f c arbitrary: rc d rule: s_client_handle_protocol_c.induct)
  case (1 f c)
  show ?case
  proof (cases "inbound (c_dealer c) = []")
    case False
    then obtain t go where t: "protocol_iteration_c f c = Inr (t, go)"
      "(if go then s_client_handle_protocol_c f t else Inr (- 1, t)) = Inr (rc, d)"
      using "1.prems"(1) by (subst (asm) s_client_handle_protocol_c.simps) (auto elim!: bind_fault_InrE)
    then have "client_inv_c t" using protocol_iteration_keeps_inv "1.prems"(2) by blast
    then show ?thesis using "1.IH" [OF False t(1) refl] t(2) by (auto split: if_splits)
  qed (use "1.prems" in \<open>simp add: s_client_handle_protocol_c.simps\<close>)
qed

lemma replies_inv_flags:
  assumes "replies_inv c" "c_cmdpipe d = c_cmdpipe c @ rs" "\<forall>r\<in>set rs. \<not> is_connected r \<and> \<not> is_result r"
    "c_state d = c_state c" "c_fsm_stopped d = c_fsm_stopped c" "c_connected d = c_connected c"
    "outbound (c_dealer d) = outbound (c_dealer c)"
  shows "replies_inv d"
proof -
  have "connections d = connections c" "results_late (c_cmdpipe d) = results_late (c_cmdpipe c)"
    using assms(2,3) results_late_other [of rs] by (auto simp: connections_def results_late_append filter_empty_conv)
  then show ?thesis using assms by (auto simp: replies_inv_def split: if_splits)
qed

lemma cmdpipe_keeps_inv:
  assumes i: "client_inv_c c" and r: "s_client_handle_cmdpipe f cmd c = Inr (rc, d)"
  shows "client_inv_c d"
proof -
  have a: "client_inv_c (c\<lparr>c_args := q\<rparr>)" for q by (rule client_inv_cong [OF i]) (use i in \<open>simp_all add: client_inv_c_def client_ok_def\<close>)
  have f: "client_inv_c e" if "e = c\<lparr>c_cmdpipe := c_cmdpipe c @ [ConnectedFlag b]\<rparr>" for e b
    using i replies_inv_flags [of c e "[ConnectedFlag b]"] that by (simp add: client_inv_c_def client_ok_def)
  have s: "client_inv_c (c\<lparr>c_terminated := b\<rparr>)" "client_inv_c (c\<lparr>c_verbose := b\<rparr>)" for b
    by (rule client_inv_cong [OF i]; use i in \<open>simp add: client_inv_c_def client_ok_def\<close>)+
  show ?thesis using r i f s execute_keeps_inv [OF a]
    by (cases cmd) (auto simp: s_client_handle_cmdpipe_def bind_fault_Inr_iff)
qed

lemma msgpipe_keeps_inv: "client_inv_c c \<Longrightarrow> client_inv_c (snd (s_client_handle_msgpipe meths c))"
proof (induction meths arbitrary: c)
  case (Cons meth meths)
  have "client_inv_c (c\<lparr>c_cmdpipe := c_cmdpipe c @ [Signal 0]\<rparr>)"
    using Cons.prems replies_inv_flags [of c "c\<lparr>c_cmdpipe := c_cmdpipe c @ [Signal 0]\<rparr>" "[Signal 0]"]
    by (simp add: client_inv_c_def client_ok_def)
  then show ?case using Cons by simp
qed simp

lemma expiry_keeps_inv:
  assumes i: "client_inv_c c" and r: "s_client_handle_expiry f c = Inr (rc, d)"
  shows "client_inv_c d"
proof -
  obtain t where t: "s_client_execute_c f expired_c c = Inr t" "d = t \<or> d = t\<lparr>c_expiry_timer := True\<rparr>"
    using r by (auto simp: s_client_handle_expiry_def bind_fault_Inr_iff split: if_splits)
  have it: "client_inv_c t" using execute_keeps_inv [OF i t(1)] by simp
  have "client_inv_c (t\<lparr>c_expiry_timer := True\<rparr>)"
    by (rule client_inv_cong [OF it]) (use it in \<open>simp_all add: client_inv_c_def client_ok_def\<close>)
  then show ?thesis using it t(2) by auto
qed

lemma client_step_inv: "client_step f c r \<Longrightarrow> client_inv_c c \<Longrightarrow> client_inv_c (snd r)"
proof (induction rule: client_step.induct)
  case (dealer_input ps c r)
  have "client_inv_c (arrive ps c)"
    by (rule client_inv_cong [OF dealer_input(2)]) (use dealer_input(2) in \<open>simp_all add: client_inv_c_def client_ok_def arrive_def\<close>)
  then show ?case using dealer_input(1) handle_protocol_keeps_inv by (cases r) auto
next
  case (command cmd c r)
  then show ?case using cmdpipe_keeps_inv by (cases r) auto
next
  case (expiry c r)
  then show ?case using expiry_keeps_inv by (cases r) auto
next
  case (wakeup c r)
  then show ?case by (simp add: client_inv_c_def)
qed (auto intro: msgpipe_keeps_inv)

lemma new_client_inv: "client_inv_c s_client_new_c"
  using codec_ok_new by (simp add: client_inv_c_def client_ok_def replies_inv_def results_late_def connections_def
      s_client_new_c_def idle_def)

lemma client_reachable_inv: "client_reachable f r \<Longrightarrow> client_inv_c (snd r)"
proof (induction rule: client_reachable.induct)
  case (stepped c r)
  then show ?case using client_step_inv [of f c r] by simp
qed (simp add: new_client_inv)

end
