(* ===== verification/ClientSession.thy ===== *)
theory ClientSession
  imports ServerSystem ClientSystem
begin

text \<open>
  A client and a server that talk to each other: what the client puts on its DEALER socket arrives
  on the server's ROUTER socket behind the client's routing id, and what the server puts on its
  socket for that id arrives at the client. The lemmas follow one request from the command of the
  caller to the reply the caller is given.
\<close>

section \<open>Delivery\<close>

text \<open>The parts of a message depend on its content only, so a sender with proper strings could have
  sent them.\<close>

definition proper :: "tpq_codec \<Rightarrow> tpq_codec" where
  "proper k = k\<lparr>nickname := (strncpy255 (replicate 256 0) (nickname k))[255 := 0],
                reason := (strncpy255 (replicate 256 0) (reason k))[255 := 0]\<rparr>"

lemma proper_sender:
  assumes m: "message_of k = Some m" and l: "\<forall>s. m = Hello s \<longrightarrow> length s \<le> 255" "\<forall>st s. m = Error st s \<longrightarrow> length s \<le> 255"
  shows "codec_ok (proper k) \<and> message_of (proper k) = Some m \<and> message_parts (proper k) = message_parts k"
proof -
  note P = strncpy_ok [of "replicate 256 0"]
  have c: "cstring (nickname (proper k)) = take 255 (cstring (nickname k))"
    "cstring (reason (proper k)) = take 255 (cstring (reason k))"
    using P(2) by (simp_all add: proper_def)
  have i: "codec_id (proper k) = codec_id k" "detmask (proper k) = detmask k" "seqno (proper k) = seqno k"
    "tstart (proper k) = tstart k" "tspan (proper k) = tspan k" "timeout (proper k) = timeout k"
    "status (proper k) = status k" "payload (proper k) = payload k"
    by (simp_all add: proper_def)
  have s: "codec_id k = TPQ_CODEC_HELLO \<Longrightarrow> length (cstring (nickname k)) \<le> 255"
    "codec_id k = TPQ_CODEC_ERROR \<Longrightarrow> length (cstring (reason k)) \<le> 255"
    using m l by (auto simp: message_of_def codec_ids)
  have "encode_frame (proper k) = encode_frame k"
    using s by (simp add: encode_frame_def i c put_string_def strlen_def codec_ids)
  moreover have "message_of (proper k) = message_of k"
    using s by (simp add: message_of_def i c codec_ids)
  ultimately show ?thesis using P(1) m
    by (simp add: message_parts_def i codec_ok_def) (simp add: proper_def)
qed

section \<open>A message arrives at the client\<close>

fun message_event :: "message \<Rightarrow> event_c" where
  "message_event (Coverage _) = coverage_c"
| "message_event (Query _ _ _ _ _) = query_c"
| "message_event (Result _ _ _) = result_c"
| "message_event Pong = pong_c"
| "message_event GoodbyeOk = goodbye_ok_c"
| "message_event (Error _ _) = error_c"
| "message_event _ = NULL_c"

text \<open>The client when the message is in its codec and no event has been executed.\<close>

definition holding :: "tpq_codec \<Rightarrow> client \<Rightarrow> client" where
  "holding m c = c\<lparr>c_message := m, c_dealer := (c_dealer c)\<lparr>inbound := []\<rparr>, c_expiry_timer := (c_expiry c \<noteq> 0)\<rparr>"

lemma client_receives:
  assumes c: "client_ok c" "active c" "inbound (c_dealer c) = []"
    and m: "message_of k = Some m" "codec_ok k" and e: "message_event m \<noteq> NULL_c"
  shows "\<exists>m1. message_of m1 = Some m \<and> (\<forall>n st pl. m = Result n st pl \<longrightarrow> payload m1 = Some pl) \<and>
    (\<forall>r. contract f (holding m1 c) (message_event m) = Inr r \<longrightarrow>
      (\<exists>c'. s_client_handle_protocol_c f (arrive (message_parts k) c) = Inr (0, c') \<and>
        in_outcome (holding m1 c) r c'))"
proof -
  let ?c0 = "arrive (message_parts k) c"
  have ok: "codec_ok (c_message c)" "sock_type (c_dealer c) = DEALER" using c(1) by (simp_all add: client_ok_def)
  have i: "inbound (c_dealer ?c0) = message_parts k @ []" using c(3) by (simp add: arrive_def)
  from recv_delivered [OF m ok(1) i]
  obtain m1 where f: "recv_frame (c_message c) (c_dealer ?c0) = (0, m1, (c_dealer ?c0)\<lparr>inbound := []\<rparr>)"
    and m1: "received (c_message c) m1 m"
    by (auto split: prod.splits)
  have v: "tpq_codec_recv (c_message ?c0) (c_dealer ?c0) = (0, m1, (c_dealer c)\<lparr>inbound := []\<rparr>)"
    using f ok(2) by (simp add: tpq_codec_recv_def arrive_def)
  have h: "client_ok (holding m1 c)" "active (holding m1 c)"
    using c(1,2) m1 by (simp_all add: holding_def client_ok_def active_def received_def)
  have ev: "s_protocol_event_c (holding m1 c) = (message_event m, holding m1 c)"
    using m1 message_of_id [of m1 m] e
    by (cases m) (simp_all add: s_protocol_event_c_def holding_def received_def codec_ids)
  have it: "protocol_iteration_c f ?c0 = bind_fault (s_client_execute_c f (message_event m) (holding m1 c))
      (\<lambda>c4. Inr (c4, \<not> c_terminated c4))"
  proof -
    have "?c0\<lparr>c_message := m1, c_dealer := (c_dealer c)\<lparr>inbound := []\<rparr>, c_expiry_timer := (c_expiry ?c0 \<noteq> 0)\<rparr> = holding m1 c"
      by (simp add: holding_def arrive_def)
    then show ?thesis using ev by (simp add: protocol_iteration_c_def v Let_def)
  qed
  have ne: "inbound (c_dealer ?c0) \<noteq> []" by (simp add: arrive_def message_parts_def mark_parts_Cons)
  have run: "\<exists>c'. s_client_handle_protocol_c f ?c0 = Inr (0, c') \<and> in_outcome (holding m1 c) r c'"
    if q: "contract f (holding m1 c) (message_event m) = Inr r" for r
  proof -
    obtain c' where c': "s_client_execute_c f (message_event m) (holding m1 c) = Inr c'" "in_outcome (holding m1 c) r c'"
      using engine_meets_contract [OF h e, of f] unfolding meets_def q by auto
    have "\<not> c_terminated c'" "inbound (c_dealer c') = []" using c'(2) by (simp_all add: in_outcome_def holding_def)
    then have "s_client_handle_protocol_c f ?c0 = Inr (0, c')"
      using ne by (subst s_client_handle_protocol_c.simps)
        (simp add: it c'(1), simp add: s_client_handle_protocol_c.simps)
    then show ?thesis using c'(2) by blast
  qed
  show ?thesis using m1 run by (intro exI [of _ m1]) (simp add: received_def)
qed

section \<open>A message of the client arrives at the server\<close>

lemma deliver_server_inv: "server_inv x (deliver ps s) = server_inv x s"
  by (simp add: deliver_def server_inv_def keys_inv_def client_inv_def table_inv_def next_of_def)

lemma sender_state_deliver: "sender_state x rid (deliver ps s) = sender_state x rid s"
  by (simp add: sender_state_def deliver_def split: option.splits)

lemma reaction_deliver: "reaction x ((deliver ps s)\<lparr>message := m\<rparr>) = reaction x (s\<lparr>message := m\<rparr>)"
  by (simp add: fun_eq_iff reaction_def reaction_rest_def verdict_reaction_def verdict_def matching_frames_def
      deliver_def Let_def)

lemma server_receives:
  assumes s: "server_inv x s" "inj (strhex x)" "inbound (router s) = []" and m: "message_of k = Some m" "codec_ok k"
  shows "\<exists>m1 s'. s_server_handle_protocol x (deliver ((rid, True) # message_parts k) s) = Inr (0, s') \<and>
    server_inv x s' \<and> inbound (router s') = [] \<and> codec_ok m1 \<and> message_of m1 = Some m \<and>
    sent_to rid (fst (reaction x (s\<lparr>message := m1\<rparr>) (sender_state x rid s) (s_protocol_event m1))) s s' \<and>
    (case snd (reaction x (s\<lparr>message := m1\<rparr>) (sender_state x rid s) (s_protocol_event m1)) of
       None \<Rightarrow> clients s' (strhex x rid) = None
     | Some st \<Rightarrow> sender_state x rid s' = st)"
proof -
  let ?s0 = "deliver ((rid, True) # message_parts k) s"
  have i: "server_inv x ?s0" "inbound (router ?s0) = (rid, True) # message_parts k @ []"
    using s by (simp add: deliver_server_inv, simp add: deliver_def)
  have o: "sent_to r q ?s0 t = sent_to r q s t" for r q t
    by (simp add: sent_to_def deliver_def split: option.splits)
  obtain m1 s' where t: "protocol_iteration x ?s0 = Inr (s', True)" "server_inv x s'" "inbound (router s') = []"
    "codec_ok m1" "message_of m1 = Some m"
    "sent_to rid (fst (reaction x (s\<lparr>message := m1\<rparr>) (sender_state x rid s) (s_protocol_event m1))) s s'"
    "case snd (reaction x (s\<lparr>message := m1\<rparr>) (sender_state x rid s) (s_protocol_event m1)) of
       None \<Rightarrow> clients s' (strhex x rid) = None
     | Some st \<Rightarrow> sender_state x rid s' = st"
    using protocol_message [OF i(1) s(2) m i(2)] unfolding sender_state_deliver reaction_deliver o by blast
  have "s_server_handle_protocol x ?s0 = Inr (0, s')"
    using i(2) t(1,3) by (subst s_server_handle_protocol.simps) (simp, simp add: s_server_handle_protocol.simps)
  then show ?thesis using t by blast
qed

section \<open>One request\<close>

text \<open>The event makes the client send a message; the server's reply, if there is one, is
  delivered back.\<close>

lemma request_leaves:
  assumes c: "client_ok c" "active c" "inbound (c_dealer c) = []" "e \<noteq> NULL_c"
    and r: "contract f c e = Inr r" "o_sent r = Some m" "\<not> o_stopped r"
  shows "\<exists>c1 k. s_client_execute_c f e c = Inr c1 \<and> in_outcome c r c1 \<and> client_ok c1 \<and> active c1 \<and>
    inbound (c_dealer c1) = [] \<and> message_of k = Some m \<and> codec_ok k \<and>
    outbound (c_dealer c1) = outbound (c_dealer c) @ message_parts k"
proof -
  obtain c1 where c1: "s_client_execute_c f e c = Inr c1" "in_outcome c r c1"
    using engine_meets_contract [OF c(1,2,4), of f] unfolding meets_def r(1) by auto
  obtain k where k: "message_of k = Some m" "codec_ok k" "outbound (c_dealer c1) = outbound (c_dealer c) @ message_parts k"
    using c1(2) r(2) by (auto simp: in_outcome_def sent_by_def)
  have "client_ok c1" "active c1" "inbound (c_dealer c1) = []"
    using execute_ok [OF c1(1) c(1)] c1(2) r(3) c(3) by (simp_all add: in_outcome_def active_def)
  then show ?thesis using c1 k by blast
qed

lemma request_sent:
  assumes c: "client_ok c" "active c" "inbound (c_dealer c) = []" "e \<noteq> NULL_c"
    and r: "contract f c e = Inr r" "o_sent r = Some m" "\<not> o_stopped r"
    and s: "server_inv x s" "inj (strhex x)" "inbound (router s) = []"
  shows "\<exists>c1 ps m1 s1. s_client_execute_c f e c = Inr c1 \<and> in_outcome c r c1 \<and> client_ok c1 \<and> active c1 \<and>
    inbound (c_dealer c1) = [] \<and> outbound (c_dealer c1) = outbound (c_dealer c) @ ps \<and>
    s_server_handle_protocol x (deliver ((rid, True) # ps) s) = Inr (0, s1) \<and> server_inv x s1 \<and>
    inbound (router s1) = [] \<and>
    codec_ok m1 \<and> message_of m1 = Some m \<and>
    sent_to rid (fst (reaction x (s\<lparr>message := m1\<rparr>) (sender_state x rid s) (s_protocol_event m1))) s s1 \<and>
    (case snd (reaction x (s\<lparr>message := m1\<rparr>) (sender_state x rid s) (s_protocol_event m1)) of
       None \<Rightarrow> clients s1 (strhex x rid) = None
     | Some st \<Rightarrow> sender_state x rid s1 = st)"
proof -
  obtain c1 k where "s_client_execute_c f e c = Inr c1" "in_outcome c r c1" "client_ok c1" "active c1"
    "inbound (c_dealer c1) = []" and k: "message_of k = Some m" "codec_ok k"
    "outbound (c_dealer c1) = outbound (c_dealer c) @ message_parts k"
    using request_leaves [OF c r] by blast
  then show ?thesis using server_receives [OF s k(1,2), of rid] by blast
qed

text \<open>The parts of a reply, without the routing id in front.\<close>

definition reply_parts :: "server \<Rightarrow> server \<Rightarrow> part list" where
  "reply_parts s s' = tl (drop (length (outbound (router s))) (outbound (router s')))"

lemma reply_received:
  assumes c: "client_ok c" "active c" "inbound (c_dealer c) = []" "message_event m \<noteq> NULL_c"
    and s: "sent_to rid (Some m) s s'" "\<forall>st t. m = Error st t \<longrightarrow> length t \<le> 255" "\<forall>t. m \<noteq> Hello t"
  shows "\<exists>m1. message_of m1 = Some m \<and> (\<forall>n st pl. m = Result n st pl \<longrightarrow> payload m1 = Some pl) \<and>
    (\<forall>r. contract f (holding m1 c) (message_event m) = Inr r \<longrightarrow>
      (\<exists>c'. s_client_handle_protocol_c f (arrive (reply_parts s s') c) = Inr (0, c') \<and>
        in_outcome (holding m1 c) r c'))"
proof -
  obtain k where k: "message_of k = Some m" "outbound (router s') = outbound (router s) @ (rid, True) # message_parts k"
    using s(1) by (auto simp: sent_to_def)
  note P = proper_sender [OF k(1) _ s(2)]
  have "reply_parts s s' = message_parts (proper k)" using P s(3) k(2) by (simp add: reply_parts_def)
  then show ?thesis using client_receives [OF c(1-3) _ _ c(4), of "proper k"] P s(3) by simp
qed

end
