(* ===== verification/ServerTurns.thy ===== *)
theory ServerTurns
  imports ServerWaiting ClientSession
begin

text \<open>
  What a message on the router leaves alone: the settings of the server, and its pending requests
  unless the message is a query that must wait.
\<close>

section \<open>Settings\<close>

definition same_settings :: "server \<Rightarrow> server \<Rightarrow> bool" where
  "same_settings s s' \<longleftrightarrow> own_detmask s' = own_detmask s \<and> iq_lwm s' = iq_lwm s \<and> iq_hwm s' = iq_hwm s \<and> ingest s' = ingest s"

lemma same_settings_trans: "same_settings s t \<Longrightarrow> same_settings t u \<Longrightarrow> same_settings s u"
  by (simp add: same_settings_def)

lemma same_settings_ops [simp]:
  "same_settings s (reply c i t) = same_settings s t" "same_settings s (put_client p c t) = same_settings s t"
  "same_settings s (drop_client p k t) = same_settings s t" "same_settings s (set_payload x t) = same_settings s t"
  "same_settings s (set_not_found t) = same_settings s t" "same_settings s (set_coverage t) = same_settings s t"
  "same_settings s (set_command_invalid t) = same_settings s t"
  by (simp_all add: same_settings_def reply_def Let_def put_client_def drop_client_def set_payload_def set_not_found_def
      set_coverage_def set_command_invalid_def)

lemma after_query_settings: "same_settings s (after_query p c t) = same_settings s t"
  by (cases "verdict (message t) t") (simp_all add: after_query_def Let_def same_settings_def put_client_def)

lemma pass_settings: "same_settings s t \<Longrightarrow> same_settings s (pass x p c t)"
  by (cases "cl_state c") (simp_all add: pass_def react_def Let_def after_query_settings)

lemma execute_settings:
  assumes "client_inv s" "heap s p = Some c" "s_client_execute x p e s = Inr s'"
  shows "same_settings s s'"
  by (rule execute_keeps [where W = "same_settings s", OF _ _ _ assms(1,2) _ assms(3)])
    (simp_all add: pass_settings, simp add: same_settings_def)

text \<open>The ingest handler leaves the marks and the mask alone too, answering requests or not.\<close>

lemma ingest_settings:
  assumes i: "server_inv x s" "pending_inv s" and r: "s_server_handle_ingest x msgs s = Inr s'"
  shows "own_detmask s' = own_detmask s \<and> iq_lwm s' = iq_lwm s \<and> iq_hwm s' = iq_hwm s"
proof -
  obtain s1 where s1: "slurp x msgs s = Inr s1" using r by (auto simp: s_server_handle_ingest_def elim: bind_fault_InrE)
  note F = slurp_frame [OF s1]
  let ?u = "upper_map (iq s1)"
  have i1: "server_inv x s1" by (rule server_inv_cong [OF i(1)]) (use F in simp_all)
  have ra: "request_alive s1 = request_alive s" "request_freed s1 = request_freed s"
    using F by (simp_all add: request_alive_def request_freed_def fun_eq_iff)
  have ow: "\<forall>req\<in>set (due_requests ?u (pending s)). request_alive s1 req \<or> request_freed s1 req"
    using i(2) due_requests_subset ra by (fastforce simp: pending_inv_def)
  have "\<not> (\<exists>req\<in>set (due_requests ?u (pending s)). request_freed s1 req)"
  proof
    assume "\<exists>req\<in>set (due_requests ?u (pending s)). request_freed s1 req"
    then have "answer_due x ?u (pending s) s1 = Inl UseAfterFree" using answer_due_freed [OF i1 ow] by simp
    then show False using r s1 F by (simp add: s_server_handle_ingest_def Let_def)
  qed
  then obtain t where "answer_due x ?u (pending s) s1 = Inr t" "answered x s1 t"
    using answer_due_run [OF i1] ow by fastforce
  then show ?thesis
    using r s1 F by (auto simp: s_server_handle_ingest_def Let_def maybe_purge_def answered_def erase_dead_def
        elim!: bind_fault_InrE split: if_splits)
qed

section \<open>Pending requests\<close>

definition asks_to_wait :: "client_ptr \<Rightarrow> server \<Rightarrow> bool" where
  "asks_to_wait p s \<longleftrightarrow> (\<exists>c. heap s p = Some c \<and> cl_state c = connected_state \<and> cl_next_event c = query_event \<and>
     verdict (message s) s = Waiting)"

lemma pass_same_pending:
  assumes "heap s p = Some c" "\<not> asks_to_wait p s"
  shows "pending (pass x p c s) = pending s"
proof -
  have "verdict m (put_client p d s) = verdict m s" for m d by (simp add: verdict_def frame_simps)
  then have "cl_state c = connected_state \<Longrightarrow> cl_next_event c = query_event \<Longrightarrow>
      verdict (message s) (put_client p (begin_event c) s) \<noteq> Waiting"
    using assms by (auto simp: asks_to_wait_def)
  then show ?thesis
    by (cases "cl_state c"; cases "verdict (message s) (put_client p (begin_event c) s)")
      (auto simp: pass_def react_def Let_def frame_simps after_query_def)
qed

lemma execute_pending:
  assumes i: "client_inv s" "heap s p = Some c" and r: "s_client_execute x p e s = Inr s'"
    and n: "\<not> (cl_state c = connected_state \<and> e = query_event \<and> verdict (message s) s = Waiting)"
  shows "pending s' = pending s"
proof -
  let ?W = "\<lambda>t. pending t = pending s \<and> \<not> asks_to_wait p t"
  let ?b = "begin_execute p e c s"
  have ia: "client_inv_at p s" using i(1) client_inv_at_iff by blast
  have h: "heap ?b = (heap s)(p \<mapsto> c\<lparr>cl_next_event := e, cl_wakeup := False\<rparr>)" by (simp add: begin_execute_def frame_simps)
  have bi: "client_inv_at p ?b"
    by (rule client_inv_at_put [OF ia i(2) h])
      (use client_inv_atD [OF ia i(2)] in \<open>simp_all add: begin_execute_def frame_simps\<close>)
  have hp: "heap ?b p = Some (c\<lparr>cl_next_event := e, cl_wakeup := False\<rparr>)" using h by simp
  have "verdict (message ?b) ?b = verdict (message s) s" by (simp add: verdict_def begin_execute_def frame_simps)
  then have w: "?W ?b" using n hp by (auto simp: asks_to_wait_def begin_execute_def frame_simps)
  have L: "client_loop x p ?b = Inr s'" using r execute_run [OF i(2)] by simp
  have "?W s'"
  proof (rule loop_keeps [where W = ?W, OF _ _ bi hp w L])
    fix t d k
    assume t: "?W t"
    show "?W (drop_client p k t)" using t by (auto simp: asks_to_wait_def frame_simps)
    assume d: "heap t p = Some d"
    obtain st n where q: "heap (pass x p d t) = (heap t)(p \<mapsto> (begin_event d)\<lparr>cl_state := st, cl_next_event := n\<rparr>)"
      "n = NULL_event \<or> n = terminate_event \<or> (cl_next_event d = query_event \<and> event_rank n = 1)"
      by (rule pass_client [of x p d t])
    then have "\<not> asks_to_wait p (pass x p d t)" by (auto simp: asks_to_wait_def event_rank_def)
    then show "?W (pass x p d t)" using t pass_same_pending [OF d, of x] by simp
  qed
  then show ?thesis ..
qed

section \<open>One message\<close>

lemma message_keeps:
  assumes s: "server_inv x s" "inbound (router s) = []" and m: "message_of k = Some m" "codec_ok k"
    and r: "s_server_handle_protocol x (deliver ((rid, True) # message_parts k) s) = Inr (rc, s')"
  shows "same_settings s s' \<and> iq s' = iq s \<and> payloads s' = payloads s \<and>
    (\<not> (sender_state x rid s = connected_state \<and> s_protocol_event k = query_event \<and> verdict k s = Waiting) \<longrightarrow>
       pending s' = pending s)" (is "_ \<and> _ \<and> _ \<and> (?n \<longrightarrow> _)")
proof -
  let ?s0 = "deliver ((rid, True) # message_parts k) s"
  have i: "server_inv x ?s0" "inbound (router ?s0) = (rid, True) # message_parts k @ []"
    using s by (simp add: deliver_server_inv, simp add: deliver_def)
  obtain m1 where m1: "tpq_codec_recv (message ?s0) (router ?s0) = (0, m1, (router ?s0)\<lparr>inbound := []\<rparr>)"
    "routing_id m1 = Some rid" "message_of m1 = Some m" "codec_ok m1"
    using message_received [OF i(1) m i(2)] by blast
  let ?s1 = "?s0\<lparr>message := m1, router := (router ?s0)\<lparr>inbound := []\<rparr>\<rparr>"
  have i1: "server_inv x ?s1"
    using i(1) m1(4) by (auto simp: server_inv_def keys_inv_def client_inv_def table_inv_def next_of_def)
  obtain p s2 where p: "client_of_sender x rid ?s1 = (p, s2)" by fastforce
  note S = client_of_sender_inv [OF i1 p]
  obtain d where d: "heap s2 p = Some d"
    "if clients s (strhex x rid) = None then cl_state d = start_state
     else heap s p = Some d \<and> clients s (strhex x rid) = Some p"
    using S(4) by (cases "clients s (strhex x rid)") (auto simp: deliver_def)
  have ss: "sender_state x rid s = cl_state d" using d(2) by (auto simp: sender_state_def split: if_splits)
  obtain s3 where s3: "s_client_execute x p (s_protocol_event m1) s2 = Inr s3" "executed p s2 s3"
    using execute_server_inv [OF S(1) d(1)] by blast
  have ci: "client_inv s2" using S(1) by (simp add: server_inv_def)
  have same: "same_settings s s2"
    using p by (auto simp: client_of_sender_def s_client_new_def Let_def same_settings_def deliver_def split: option.splits)
  have f: "verdict m1 s2 = verdict k s" if "s_protocol_event k = query_event"
  proof -
    have "codec_id k = TPQ_CODEC_QUERY" using that by (auto simp: s_protocol_event_def split: if_splits)
    then have "tstart m1 = tstart k" "tspan m1 = tspan k" "detmask m1 = detmask k"
      using m(1) m1(3) by (auto simp: message_of_def codec_ids split: if_splits)
    moreover have "iq s2 = iq s" "own_detmask s2 = own_detmask s" using S(5) by (simp_all add: deliver_def)
    ultimately show ?thesis by (simp add: verdict_def query_end_def query_beg_def)
  qed
  have e: "s_protocol_event m1 = s_protocol_event k"
    using message_of_id [OF m(1)] message_of_id [OF m1(3)] by (simp add: s_protocol_event_def)
  have "message s2 = m1" using S(2) by simp
  then have "?n \<longrightarrow> pending s3 = pending s2"
    using execute_pending [OF ci d(1) s3(1)] ss e f by auto
  then have kept: "same_settings s s3 \<and> iq s3 = iq s \<and> payloads s3 = payloads s \<and> (?n \<longrightarrow> pending s3 = pending s)"
    using S(5) s3(2) same_settings_trans [OF same execute_settings [OF ci d(1) s3(1)]]
    by (simp add: executed_def deliver_def)
  have it: "protocol_iteration x ?s0 = Inr (s3, True)"
    using m1 p s3(1) by (simp add: protocol_iteration_def Let_def)
  have "inbound (router s3) = []" using s3(2) S(3) by (simp add: executed_def)
  then have "s_server_handle_protocol x ?s0 = Inr (0, s3)"
    using i(2) it by (subst s_server_handle_protocol.simps) (simp, simp add: s_server_handle_protocol.simps)
  then have "s' = s3" using r by simp
  then show ?thesis using kept by blast
qed

end
