(* ===== verification/ServerProps.thy ===== *)
theory ServerProps
  imports ServerSystem
begin

text \<open>
  The properties of the server, and the concrete states the witnesses use: a server with two
  overlapping payloads in its queue, one connected client and one pending request of it, with the
  library functions the server takes as parameters instantiated by simple ones.
\<close>

section \<open>Concrete states\<close>

definition sample_strhex :: "frame \<Rightarrow> string" where
  "sample_strhex f = map (\<lambda>b. char_of (unat b)) f"

definition sample_tpset :: "zmsg \<Rightarrow> tpset" where
  "sample_tpset msg = (case msg of [a, d, n, c] # rest \<Rightarrow>
       \<lparr>ts_tstart = uint a, ts_tspan = uint d, ts_detid = ucast n, ts_count = ucast c\<rparr>
     | _ \<Rightarrow> \<lparr>ts_tstart = 2 ^ 63 - 1, ts_tspan = 1, ts_detid = 1, ts_count = 0\<rparr>)"

definition sample_extern :: extern where
  "sample_extern = \<lparr>strhex = sample_strhex, encode_msg = concat, tpset_of = sample_tpset,
     endpoint_made = (\<lambda>f. f \<noteq> [])\<rparr>"

definition sample_pipe_extern :: pipe_extern where
  "sample_pipe_extern = \<lparr>bind_socket = (\<lambda>e. if e = None then - 1 else 5555), load_config = (\<lambda>f. None),
     put_config = (\<lambda>c p v. c\<lparr>cf_values := (cf_values c)(p := v)\<rparr>)\<rparr>"

definition sample_client :: "state_t \<Rightarrow> s_client" where
  "sample_client st = \<lparr>cl_refcount = 0, cl_hashkey = sample_strhex [9], cl_routing_id = [9], cl_unique_id = 17,
     cl_state = st, cl_event = NULL_event, cl_next_event = NULL_event, cl_exception = NULL_event,
     cl_wakeup = False, cl_ticket = True, cl_wakeup_event = NULL_event\<rparr>"

definition sample_payloads :: "payload_t list" where
  "sample_payloads = map (new_payload sample_extern) [[[0, 9, 1, 1]], [[5, 7, 2, 2]]]"

definition sample_iq :: immap where
  "sample_iq = [(right_open 0 5, {|0|}), (right_open 5 9, {|0, 1|}), (right_open 9 12, {|1|})]"

definition sample_request :: request_t where
  "sample_request = \<lparr>rq_client = 0, rq_detmask = 3, rq_tstart = 10, rq_seqno = 7\<rparr>"

definition sample_server :: "tpq_codec \<Rightarrow> part list \<Rightarrow> (client_ptr \<rightharpoonup> s_client) \<Rightarrow> server" where
  "sample_server m ps h = \<lparr>ingest = True, own_detmask = 7, iq = sample_iq, iq_lwm = 6, iq_hwm = 10,
     pending = [(20, [sample_request])], first_seen = 0, count_check = Map.empty, payloads = sample_payloads,
     message = m, router = (idle ROUTER)\<lparr>inbound := ps\<rparr>,
     clients = (if h 0 = None then Map.empty else [sample_strhex [9] \<mapsto> 0]), zombies = Map.empty, heap = h,
     next_ptr = 1, client_id = 18, srv_timeout = 60000, verbose = False, port = 0, config = root_config\<rparr>"

definition one_client :: "state_t \<Rightarrow> client_ptr \<rightharpoonup> s_client" where
  "one_client st = [0 \<mapsto> sample_client st]"

lemma sample_inj: "inj (strhex sample_extern)"
proof -
  have "b = c" if "(char_of (unat b) :: char) = char_of (unat c)" for b c :: byte
  proof -
    have "of_char (char_of (unat b)) = (of_char (char_of (unat c)) :: nat)" using that by simp
    moreover have "unat d < 256" for d :: byte using unsigned_less [of d, where 'a = nat] by simp
    ultimately show ?thesis by (simp add: of_char_of word_unat_eq_iff)
  qed
  then have "inj (\<lambda>b :: byte. (char_of (unat b) :: char))" by (intro injI)
  moreover have "strhex sample_extern = map (\<lambda>b. char_of (unat b))"
    by (simp add: sample_extern_def sample_strhex_def fun_eq_iff)
  ultimately show ?thesis by (simp add: inj_mapI)
qed

lemma sample_server_inv:
  assumes "codec_ok m" "st \<noteq> zombie_state"
  shows "server_inv sample_extern (sample_server m ps (one_client st))"
  using assms by (simp add: server_inv_def client_inv_def table_inv_def keys_inv_def next_of_def sample_server_def
      one_client_def sample_client_def idle_def sample_extern_def)

lemma sample_iq_inv: "queue_inv (iq (sample_server m ps h))"
proof -
  have "queue_inv sample_iq" by code_simp
  then show ?thesis by (simp add: sample_server_def)
qed

section \<open>The state machine\<close>

text \<open>C1: executing an event on a client always ends, keeps the client table consistent, sends exactly
  the reply that the contract \<open>reaction\<close> gives for the client's state and the event, to that client,
  and leaves the client in the state of the contract, or freed.\<close>

theorem state_machine_contract:
  assumes "client_inv s" "sock_type (router s) = ROUTER" "heap s p = Some c" "e \<noteq> NULL_event"
  shows "\<exists>s'. s_client_execute x p e s = Inr s' \<and> client_inv s' \<and>
    sent_to (cl_routing_id c) (fst (reaction x s (cl_state c) e)) s s' \<and>
    (case snd (reaction x s (cl_state c) e) of None \<Rightarrow> heap s' p = None
     | Some st \<Rightarrow> \<exists>c'. heap s' p = Some c' \<and> cl_state c' = st)"
  using execute_total [OF assms(1,3), of x e] execute_reaction [OF assms(1,3,4,2), of x]
  by (auto simp: executed_def)

lemma state_machine_contract_witness:
  "\<exists>s'. s_client_execute sample_extern 0 ping_event (sample_server sample_query [] (one_client connected_state)) = Inr s' \<and>
     sent_to [9] (Some Pong) (sample_server sample_query [] (one_client connected_state)) s'"
proof -
  let ?s = "sample_server sample_query [] (one_client connected_state)"
  have i: "client_inv ?s" "sock_type (router ?s) = ROUTER"
    using sample_server_inv [OF sample_codecs(1), of connected_state "[]"] by (simp_all add: server_inv_def)
  have h: "heap ?s 0 = Some (sample_client connected_state)" by (simp add: sample_server_def one_client_def)
  have r: "fst (reaction sample_extern ?s connected_state ping_event) = Some Pong"
    by (simp add: reaction_def reaction_rest_def)
  show ?thesis
    using state_machine_contract [OF i h, of ping_event sample_extern] r by (auto simp: sample_client_def)
qed

text \<open>C20: the handler of the router socket ends without a fault whatever parts wait on the socket, reads
  all of them unless a receive is interrupted, keeps the server's invariant, and does not touch
  the queue and the payloads.\<close>

theorem router_handler_total:
  assumes "server_inv x s"
  shows "\<exists>rc s'. s_server_handle_protocol x s = Inr (rc, s') \<and> server_inv x s' \<and>
    iq s' = iq s \<and> payloads s' = payloads s \<and> (rc = 0 \<longrightarrow> inbound (router s') = [])"
  using handle_protocol_total [OF assms] by blast

lemma router_handler_total_witness:
  "\<exists>rc s'. s_server_handle_protocol sample_extern
     (sample_server sample_query [([9], True), ([0xAA], False)] (one_client connected_state)) = Inr (rc, s')"
  using router_handler_total [OF sample_server_inv [OF sample_codecs(1), of connected_state]] by blast

text \<open>C2: a complete message from a client, whether known or new, is consumed, decoded to the message
  that was sent, and answered by what the contract gives for it, sent to the peer it came from;
  the client is left in the state of the contract, or removed.\<close>

theorem message_answered:
  assumes "server_inv x s" "inj (strhex x)" "message_of c = Some m" "codec_ok c"
    "inbound (router s) = (rid, True) # message_parts c @ ps"
  shows "\<exists>m1 s'. protocol_iteration x s = Inr (s', True) \<and> server_inv x s' \<and> inbound (router s') = ps \<and>
    message_of m1 = Some m \<and>
    sent_to rid (fst (reaction x (s\<lparr>message := m1\<rparr>) (sender_state x rid s) (s_protocol_event m1))) s s' \<and>
    (case snd (reaction x (s\<lparr>message := m1\<rparr>) (sender_state x rid s) (s_protocol_event m1)) of
       None \<Rightarrow> clients s' (strhex x rid) = None
     | Some st \<Rightarrow> sender_state x rid s' = st)"
  using protocol_message [OF assms] by blast

lemma message_answered_witness:
  "\<exists>m1 s'. protocol_iteration sample_extern
     (sample_server tpq_codec_new (([9], True) # message_parts sample_query @ []) (one_client connected_state)) = Inr (s', True) \<and>
     message_of m1 = Some (Query 7 1000 50 3 500)"
  using message_answered [OF sample_server_inv [OF codec_ok_new, of connected_state] sample_inj
      sample_codecs(3,1), of "([9], True) # message_parts sample_query @ []" "[9]" "[]"]
  by (auto simp: sample_server_def)

text \<open>C19: the classification of a query. It is refused exactly when its mask is zero and bit 0 of the
  server's own mask is set, so that every non-zero mask passes whether or not the server has data
  for it; it is late when it ends at or before the start of the queue, else it waits, as a
  pending request, when it ends after the queue, else it is partly late when it begins before the
  queue and satisfied when not.\<close>

theorem query_classified:
  assumes "heap s p = Some c" "cl_state c \<noteq> zombie_state"
  shows "handle_query p s = Inr (let m = message s; qb = to_i64 (tstart m); qe = to_i64 (tstart m + tspan m) in
     if detmask m = 0 \<and> bit (own_detmask s) 0 then put_client p (c\<lparr>cl_next_event := query_is_bogus_event\<rparr>) s
     else if qe \<le> lower_map (iq s) then put_client p (c\<lparr>cl_next_event := query_is_fully_late_event\<rparr>) s
     else if upper_map (iq s) < qe
     then s\<lparr>pending := push_request qe
            \<lparr>rq_client = p, rq_detmask = detmask m, rq_tstart = qb, rq_seqno = seqno m\<rparr> (pending s)\<rparr>
     else if qb < lower_map (iq s)
     then put_client p (c\<lparr>cl_next_event := query_is_partly_late_event\<rparr>) (s\<lparr>message := m\<lparr>status := 206\<rparr>\<rparr>)
     else put_client p (c\<lparr>cl_next_event := query_is_satisfied_event\<rparr>) (s\<lparr>message := m\<lparr>status := 200\<rparr>\<rparr>))"
proof -
  have b: "(1 AND w \<noteq> 0) = bit w 0" for w :: u64
    by (simp add: one_and_eq mod_2_eq_odd bit_0)
  have "query_is_bogus w d \<longleftrightarrow> w = 0 \<and> bit d 0" for w d
    by (simp add: query_is_bogus_def b)
  then show ?thesis
    by (simp add: handle_query_run [OF assms] after_query_def verdict_def query_beg_def query_end_def Let_def)
qed

lemma query_classified_witness:
  "handle_query 0 (sample_server (sample_query\<lparr>tstart := 3, tspan := 4\<rparr>) [] (one_client connected_state)) =
     Inr (put_client 0 ((sample_client connected_state)\<lparr>cl_next_event := query_is_satisfied_event\<rparr>)
       (sample_server (sample_query\<lparr>tstart := 3, tspan := 4, status := 200\<rparr>) [] (one_client connected_state)))"
proof -
  let ?s = "sample_server (sample_query\<lparr>tstart := 3, tspan := 4\<rparr>) [] (one_client connected_state)"
  have h: "heap ?s 0 = Some (sample_client connected_state)" "cl_state (sample_client connected_state) \<noteq> zombie_state"
    by (simp_all add: sample_server_def one_client_def sample_client_def)
  have f: "message ?s = sample_query\<lparr>tstart := 3, tspan := 4\<rparr>" "iq ?s = sample_iq" "own_detmask ?s = 7"
    by (simp_all add: sample_server_def)
  have u: "?s\<lparr>message := (message ?s)\<lparr>status := 200\<rparr>\<rparr> =
      sample_server (sample_query\<lparr>tstart := 3, tspan := 4, status := 200\<rparr>) [] (one_client connected_state)"
    by (simp add: sample_server_def)
  have "detmask (message ?s) \<noteq> 0" "lower_map sample_iq = 0" "upper_map sample_iq = 12"
    "to_i64 (tstart (message ?s)) = 3" "to_i64 (tstart (message ?s) + tspan (message ?s)) = 7"
    unfolding f by code_simp+
  then show ?thesis using query_classified [OF h] u by (simp add: f(2))
qed

section \<open>Results\<close>

text \<open>The indices of the payloads that a result carries.\<close>

lemma matching_indices:
  assumes "queue_inv (iq s)"
  shows "\<exists>is. matching_frames x m s = map (\<lambda>i. payload_encode x (payloads s ! i)) is \<and>
    distinct is \<and> sorted (map (\<lambda>i. pl_tstart (payloads s ! i)) is) \<and>
    set is = {i. \<exists>t. query_beg m \<le> t \<and> t < query_end m \<and> i |\<in>| queue_at (iq s) t}"
proof -
  let ?u = "unique_payloads (immap_and (iq s) (right_open (query_beg m) (query_end m)))"
  let ?is = "sort_key (\<lambda>i. pl_tstart (payloads s ! i)) (sorted_list_of_fset ?u)"
  have o: "ordered_payloads ?u (payloads s) = map (\<lambda>i. payloads s ! i) ?is"
    by (simp add: ordered_payloads_def sort_key_map_list)
  have "set ?is = {i. i |\<in>| ?u}" by auto
  also have "\<dots> = {i. \<exists>t. query_beg m \<le> t \<and> t < query_end m \<and> i |\<in>| queue_at (iq s) t}"
    using store.members_view [OF assms] by (simp add: queue_view_def)
  finally have e: "set ?is = \<dots>" .
  have "distinct ?is" by (simp add: sorted_list_of_fset.rep_eq)
  then show ?thesis using e by (intro exI [of _ ?is] conjI) (simp_all add: matching_frames_def o)
qed

text \<open>C11: the payload of a result: the encodings of payloads of the queue, each once, in the order of
  their start times, and exactly those that the queue holds at some element of the interval asked
  for. The detector mask of the query plays no part.\<close>

theorem result_payload_exact:
  assumes "queue_inv (iq s)"
  shows "\<exists>is. payload (message (set_payload x s)) = Some (map (\<lambda>i. payload_encode x (payloads s ! i)) is) \<and>
    distinct is \<and> sorted (map (\<lambda>i. pl_tstart (payloads s ! i)) is) \<and>
    set is = {i. \<exists>t. query_beg (message s) \<le> t \<and> t < query_end (message s) \<and> i |\<in>| queue_at (iq s) t}"
  using matching_indices [OF assms, of x "message s"] by (auto simp: set_payload_eq)

lemma result_payload_exact_witness:
  "\<exists>is. payload (message (set_payload sample_extern
      (sample_server (sample_query\<lparr>tstart := 9, tspan := 4\<rparr>) [] (one_client connected_state)))) =
    Some (map (\<lambda>i. payload_encode sample_extern (sample_payloads ! i)) is) \<and> set is = {1}"
proof -
  let ?s = "sample_server (sample_query\<lparr>tstart := 9, tspan := 4\<rparr>) [] (one_client connected_state)"
  have b: "query_beg (message ?s) = 9" "query_end (message ?s) = 13" "payloads ?s = sample_payloads"
    by (simp add: sample_server_def, code_simp)+ (simp add: sample_server_def)
  have q: "queue_at sample_iq 9 = {|1|}" "queue_at sample_iq 10 = {|1|}" "queue_at sample_iq 11 = {|1|}"
    "queue_at sample_iq 12 = {||}" by code_simp+
  have t: "9 \<le> t \<and> t < 13 \<longleftrightarrow> t = 9 \<or> t = 10 \<or> t = 11 \<or> t = 12" for t :: int by auto
  have f: "iq ?s = sample_iq" by (simp add: sample_server_def)
  have "(\<exists>t. 9 \<le> t \<and> t < 13 \<and> i |\<in>| queue_at sample_iq t) = (i = (1 :: nat))" for i
    unfolding conj_assoc [symmetric] t by (simp add: q conj_disj_distribR ex_disj_distrib)
  then have "{i. \<exists>t. 9 \<le> t \<and> t < 13 \<and> i |\<in>| queue_at (iq ?s) t} = {1 :: nat}" by (simp add: f)
  then show ?thesis using result_payload_exact [of ?s sample_extern, OF sample_iq_inv] b by auto
qed

section \<open>Ingest\<close>

text \<open>C12: slurping messages of which none overflows keeps the queue well formed, appends the payloads
  whose detector the server accepts, in order, and makes the queue hold each at exactly the
  elements of its interval besides what it held before.\<close>

theorem ingest_slurps:
  assumes "queue_inv (iq s)" "\<forall>p\<in>set (incoming x msgs s). payload_end_ok p"
  shows "\<exists>s'. slurp x msgs s = Inr s' \<and> queue_inv (iq s') \<and> payloads s' = payloads s @ incoming x msgs s \<and>
    (\<forall>i t. i |\<in>| queue_at (iq s') t \<longleftrightarrow> i |\<in>| queue_at (iq s) t \<or>
       (length (payloads s) \<le> i \<and> i < length (payloads s') \<and> in_payload t (payloads s' ! i)))"
proof -
  obtain s' where "slurp x msgs s = Inr s'" using slurp_fails [of x msgs s] assms(2) by blast
  then show ?thesis using slurp_queue [OF _ assms(1)] by blast
qed

lemma ingest_slurps_witness:
  "\<exists>s'. slurp sample_extern [[[18, 7, 1, 1]], [[1, 2, 8, 1]]] (sample_server sample_query [] (one_client connected_state)) = Inr s' \<and>
     length (payloads s') = 3"
proof -
  let ?s = "sample_server sample_query [] (one_client connected_state)"
  have i: "incoming sample_extern [[[18, 7, 1, 1]], [[1, 2, 8, 1]]] ?s = [new_payload sample_extern [[18, 7, 1, 1]]]"
    by (simp add: incoming_def accepted_def sample_server_def new_payload_def sample_extern_def sample_tpset_def)
  have "payload_end_ok (new_payload sample_extern [[18, 7, 1, 1]])" by code_simp
  then have "\<forall>p\<in>set (incoming sample_extern [[[18, 7, 1, 1]], [[1, 2, 8, 1]]] ?s). payload_end_ok p" by (simp add: i)
  from ingest_slurps [OF sample_iq_inv this]
  show ?thesis by (auto simp: i) (simp add: sample_server_def sample_payloads_def)
qed

text \<open>C10: one call of the ingest handler, when no pending request it reaches has lost its client and the
  queue's span does not overflow: it answers, in the order of their ends, the pending requests
  that end within the queue, each with its own sequence number and status 200, but with
  the payloads for the interval in the message the server holds at that time; it keeps the other
  requests; and it purges the queue when it spans more than the high water mark.\<close>

theorem ingest_answers_pending:
  assumes "server_inv x s" "queue_inv (iq s)" "pending_sorted s" "slurp x msgs s = Inr s1"
    "\<forall>req\<in>set (due_requests (upper_map (iq s1)) (pending s)). request_alive s req"
    "is_i64 (upper_map (iq s1) - lower_map (iq s1))"
  shows "\<exists>s'. s_server_handle_ingest x msgs s = Inr s' \<and> server_inv x s' \<and>
    replies_sent (map (\<lambda>req. (rid_of s1 (rq_client req), Result (rq_seqno req) 200 (matching_frames x (message s) s1)))
      (due_requests (upper_map (iq s1)) (pending s))) s s' \<and>
    pending s' = filter (\<lambda>(k, _). upper_map (iq s1) < k) (pending s) \<and>
    iq s' = (if of_i64 (upper_map (iq s1) - lower_map (iq s1)) > iq_hwm s
             then queue_cut (iq s1) 0 (to_i64 (of_i64 (upper_map (iq s1)) - iq_lwm s)) else iq s1)"
proof -
  have "request_reply x s1 = (\<lambda>req. (rid_of s1 (rq_client req), Result (rq_seqno req) 200 (matching_frames x (message s) s1)))"
    using slurp_frame [OF assms(4)] by (simp add: request_reply_def fun_eq_iff)
  then show ?thesis using ingest_run [OF assms] by auto
qed

text \<open>What the messages of the witnesses make of the sample server.\<close>

lemma sample_slurp:
  "\<exists>s1. slurp sample_extern [[[18, 7, 1, 1]]] (sample_server m ps h) = Inr s1 \<and> upper_map (iq s1) = 25 \<and>
     lower_map (iq s1) = 0 \<and> heap s1 = h"
proof -
  let ?p = "new_payload sample_extern [[18, 7, 1, 1]]"
  have p: "accepted (sample_server m ps h) ?p" "payload_end_ok ?p" "pl_tstart ?p = 18" "pl_tspan ?p = 7"
    by (simp_all add: accepted_def payload_end_ok_def is_i64_def sample_server_def new_payload_def sample_extern_def
        sample_tpset_def)
  have "upper_map (queue_put sample_iq 18 25 {|Suc (Suc 0)|}) = 25" "lower_map (queue_put sample_iq 18 25 {|Suc (Suc 0)|}) = 0"
    by code_simp+
  then show ?thesis using p
    by (simp add: slurp_one_run Let_def) (simp add: sample_server_def sample_payloads_def)
qed

lemma sample_due: "due_requests 25 (pending (sample_server m ps h)) = [sample_request]"
  by (simp add: due_requests_def sample_server_def)

lemma sample_pending_sorted: "pending_sorted (sample_server m ps h)"
  by (simp add: pending_sorted_def sample_server_def)

lemma ingest_answers_pending_witness:
  "\<exists>s'. s_server_handle_ingest sample_extern [[[18, 7, 1, 1]]]
      (sample_server sample_query [] (one_client connected_state)) = Inr s' \<and> pending s' = []"
proof -
  let ?s = "sample_server sample_query [] (one_client connected_state)"
  obtain s1 where s1: "slurp sample_extern [[[18, 7, 1, 1]]] ?s = Inr s1" "upper_map (iq s1) = 25" "lower_map (iq s1) = 0"
    using sample_slurp by blast
  have i: "server_inv sample_extern ?s" by (rule sample_server_inv) (simp_all add: sample_codecs)
  have a: "\<forall>req\<in>set (due_requests (upper_map (iq s1)) (pending ?s)). request_alive ?s req"
    by (simp add: s1(2) sample_due request_alive_def) (simp add: sample_server_def one_client_def sample_request_def sample_client_def)
  have "is_i64 (upper_map (iq s1) - lower_map (iq s1))" by (simp add: s1(2,3) is_i64_def)
  from ingest_answers_pending [OF i sample_iq_inv sample_pending_sorted s1(1) a this]
  obtain s' where "s_server_handle_ingest sample_extern [[[18, 7, 1, 1]]] ?s = Inr s'"
    "pending s' = filter (\<lambda>(k, _). upper_map (iq s1) < k) (pending ?s)" by blast
  then show ?thesis by (simp add: s1(2)) (simp add: sample_server_def)
qed

text \<open>C22: when the queue reaches a pending request whose client has been freed, the ingest handler
  follows the dangling pointer in the request.\<close>

theorem ingest_uses_freed_client:
  assumes "server_inv x s" "queue_inv (iq s)" "pending_inv s" "slurp x msgs s = Inr s1"
    "req \<in> set (due_requests (upper_map (iq s1)) (pending s))" "heap s (rq_client req) = None"
  shows "s_server_handle_ingest x msgs s = Inl UseAfterFree"
proof -
  have "\<exists>req\<in>set (due_requests (upper_map (iq s1)) (pending s)). request_freed s req"
    using assms(5,6) by (auto simp: request_freed_def)
  then show ?thesis by (subst ingest_cases [OF assms(1-4)]) simp
qed

lemma ingest_uses_freed_client_witness:
  "s_server_handle_ingest sample_extern [[[18, 7, 1, 1]]] (sample_server sample_query [] Map.empty) = Inl UseAfterFree"
proof -
  let ?s = "sample_server sample_query [] Map.empty"
  have i: "server_inv sample_extern ?s"
    by (simp add: server_inv_def client_inv_def table_inv_def keys_inv_def next_of_def sample_server_def idle_def sample_codecs)
  have p: "pending_inv ?s"
    using sample_pending_sorted by (simp add: pending_inv_def) (simp add: requests_def sample_server_def sample_request_def
        request_freed_def)
  obtain s1 where s1: "slurp sample_extern [[[18, 7, 1, 1]]] ?s = Inr s1" "upper_map (iq s1) = 25"
    using sample_slurp by blast
  have "sample_request \<in> set (due_requests (upper_map (iq s1)) (pending ?s))" by (simp add: s1(2) sample_due)
  moreover have "heap ?s (rq_client sample_request) = None" by (simp add: sample_server_def)
  ultimately show ?thesis using ingest_uses_freed_client [OF i sample_iq_inv p s1(1)] by blast
qed

text \<open>a client that says goodbye or expires is freed, but its pending requests stay, with the
  address of the client that is gone.\<close>

lemma leaving_leaves_requests:
  assumes "client_inv s" "heap s p = Some c" "e = goodbye_event \<or> e = expired_event"
  shows "\<exists>s'. s_client_execute x p e s = Inr s' \<and> pending s' = pending s \<and> heap s' p = None"
  using execute_total [OF assms(1,2), of x e] leaving_keeps_pending [OF assms, of x] by blast

text \<open>C26: the purge. When the span of the queue, read as unsigned, exceeds the high water mark, the queue
  loses exactly the elements from 0 up to the low water mark before its end; elements
  before 0 stay. Otherwise it does not change.\<close>

theorem purge_window:
  assumes "queue_inv (iq s)" "is_i64 (queue_end - queue_beg)"
  shows "\<exists>s'. maybe_purge queue_beg queue_end s = Inr s' \<and> queue_inv (iq s') \<and>
    (\<forall>t. queue_at (iq s') t = (if of_i64 (queue_end - queue_beg) > iq_hwm s \<and> 0 \<le> t \<and>
         t < to_i64 (of_i64 queue_end - iq_lwm s) then {||} else queue_at (iq s) t))"
  using maybe_purge_run [OF assms(2), of s] store.inv_cut [OF assms(1)] store.at_cut [OF assms(1)] assms(1)
  by simp

lemma purge_window_witness:
  "\<exists>s'. maybe_purge 0 12 (sample_server sample_query [] Map.empty) = Inr s' \<and> queue_at (iq s') 5 = {||} \<and>
     queue_at (iq s') 6 = {|0, 1|}"
proof -
  let ?s = "sample_server sample_query [] Map.empty"
  have w: "is_i64 (12 - 0)" "of_i64 (12 - 0) > iq_hwm ?s" "to_i64 (of_i64 12 - iq_lwm ?s) = 6"
    by (simp_all add: is_i64_def of_i64_def to_i64_def sample_server_def)
  have q: "queue_at (iq ?s) 6 = {|0, 1|}" by (simp add: sample_server_def) code_simp
  show ?thesis using purge_window [OF sample_iq_inv w(1), of sample_query "[]" Map.empty] w(2,3) q by auto
qed

section \<open>All reachable states\<close>

text \<open>C6: in every state the reactor can reach from a new server, by any sequence of inputs on its
  sockets, expired timers and configuration changes, the client table is consistent, the
  pending requests are ordered and belong to connected or freed clients, the queue is well formed,
  and every element of it is a payload that covers it.\<close>

theorem reachable_consistent:
  assumes "server_reachable x px s"
  shows "server_inv x s \<and> pending_inv s \<and> queue_inv (iq s) \<and>
    (\<forall>i t. i |\<in>| queue_at (iq s) t \<longrightarrow> i < length (payloads s) \<and> in_payload t (payloads s ! i))"
  using reachable_inv [OF assms] by (simp add: system_inv_def stored_ok_def)

lemma reachable_consistent_witness: "pending_inv (s_server_new 17)"
  using reachable_consistent [OF created [of sample_extern sample_pipe_extern 17]] by blast

section \<open>Control\<close>

text \<open>destroying the server frees every client, none twice.\<close>

lemma destroy_frees_clients:
  assumes "server_inv x s" "distinct keys" "set keys = dom (clients s)"
  shows "\<exists>t. s_server_destroy keys [] s = Inr t \<and> heap t = Map.empty \<and> clients t = Map.empty \<and> pending t = []"
  using destroy_clients_run [of s keys] assms
  by (auto simp: s_server_destroy_def server_terminate_def server_inv_def)

end
