(* ===== verification/CodecZpl.thy ===== *)
theory CodecZpl
  imports CodecWire CNumbers
begin

text \<open>
  Printing a codec, and its two conversions to and from a \<open>zconfig\<close> tree (\<open>tpq_codec_print\<close>,
  \<open>tpq_codec_zpl\<close>, \<open>tpq_codec_new_zpl\<close> of \<open>src/tpq_codec.cpp\<close>), with the macros that turn bytes
  into hexadecimal text and back. The tree and the encoding of a message as one frame belong to
  the czmq library: they are the argument \<open>zx\<close>, and what the code relies on is \<open>zpl_library\<close>.
\<close>

section \<open>The library\<close>

record 'z zpl_extern =
  z_new :: "string \<Rightarrow> 'z"
  z_name :: "'z \<Rightarrow> string"
  z_put :: "string \<Rightarrow> byte list \<Rightarrow> 'z \<Rightarrow> 'z"
  z_get :: "string \<Rightarrow> 'z \<Rightarrow> byte list option"
  z_attach :: "'z \<Rightarrow> 'z \<Rightarrow> 'z"
  z_locate :: "string \<Rightarrow> 'z \<Rightarrow> 'z option"
  z_encode :: "zmsg \<Rightarrow> frame"
  z_decode :: "frame \<Rightarrow> zmsg option"

text \<open>
  A name is a path in czmq and a value is a C string, so the laws are stated for what the codec
  uses: the names below, which are single segments, and values without a zero byte. A put value is
  read back under its name and changes no other; a new node has no values and no child
  \<open>content\<close>, and its name stays; a child named \<open>content\<close> that is attached to a node without one is
  found, and the values are as before. Decoding undoes encoding when the size of every frame fits the
  four bytes that the encoding has for it.

  The code attaches the child as it makes it (\<open>zconfig_new ("content", root)\<close>) and then puts its values
  through the pointer; the model puts them first and attaches the finished child.
\<close>

definition zpl_names :: "string set" where
  "zpl_names = {''message'', ''routing_id'', ''nickname'', ''detmask'', ''seqno'', ''tstart'', ''tspan'', ''timeout'',
     ''status'', ''payload'', ''reason''}"

definition c_string :: "byte list \<Rightarrow> bool" where
  "c_string v \<longleftrightarrow> 0 \<notin> set v"

definition frames_fit :: "zmsg \<Rightarrow> bool" where
  "frames_fit msg \<longleftrightarrow> (\<forall>f\<in>set msg. length f < 2 ^ 32)"

definition zpl_library :: "'z zpl_extern \<Rightarrow> bool" where
  "zpl_library zx \<longleftrightarrow>
     (\<forall>n\<in>zpl_names. \<forall>m. z_get zx n (z_new zx m) = None) \<and>
     (\<forall>n\<in>zpl_names. \<forall>m\<in>zpl_names. \<forall>v z. c_string v \<longrightarrow>
        z_get zx n (z_put zx m v z) = (if n = m then Some v else z_get zx n z)) \<and>
     (\<forall>m. z_name zx (z_new zx m) = m \<and> z_locate zx ''content'' (z_new zx m) = None) \<and>
     (\<forall>n\<in>zpl_names. \<forall>v z. c_string v \<longrightarrow> z_name zx (z_put zx n v z) = z_name zx z \<and>
        z_locate zx ''content'' (z_put zx n v z) = z_locate zx ''content'' z) \<and>
     (\<forall>z k. z_name zx k = ''content'' \<longrightarrow> z_locate zx ''content'' z = None \<longrightarrow>
        z_locate zx ''content'' (z_attach zx z k) = Some k \<and>
        (\<forall>n\<in>zpl_names. z_get zx n (z_attach zx z k) = z_get zx n z)) \<and>
     (\<forall>msg. frames_fit msg \<longrightarrow> z_decode zx (z_encode zx msg) = Some msg)"

lemma zpl_named [simp]:
  "''message'' \<in> zpl_names" "''routing_id'' \<in> zpl_names" "''nickname'' \<in> zpl_names" "''detmask'' \<in> zpl_names"
  "''seqno'' \<in> zpl_names" "''tstart'' \<in> zpl_names" "''tspan'' \<in> zpl_names" "''timeout'' \<in> zpl_names"
  "''status'' \<in> zpl_names" "''payload'' \<in> zpl_names" "''reason'' \<in> zpl_names"
  by (simp_all add: zpl_names_def)

lemma zpl_laws:
  assumes "zpl_library zx"
  shows "n \<in> zpl_names \<Longrightarrow> z_get zx n (z_new zx m) = None"
    "n \<in> zpl_names \<Longrightarrow> m \<in> zpl_names \<Longrightarrow> c_string v \<Longrightarrow>
       z_get zx n (z_put zx m v z) = (if n = m then Some v else z_get zx n z)"
    "z_name zx (z_new zx m) = m" "z_locate zx ''content'' (z_new zx m) = None"
    "n \<in> zpl_names \<Longrightarrow> c_string v \<Longrightarrow> z_name zx (z_put zx n v z) = z_name zx z"
    "n \<in> zpl_names \<Longrightarrow> c_string v \<Longrightarrow> z_locate zx ''content'' (z_put zx n v z) = z_locate zx ''content'' z"
    "z_name zx k = ''content'' \<Longrightarrow> z_locate zx ''content'' z = None \<Longrightarrow> z_locate zx ''content'' (z_attach zx z k) = Some k"
    "z_name zx k = ''content'' \<Longrightarrow> z_locate zx ''content'' z = None \<Longrightarrow> n \<in> zpl_names \<Longrightarrow>
       z_get zx n (z_attach zx z k) = z_get zx n z"
    "frames_fit msg \<Longrightarrow> z_decode zx (z_encode zx msg) = Some msg"
  using assms unfolding zpl_library_def by (blast | simp)+

section \<open>Bytes and hexadecimal text\<close>

text \<open>
  \<open>BYTES_FROM_STR\<close>: pairs of characters, each read by \<open>sscanf\<close> with \<open>%x\<close>. A pair that is no number
  leaves the variable as it is, without a value; a negative number fails the assertion.
\<close>

fun hex_pairs :: "byte list \<Rightarrow> fault + byte list" where
  "hex_pairs (a # b # s) = (case scan_number 16 [a, b] of
     None \<Rightarrow> Inl Uninitialised
   | Some (neg, n, _) \<Rightarrow> if neg \<and> n \<noteq> 0 then Inl AssertFailed
       else bind_fault (hex_pairs s) (\<lambda>bs. Inr (of_nat n # bs)))"
| "hex_pairs _ = Inr []"

definition bytes_from_str :: "byte list \<Rightarrow> fault + byte list option" where
  "bytes_from_str s = (if odd (length s) then Inr None else bind_fault (hex_pairs s) (\<lambda>bs. Inr (Some bs)))"

definition str_from_bytes :: "byte list \<Rightarrow> byte list" where
  "str_from_bytes mem = concat (map (\<lambda>b. [digit_char (unat b div 16), digit_char (unat b mod 16)]) mem)"

section \<open>Printing\<close>

text \<open>The lines given to \<open>zsys_debug\<close>; a payload is printed by the library.\<close>

datatype debug_line = Line "byte list" | PayloadLines zmsg

definition number_line :: "string \<Rightarrow> int \<Rightarrow> debug_line" where
  "number_line name i = Line (bytes (''    '' @ name @ ''='') @ print_ld i)"

definition text_line :: "string \<Rightarrow> byte list \<Rightarrow> debug_line" where
  "text_line name b = Line (bytes (''    '' @ name @ ''='') @ [39] @ cstring b @ [39])"

definition tpq_codec_print :: "tpq_codec \<Rightarrow> debug_line list" where
  "tpq_codec_print c =
     (if codec_id c = TPQ_CODEC_HELLO then [Line (bytes ''TPQ_CODEC_HELLO:''), text_line ''nickname'' (nickname c)]
      else if codec_id c = TPQ_CODEC_COVERAGE then
        [Line (bytes ''TPQ_CODEC_COVERAGE:''), number_line ''detmask'' (sint (detmask c))]
      else if codec_id c = TPQ_CODEC_QUERY then
        [Line (bytes ''TPQ_CODEC_QUERY:''), number_line ''seqno'' (uint (seqno c)), number_line ''tstart'' (sint (tstart c)),
         number_line ''tspan'' (sint (tspan c)), number_line ''detmask'' (sint (detmask c)),
         number_line ''timeout'' (uint (timeout c))]
      else if codec_id c = TPQ_CODEC_RESULT then
        [Line (bytes ''TPQ_CODEC_RESULT:''), number_line ''seqno'' (uint (seqno c)), number_line ''status'' (uint (status c)),
         Line (bytes ''    payload=''), (case payload c of None \<Rightarrow> Line (bytes ''(NULL)'') | Some m \<Rightarrow> PayloadLines m)]
      else if codec_id c = TPQ_CODEC_PING then [Line (bytes ''TPQ_CODEC_PING:'')]
      else if codec_id c = TPQ_CODEC_PONG then [Line (bytes ''TPQ_CODEC_PONG:'')]
      else if codec_id c = TPQ_CODEC_GOODBYE then [Line (bytes ''TPQ_CODEC_GOODBYE:'')]
      else if codec_id c = TPQ_CODEC_GOODBYE_OK then [Line (bytes ''TPQ_CODEC_GOODBYE_OK:'')]
      else if codec_id c = TPQ_CODEC_ERROR then
        [Line (bytes ''TPQ_CODEC_ERROR:''), number_line ''status'' (uint (status c)), text_line ''reason'' (reason c)]
      else [])"

section \<open>Writing a tree\<close>

text \<open>The part that every message has: its name, and the routing id when there is one.\<close>

definition zpl_head :: "'z zpl_extern \<Rightarrow> string \<Rightarrow> tpq_codec \<Rightarrow> 'z \<Rightarrow> 'z" where
  "zpl_head zx name c root = (let root = z_put zx ''message'' (bytes name) root
     in case routing_id c of None \<Rightarrow> root | Some f \<Rightarrow> z_put zx ''routing_id'' (str_from_bytes f) root)"

text \<open>Numbers are cast to \<open>long\<close> and printed with \<open>%ld\<close>.\<close>

definition putf_u64 :: "'z zpl_extern \<Rightarrow> string \<Rightarrow> u64 \<Rightarrow> 'z \<Rightarrow> 'z" where
  "putf_u64 zx name v z = z_put zx name (print_ld (sint v)) z"

definition zpl_hello :: "'z zpl_extern \<Rightarrow> tpq_codec \<Rightarrow> 'z" where
  "zpl_hello zx c = z_put zx ''nickname'' (cstring (nickname c)) (z_new zx ''content'')"

definition zpl_coverage :: "'z zpl_extern \<Rightarrow> tpq_codec \<Rightarrow> 'z" where
  "zpl_coverage zx c = putf_u64 zx ''detmask'' (detmask c) (z_new zx ''content'')"

definition zpl_query :: "'z zpl_extern \<Rightarrow> tpq_codec \<Rightarrow> 'z" where
  "zpl_query zx c =
     (let k = putf_u64 zx ''seqno'' (ucast (seqno c)) (z_new zx ''content'');
          k = putf_u64 zx ''tstart'' (tstart c) k;
          k = putf_u64 zx ''tspan'' (tspan c) k;
          k = putf_u64 zx ''detmask'' (detmask c) k
      in putf_u64 zx ''timeout'' (ucast (timeout c)) k)"

definition zpl_result :: "'z zpl_extern \<Rightarrow> tpq_codec \<Rightarrow> fault + 'z" where
  "zpl_result zx c =
     (let k = putf_u64 zx ''seqno'' (ucast (seqno c)) (z_new zx ''content'');
          k = putf_u64 zx ''status'' (ucast (status c)) k
      in case payload c of None \<Rightarrow> Inl AssertFailed
         | Some m \<Rightarrow> Inr (z_put zx ''payload'' (str_from_bytes (z_encode zx m)) k))"

definition zpl_error :: "'z zpl_extern \<Rightarrow> tpq_codec \<Rightarrow> 'z" where
  "zpl_error zx c = z_put zx ''reason'' (cstring (reason c))
     (putf_u64 zx ''status'' (ucast (status c)) (z_new zx ''content''))"

definition tpq_codec_zpl :: "'z zpl_extern \<Rightarrow> tpq_codec \<Rightarrow> fault + 'z" where
  "tpq_codec_zpl zx c = (let root = z_new zx ''tpq_codec''; head = (\<lambda>name. zpl_head zx name c root) in
     if codec_id c = TPQ_CODEC_HELLO then Inr (z_attach zx (head ''TPQ_CODEC_HELLO'') (zpl_hello zx c))
     else if codec_id c = TPQ_CODEC_COVERAGE then Inr (z_attach zx (head ''TPQ_CODEC_COVERAGE'') (zpl_coverage zx c))
     else if codec_id c = TPQ_CODEC_QUERY then Inr (z_attach zx (head ''TPQ_CODEC_QUERY'') (zpl_query zx c))
     else if codec_id c = TPQ_CODEC_RESULT then
       bind_fault (zpl_result zx c) (\<lambda>k. Inr (z_attach zx (head ''TPQ_CODEC_RESULT'') k))
     else if codec_id c = TPQ_CODEC_PING then Inr (head ''TPQ_CODEC_PING'')
     else if codec_id c = TPQ_CODEC_PONG then Inr (head ''TPQ_CODEC_PONG'')
     else if codec_id c = TPQ_CODEC_GOODBYE then Inr (head ''TPQ_CODEC_GOODBYE'')
     else if codec_id c = TPQ_CODEC_GOODBYE_OK then Inr (head ''TPQ_CODEC_GOODBYE_OK'')
     else if codec_id c = TPQ_CODEC_ERROR then Inr (z_attach zx (head ''TPQ_CODEC_ERROR'') (zpl_error zx c))
     else Inr root)"

section \<open>Reading a tree\<close>

text \<open>A step either faults, destroys the codec and returns NULL, or goes on with the codec.\<close>

definition and_zpl :: "fault + 'a option \<Rightarrow> ('a \<Rightarrow> fault + 'b option) \<Rightarrow> fault + 'b option" where
  "and_zpl r f = bind_fault r (\<lambda>v. case v of None \<Rightarrow> Inr None | Some a \<Rightarrow> f a)"

definition zpl_text :: "'z zpl_extern \<Rightarrow> string \<Rightarrow> 'z \<Rightarrow> fault + byte list option" where
  "zpl_text zx name k = Inr (z_get zx name k)"

definition zpl_number :: "'z zpl_extern \<Rightarrow> string \<Rightarrow> 'z \<Rightarrow> fault + u64 option" where
  "zpl_number zx name k = (case z_get zx name k of
     None \<Rightarrow> Inr None
   | Some s \<Rightarrow> (case strtoll 10 s of (v, n) \<Rightarrow>
       if n \<noteq> length s then Inr None else Inr (Some (word_of_int v))))"

definition zpl_message_id :: "byte list \<Rightarrow> int option" where
  "zpl_message_id s =
     (if s = bytes ''TPQ_CODEC_HELLO'' then Some TPQ_CODEC_HELLO
      else if s = bytes ''TPQ_CODEC_COVERAGE'' then Some TPQ_CODEC_COVERAGE
      else if s = bytes ''TPQ_CODEC_QUERY'' then Some TPQ_CODEC_QUERY
      else if s = bytes ''TPQ_CODEC_RESULT'' then Some TPQ_CODEC_RESULT
      else if s = bytes ''TPQ_CODEC_PING'' then Some TPQ_CODEC_PING
      else if s = bytes ''TPQ_CODEC_PONG'' then Some TPQ_CODEC_PONG
      else if s = bytes ''TPQ_CODEC_GOODBYE'' then Some TPQ_CODEC_GOODBYE
      else if s = bytes ''TPQ_CODEC_GOODBYE_OK'' then Some TPQ_CODEC_GOODBYE_OK
      else if s = bytes ''TPQ_CODEC_ERROR'' then Some TPQ_CODEC_ERROR
      else None)"

definition new_zpl_routing :: "'z zpl_extern \<Rightarrow> 'z \<Rightarrow> tpq_codec \<Rightarrow> fault + tpq_codec option" where
  "new_zpl_routing zx z c = (case z_get zx ''routing_id'' z of
     None \<Rightarrow> Inr (Some c)
   | Some s \<Rightarrow> and_zpl (bytes_from_str s) (\<lambda>f. Inr (Some (c\<lparr>routing_id := Some f\<rparr>))))"

definition new_zpl_hello :: "'z zpl_extern \<Rightarrow> 'z \<Rightarrow> tpq_codec \<Rightarrow> fault + tpq_codec option" where
  "new_zpl_hello zx k c = and_zpl (zpl_text zx ''nickname'' k) (\<lambda>s.
     Inr (Some (c\<lparr>nickname := strncpy255 (nickname c) s\<rparr>)))"

definition new_zpl_coverage :: "'z zpl_extern \<Rightarrow> 'z \<Rightarrow> tpq_codec \<Rightarrow> fault + tpq_codec option" where
  "new_zpl_coverage zx k c = and_zpl (zpl_number zx ''detmask'' k) (\<lambda>v. Inr (Some (c\<lparr>detmask := v\<rparr>)))"

definition new_zpl_query :: "'z zpl_extern \<Rightarrow> 'z \<Rightarrow> tpq_codec \<Rightarrow> fault + tpq_codec option" where
  "new_zpl_query zx k c =
     and_zpl (zpl_number zx ''seqno'' k) (\<lambda>v. let c = c\<lparr>seqno := ucast v\<rparr> in
     and_zpl (zpl_number zx ''tstart'' k) (\<lambda>v. let c = c\<lparr>tstart := v\<rparr> in
     and_zpl (zpl_number zx ''tspan'' k) (\<lambda>v. let c = c\<lparr>tspan := v\<rparr> in
     and_zpl (zpl_number zx ''detmask'' k) (\<lambda>v. let c = c\<lparr>detmask := v\<rparr> in
     and_zpl (zpl_number zx ''timeout'' k) (\<lambda>v. Inr (Some (c\<lparr>timeout := ucast v\<rparr>)))))))"

definition new_zpl_result :: "'z zpl_extern \<Rightarrow> 'z \<Rightarrow> tpq_codec \<Rightarrow> fault + tpq_codec option" where
  "new_zpl_result zx k c =
     and_zpl (zpl_number zx ''seqno'' k) (\<lambda>v. let c = c\<lparr>seqno := ucast v\<rparr> in
     and_zpl (zpl_number zx ''status'' k) (\<lambda>v. let c = c\<lparr>status := ucast v\<rparr> in
     and_zpl (zpl_text zx ''payload'' k) (\<lambda>s.
     and_zpl (bytes_from_str s) (\<lambda>f. Inr (Some (c\<lparr>payload := z_decode zx f\<rparr>))))))"

definition new_zpl_error :: "'z zpl_extern \<Rightarrow> 'z \<Rightarrow> tpq_codec \<Rightarrow> fault + tpq_codec option" where
  "new_zpl_error zx k c =
     and_zpl (zpl_number zx ''status'' k) (\<lambda>v. let c = c\<lparr>status := ucast v\<rparr> in
     and_zpl (zpl_text zx ''reason'' k) (\<lambda>s. Inr (Some (c\<lparr>reason := strncpy255 (reason c) s\<rparr>))))"

definition with_content :: "'z zpl_extern \<Rightarrow> 'z \<Rightarrow> ('z \<Rightarrow> tpq_codec \<Rightarrow> fault + tpq_codec option) \<Rightarrow>
    tpq_codec \<Rightarrow> fault + tpq_codec option" where
  "with_content zx z f c = (case z_locate zx ''content'' z of None \<Rightarrow> Inr None | Some k \<Rightarrow> f k c)"

definition tpq_codec_new_zpl :: "'z zpl_extern \<Rightarrow> 'z \<Rightarrow> fault + tpq_codec option" where
  "tpq_codec_new_zpl zx z = (case z_get zx ''message'' z of None \<Rightarrow> Inr None | Some s \<Rightarrow>
     (case zpl_message_id s of None \<Rightarrow> Inr None | Some i \<Rightarrow>
       and_zpl (new_zpl_routing zx z (tpq_codec_set_id tpq_codec_new i)) (\<lambda>c.
         if i = TPQ_CODEC_HELLO then with_content zx z (new_zpl_hello zx) c
         else if i = TPQ_CODEC_COVERAGE then with_content zx z (new_zpl_coverage zx) c
         else if i = TPQ_CODEC_QUERY then with_content zx z (new_zpl_query zx) c
         else if i = TPQ_CODEC_RESULT then with_content zx z (new_zpl_result zx) c
         else if i = TPQ_CODEC_ERROR then with_content zx z (new_zpl_error zx) c
         else Inr (Some c))))"

section \<open>What is read back\<close>

lemma scan_pair:
  assumes "h < 16" "l < 16"
  shows "scan_number 16 [digit_char h, digit_char l] = Some (False, h * 16 + l, 2)"
proof -
  note D = digit_byte [OF assms(1)] digit_byte [OF assms(2)]
  have "dropWhile is_space [digit_char h, digit_char l] = [digit_char h, digit_char l]" using D by simp
  moreover have "skip_sign [digit_char h, digit_char l] = (False, [digit_char h, digit_char l])"
    using D by (simp add: skip_sign_def)
  moreover have "skip_prefix 16 [digit_char h, digit_char l] = [digit_char h, digit_char l]"
    by (simp add: skip_prefix_def)
  moreover have "takeWhile (\<lambda>b. digit_val b < 16) [digit_char h, digit_char l] = [digit_char h, digit_char l]"
    using D assms by simp
  ultimately show ?thesis using D assms by (simp add: scan_number_def Let_def from_digits_def)
qed

lemma byte_nibbles: "(of_nat (unat (b :: byte) div 16 * 16 + unat b mod 16) :: byte) = b"
  by simp

lemma hex_pairs_back: "hex_pairs (str_from_bytes bs) = Inr bs"
proof (induction bs)
  case (Cons b bs)
  have "unat b < 256" using unsigned_less [of b, where 'a = nat] by simp
  then have "unat b div 16 < 16" "unat b mod 16 < 16" by auto
  from scan_pair [OF this]
  have "scan_number 16 [digit_char (unat b div 16), digit_char (unat b mod 16)] = Some (False, unat b, 2)" by simp
  then show ?case using Cons by (simp add: str_from_bytes_def)
qed (simp add: str_from_bytes_def)

lemma bytes_from_str_back: "bytes_from_str (str_from_bytes bs) = Inr (Some bs)"
proof -
  have "length (str_from_bytes bs) = 2 * length bs" by (induction bs) (simp_all add: str_from_bytes_def)
  then show ?thesis by (simp add: bytes_from_str_def hex_pairs_back)
qed

lemma number_back:
  assumes "z_get zx name k = Some (print_ld (sint v))"
  shows "zpl_number zx name k = Inr (Some v)"
proof -
  have "is_i64 (sint v)" using sint_range_size [of v] by (simp add: is_i64_def word_size)
  then show ?thesis using assms by (simp add: zpl_number_def strtoll_print)
qed

lemma and_zpl_simps [simp]: "and_zpl (Inr (Some a)) f = f a" "and_zpl (Inr None) f = Inr None" "and_zpl (Inl e) f = Inl e"
  by (simp_all add: and_zpl_def)

text \<open>What the codec puts are C strings.\<close>

lemma digit_char_not_zero: "d < 16 \<Longrightarrow> digit_char d \<noteq> 0"
proof -
  have "\<forall>d\<in>set [0..<16]. digit_char d \<noteq> 0" by code_simp
  then show "d < 16 \<Longrightarrow> digit_char d \<noteq> 0" by simp
qed

lemma c_strings [simp]: "c_string (cstring b)" "c_string (print_ld i)" "c_string (str_from_bytes f)"
proof -
  show "c_string (cstring b)" by (simp add: c_string_def cstring_no_zero)
  have "c_string (in_base 10 n)" for n
    using in_base_digits [of 10 n] digit_char_not_zero by (fastforce simp: c_string_def)
  then show "c_string (print_ld i)" by (auto simp: print_ld_def c_string_def)
  have "unat b div 16 < 16" for b :: byte using unsigned_less [of b, where 'a = nat] by simp
  then show "c_string (str_from_bytes f)"
    by (auto simp: c_string_def str_from_bytes_def dest!: sym [of 0] digit_char_not_zero [THEN notE, rotated])
qed

lemma message_id_string: "zpl_message_id s = Some i \<Longrightarrow> c_string s"
proof -
  have "\<forall>n\<in>set [''TPQ_CODEC_HELLO'', ''TPQ_CODEC_COVERAGE'', ''TPQ_CODEC_QUERY'', ''TPQ_CODEC_RESULT'', ''TPQ_CODEC_PING'',
      ''TPQ_CODEC_PONG'', ''TPQ_CODEC_GOODBYE'', ''TPQ_CODEC_GOODBYE_OK'', ''TPQ_CODEC_ERROR'']. 0 \<notin> set (bytes n)"
    by code_simp
  then show "zpl_message_id s = Some i \<Longrightarrow> c_string s"
    by (auto simp: zpl_message_id_def c_string_def split: if_splits)
qed

lemma names_apart:
  "zpl_message_id (bytes ''TPQ_CODEC_HELLO'') = Some TPQ_CODEC_HELLO"
  "zpl_message_id (bytes ''TPQ_CODEC_COVERAGE'') = Some TPQ_CODEC_COVERAGE"
  "zpl_message_id (bytes ''TPQ_CODEC_QUERY'') = Some TPQ_CODEC_QUERY"
  "zpl_message_id (bytes ''TPQ_CODEC_RESULT'') = Some TPQ_CODEC_RESULT"
  "zpl_message_id (bytes ''TPQ_CODEC_PING'') = Some TPQ_CODEC_PING"
  "zpl_message_id (bytes ''TPQ_CODEC_PONG'') = Some TPQ_CODEC_PONG"
  "zpl_message_id (bytes ''TPQ_CODEC_GOODBYE'') = Some TPQ_CODEC_GOODBYE"
  "zpl_message_id (bytes ''TPQ_CODEC_GOODBYE_OK'') = Some TPQ_CODEC_GOODBYE_OK"
  "zpl_message_id (bytes ''TPQ_CODEC_ERROR'') = Some TPQ_CODEC_ERROR"
  by code_simp+

lemma strncpy_fresh:
  assumes "buf_ok b"
  shows "cstring (strncpy255 (replicate 256 0) (cstring b)) = cstring b"
proof -
  let ?s = "cstring b"
  have l: "length ?s \<le> 255" using strlen_bound [OF assms] by (simp add: strlen_def)
  have "strncpy255 (replicate 256 0) ?s = ?s @ 0 # replicate (255 - length ?s) 0"
    using l by (simp add: strncpy255_def Let_def cstring_ident cstring_no_zero)
      (metis append_Cons append_Nil replicate_append_same)
  then show ?thesis using cstring_append_zero cstring_no_zero by simp
qed

text \<open>The codec that is read back: the fields of the message, and the others as they are when new.\<close>

lemma zpl_head_back:
  assumes "zpl_library zx" "c_string (bytes name)" "z_name zx k = ''content''"
    "z = zpl_head zx name c (z_new zx ''tpq_codec'') \<or> z = z_attach zx (zpl_head zx name c (z_new zx ''tpq_codec'')) k"
  shows "z_get zx ''message'' z = Some (bytes name)"
    "new_zpl_routing zx z d = Inr (Some (case routing_id c of None \<Rightarrow> d | Some f \<Rightarrow> d\<lparr>routing_id := Some f\<rparr>))"
proof -
  note L = zpl_laws [OF assms(1)]
  let ?h = "zpl_head zx name c (z_new zx ''tpq_codec'')"
  have h: "z_get zx ''message'' ?h = Some (bytes name)" "z_locate zx ''content'' ?h = None"
    "z_get zx ''routing_id'' ?h = map_option str_from_bytes (routing_id c)"
    using assms(2) by (simp_all add: L zpl_head_def Let_def split: option.splits)
  then have m: "z_get zx ''message'' z = Some (bytes name)" "z_get zx ''routing_id'' z = map_option str_from_bytes (routing_id c)"
    using assms(3,4) by (auto simp: L(8))
  show "z_get zx ''message'' z = Some (bytes name)" by (rule m)
  show "new_zpl_routing zx z d = Inr (Some (case routing_id c of None \<Rightarrow> d | Some f \<Rightarrow> d\<lparr>routing_id := Some f\<rparr>))"
    using m(2) by (simp add: new_zpl_routing_def bytes_from_str_back split: option.splits)
qed

text \<open>The contents.\<close>

lemma narrow_back: "ucast (ucast (n :: u32) :: u64) = n" "ucast (ucast (st :: u16) :: u64) = st"
  by (rule bit_word_eqI; simp add: bit_simps)+

lemma hello_back:
  "zpl_library zx \<Longrightarrow> new_zpl_hello zx (zpl_hello zx c) e =
     Inr (Some (e\<lparr>nickname := strncpy255 (nickname e) (cstring (nickname c))\<rparr>))"
  by (simp add: new_zpl_hello_def zpl_hello_def zpl_text_def zpl_laws)

lemma coverage_back:
  "zpl_library zx \<Longrightarrow> new_zpl_coverage zx (zpl_coverage zx c) e = Inr (Some (e\<lparr>detmask := detmask c\<rparr>))"
  using number_back [of zx "''detmask''" "zpl_coverage zx c" "detmask c"]
  by (simp add: new_zpl_coverage_def zpl_coverage_def putf_u64_def zpl_laws)

lemma query_back:
  assumes "zpl_library zx"
  shows "new_zpl_query zx (zpl_query zx c) e =
    Inr (Some (e\<lparr>seqno := seqno c, tstart := tstart c, tspan := tspan c, detmask := detmask c, timeout := timeout c\<rparr>))"
proof -
  let ?k = "zpl_query zx c"
  have g: "z_get zx ''seqno'' ?k = Some (print_ld (sint (ucast (seqno c) :: u64)))"
    "z_get zx ''tstart'' ?k = Some (print_ld (sint (tstart c)))" "z_get zx ''tspan'' ?k = Some (print_ld (sint (tspan c)))"
    "z_get zx ''detmask'' ?k = Some (print_ld (sint (detmask c)))"
    "z_get zx ''timeout'' ?k = Some (print_ld (sint (ucast (timeout c) :: u64)))"
    using assms by (simp_all add: zpl_query_def putf_u64_def Let_def zpl_laws)
  show ?thesis by (simp add: new_zpl_query_def Let_def g [THEN number_back] narrow_back)
qed

lemma result_back:
  assumes "zpl_library zx" "payload c = Some p" "frames_fit p"
  shows "\<exists>k. zpl_result zx c = Inr k \<and> z_name zx k = ''content'' \<and>
    new_zpl_result zx k e = Inr (Some (e\<lparr>seqno := seqno c, status := status c, payload := Some p\<rparr>))"
proof -
  let ?k = "z_put zx ''payload'' (str_from_bytes (z_encode zx p)) (putf_u64 zx ''status'' (ucast (status c))
      (putf_u64 zx ''seqno'' (ucast (seqno c)) (z_new zx ''content'')))"
  have g: "z_get zx ''seqno'' ?k = Some (print_ld (sint (ucast (seqno c) :: u64)))"
    "z_get zx ''status'' ?k = Some (print_ld (sint (ucast (status c) :: u64)))"
    "z_get zx ''payload'' ?k = Some (str_from_bytes (z_encode zx p))" "z_decode zx (z_encode zx p) = Some p"
    using assms(1,3) by (simp_all add: putf_u64_def zpl_laws)
  have "z_name zx ?k = ''content''" using assms(1) by (simp add: putf_u64_def zpl_laws)
  then show ?thesis using assms(2)
    by (simp add: zpl_result_def new_zpl_result_def Let_def g(1,2) [THEN number_back] narrow_back zpl_text_def g(3,4) bytes_from_str_back)
qed

lemma error_back:
  assumes "zpl_library zx"
  shows "new_zpl_error zx (zpl_error zx c) e =
    Inr (Some (e\<lparr>status := status c, reason := strncpy255 (reason e) (cstring (reason c))\<rparr>))"
proof -
  have g: "z_get zx ''status'' (zpl_error zx c) = Some (print_ld (sint (ucast (status c) :: u64)))"
    "z_get zx ''reason'' (zpl_error zx c) = Some (cstring (reason c))"
    using assms by (simp_all add: zpl_error_def putf_u64_def zpl_laws)
  show ?thesis by (simp add: new_zpl_error_def Let_def g(1) [THEN number_back] narrow_back g(2) zpl_text_def)
qed

lemma content_names:
  assumes "zpl_library zx"
  shows "z_name zx (zpl_hello zx c) = ''content''" "z_name zx (zpl_coverage zx c) = ''content''"
    "z_name zx (zpl_query zx c) = ''content''" "z_name zx (zpl_error zx c) = ''content''"
  using assms by (simp_all add: zpl_hello_def zpl_coverage_def zpl_query_def zpl_error_def putf_u64_def Let_def zpl_laws)

text \<open>The codec that the content is read into.\<close>

definition zpl_base :: "tpq_codec \<Rightarrow> tpq_codec" where
  "zpl_base c = tpq_codec_new\<lparr>codec_id := codec_id c, routing_id := routing_id c\<rparr>"

lemma new_zpl_run:
  assumes "zpl_library zx" "zpl_message_id (bytes name) = Some (codec_id c)" "z_name zx k = ''content''"
    "z = zpl_head zx name c (z_new zx ''tpq_codec'') \<or> z = z_attach zx (zpl_head zx name c (z_new zx ''tpq_codec'')) k"
  shows "tpq_codec_new_zpl zx z =
    (if codec_id c = TPQ_CODEC_HELLO then with_content zx z (new_zpl_hello zx) (zpl_base c)
     else if codec_id c = TPQ_CODEC_COVERAGE then with_content zx z (new_zpl_coverage zx) (zpl_base c)
     else if codec_id c = TPQ_CODEC_QUERY then with_content zx z (new_zpl_query zx) (zpl_base c)
     else if codec_id c = TPQ_CODEC_RESULT then with_content zx z (new_zpl_result zx) (zpl_base c)
     else if codec_id c = TPQ_CODEC_ERROR then with_content zx z (new_zpl_error zx) (zpl_base c)
     else Inr (Some (zpl_base c)))"
proof -
  have "(case routing_id c of None \<Rightarrow> tpq_codec_set_id tpq_codec_new (codec_id c)
      | Some f \<Rightarrow> (tpq_codec_set_id tpq_codec_new (codec_id c))\<lparr>routing_id := Some f\<rparr>) = zpl_base c"
    by (simp add: zpl_base_def tpq_codec_set_id_def tpq_codec_new_def split: option.splits)
  then show ?thesis using zpl_head_back [OF assms(1) message_id_string [OF assms(2)] assms(3,4)] assms(2)
    by (simp add: tpq_codec_new_zpl_def)
qed

lemma new_zpl_content:
  assumes "zpl_library zx" "zpl_message_id (bytes name) = Some (codec_id c)" "z_name zx k = ''content''"
  shows "with_content zx (z_attach zx (zpl_head zx name c (z_new zx ''tpq_codec'')) k) f = f k"
proof -
  have "z_locate zx ''content'' (zpl_head zx name c (z_new zx ''tpq_codec'')) = None"
    using assms(1) message_id_string [OF assms(2)] by (simp add: zpl_head_def Let_def zpl_laws split: option.split)
  then show ?thesis using assms(1,3) by (simp add: with_content_def zpl_laws fun_eq_iff)
qed

lemma zpl_back:
  assumes "zpl_library zx" "codec_ok c" "message_of c = Some m"
    "codec_id c = TPQ_CODEC_RESULT \<Longrightarrow> payload c \<noteq> None \<and> frames_fit (the (payload c))"
  shows "\<exists>z d. tpq_codec_zpl zx c = Inr z \<and> tpq_codec_new_zpl zx z = Inr (Some d) \<and>
    message_of d = Some m \<and> routing_id d = routing_id c"
proof -
  note i = message_of_id [OF assms(3)]
  note R = new_zpl_run [OF assms(1) _ zpl_laws(3) [OF assms(1)] disjI1 [OF refl], where c = c, unfolded i]
    new_zpl_run [OF assms(1) _ _ disjI2 [OF refl], where c = c, unfolded i] new_zpl_content [OF assms(1), where c = c, unfolded i]
  note W = tpq_codec_zpl_def Let_def i codec_ids R names_apart [unfolded codec_ids] content_names [OF assms(1)]
  note M = message_of_def codec_ids zpl_base_def tpq_codec_new_def
  have b: "cstring (strncpy255 (replicate 256 0) (cstring (nickname c))) = cstring (nickname c)"
    "cstring (strncpy255 (replicate 256 0) (cstring (reason c))) = cstring (reason c)"
    using assms(2) strncpy_fresh by (simp_all add: codec_ok_def)
  show ?thesis
  proof (cases m)
    case (Result n st pl)
    then obtain p where p: "payload c = Some p" "frames_fit p" using assms(4) i by auto
    obtain k where k: "zpl_result zx c = Inr k" "z_name zx k = ''content''" "new_zpl_result zx k (zpl_base c) =
        Inr (Some ((zpl_base c)\<lparr>seqno := seqno c, status := status c, payload := Some p\<rparr>))"
      using result_back [OF assms(1) p] by blast
    show ?thesis using assms(3) Result p by (simp add: W k) (simp add: M i wire_payload_def)
  qed (use assms(3) b in \<open>simp add: W hello_back coverage_back query_back error_back assms(1), simp add: M i\<close>)+
qed

text \<open>C15: a codec of a known message, with proper strings and, for a result, a payload whose frames fit
  the encoding, survives the conversion to a tree and back: the message and the routing id are the
  same. Numbers above the range of \<open>long\<close> are printed negative and read back as they were.\<close>

theorem zpl_roundtrip:
  assumes "zpl_library zx" "codec_ok c" "message_of c = Some m"
    "codec_id c = TPQ_CODEC_RESULT \<Longrightarrow> payload c \<noteq> None \<and> frames_fit (the (payload c))"
  shows "\<exists>z d. tpq_codec_zpl zx c = Inr z \<and> tpq_codec_new_zpl zx z = Inr (Some d) \<and>
    message_of d = Some m \<and> routing_id d = routing_id c"
  using assms by (rule zpl_back)

text \<open>A library for the witness: a tree is a name, a map of values and at most one child, and a message is
  encoded by a mark in front of each byte and a mark behind each frame.\<close>

datatype ztree = ZTree string "string \<Rightarrow> byte list option" "ztree option"

fun sample_encode :: "zmsg \<Rightarrow> frame" where
  "sample_encode [] = []"
| "sample_encode ([] # fs) = 0 # sample_encode fs"
| "sample_encode ((b # f) # fs) = 1 # b # sample_encode (f # fs)"

fun sample_decode :: "frame \<Rightarrow> frame \<Rightarrow> zmsg option" where
  "sample_decode acc [] = Some []"
| "sample_decode acc [x] = (if x = 0 then Some [acc] else None)"
| "sample_decode acc (x # b # r) =
     (if x = 0 then map_option (Cons acc) (sample_decode [] (b # r)) else sample_decode (acc @ [b]) r)"

lemma sample_decode_cons: "sample_decode acc (0 # r) = map_option (Cons acc) (sample_decode [] r)"
  by (cases r) simp_all

lemma sample_decode_encode: "sample_decode acc (sample_encode (f # fs)) = Some ((acc @ f) # fs)"
proof (induction "f # fs" arbitrary: acc f fs rule: sample_encode.induct)
  case (2 fs)
  then show ?case by (cases fs) (simp_all add: sample_decode_cons)
qed simp

definition sample_zpl :: "ztree zpl_extern" where
  "sample_zpl = \<lparr>z_new = (\<lambda>n. ZTree n (\<lambda>m. None) None), z_name = (\<lambda>z. case z of ZTree n g k \<Rightarrow> n),
     z_put = (\<lambda>m v z. case z of ZTree n g k \<Rightarrow> ZTree n (g(m := Some v)) k),
     z_get = (\<lambda>m z. case z of ZTree n g k \<Rightarrow> g m), z_attach = (\<lambda>z k. case z of ZTree n g _ \<Rightarrow> ZTree n g (Some k)),
     z_locate = (\<lambda>m z. case z of ZTree n g k \<Rightarrow> if m = ''content'' then k else None),
     z_encode = sample_encode, z_decode = sample_decode []\<rparr>"

lemma sample_zpl_library: "zpl_library sample_zpl"
proof -
  have "sample_decode [] (sample_encode m) = Some m" for m
    using sample_decode_encode [of "[]"] by (cases m) simp_all
  then show ?thesis by (simp add: zpl_library_def sample_zpl_def split: ztree.splits)
qed

lemma zpl_roundtrip_witness:
  "\<exists>z d. tpq_codec_zpl sample_zpl sample_result = Inr z \<and> tpq_codec_new_zpl sample_zpl z = Inr (Some d) \<and>
     message_of d = Some (Result 7 200 [[1, 2], [3]])"
  using zpl_roundtrip [OF sample_zpl_library sample_codecs(2,4)] by (auto simp: sample_result_def frames_fit_def)

text \<open>What \<open>tpq_codec_new_zpl\<close> refuses: a tree without a message name, with an unknown one, or whose
  routing id has an odd number of characters.\<close>

lemma new_zpl_refuses:
  "z_get zx ''message'' z = None \<Longrightarrow> tpq_codec_new_zpl zx z = Inr None"
  "z_get zx ''message'' z = Some s \<Longrightarrow> zpl_message_id s = None \<Longrightarrow> tpq_codec_new_zpl zx z = Inr None"
  "z_get zx ''message'' z = Some s \<Longrightarrow> zpl_message_id s = Some i \<Longrightarrow> z_get zx ''routing_id'' z = Some r \<Longrightarrow>
     odd (length r) \<Longrightarrow> tpq_codec_new_zpl zx z = Inr None"
  by (simp_all add: tpq_codec_new_zpl_def new_zpl_routing_def bytes_from_str_def)

end
