(* ===== verification/CodecTest.thy ===== *)
theory CodecTest
  imports CodecZpl ServerPipe
begin

text \<open>
  The selftest of the codec (\<open>tpq_codec_test\<close> of \<open>src/tpq_codec.cpp\<close>): every message is set up in
  one codec, converted to a tree, sent twice from a DEALER to a ROUTER socket, received twice into
  the same codec, and read back from the tree into another one; after each of the three the
  fields are compared. What the program takes from its libraries is the argument \<open>lib\<close>: the trees, the
  sockets, and the transfer between the two that the endpoint joins.
\<close>

section \<open>The libraries\<close>

record 'z selftest_lib =
  lib_zpl :: "'z zpl_extern"
  lib_sock :: "sock_type \<Rightarrow> zsock option"
  lib_bind :: "zsock \<Rightarrow> string \<Rightarrow> int"
  lib_connect :: "zsock \<Rightarrow> string \<Rightarrow> int"
  lib_transfer :: "string \<Rightarrow> zsock \<Rightarrow> zsock \<Rightarrow> zsock \<times> zsock"

text \<open>A ROUTER socket puts the routing id of the sender in front of each message.\<close>

fun with_identity :: "frame \<Rightarrow> bool \<Rightarrow> part list \<Rightarrow> part list" where
  "with_identity rid first [] = []"
| "with_identity rid first ((f, rcvmore) # ps) = (if first then [(rid, True)] else []) @ (f, rcvmore) # with_identity rid (\<not> rcvmore) ps"

text \<open>
  The documented behaviour the test relies on. A socket that is made is empty; making, binding and
  connecting may fail. When a DEALER socket was bound to an endpoint and a ROUTER socket connected to
  it, what the one has sent arrives at the other, whole messages in order, each behind the routing
  id \<open>rid\<close> that the ROUTER socket has for its peer, as long as the messages under way are not more
  than the high water mark (1000 by default). The receive calls of the test block, so a transfer stands
  for waiting until everything sent has arrived.
\<close>

definition selftest_endpoint :: string where
  "selftest_endpoint = ''inproc://selftest-tpq_codec''"

definition delivered :: "frame \<Rightarrow> tpq_codec list \<Rightarrow> part list" where
  "delivered rid cs = concat (map (\<lambda>c. (rid, True) # message_parts c) cs)"

definition joined :: "'z selftest_lib \<Rightarrow> frame \<Rightarrow> string \<Rightarrow> bool" where
  "joined lib rid e \<longleftrightarrow> (\<forall>out inp cs ds.
     sock_type out = DEALER \<longrightarrow> sock_type inp = ROUTER \<longrightarrow> outbound out = concat (map message_parts cs) \<longrightarrow>
     inbound inp = delivered rid ds \<longrightarrow> length ds + length cs \<le> 1000 \<longrightarrow>
     lib_transfer lib e out inp = (out\<lparr>outbound := []\<rparr>, inp\<lparr>inbound := delivered rid (ds @ cs)\<rparr>))"

definition selftest_library :: "'z selftest_lib \<Rightarrow> frame \<Rightarrow> bool" where
  "selftest_library lib rid \<longleftrightarrow>
     zpl_library (lib_zpl lib) \<and>
     (\<forall>t sk. lib_sock lib t = Some sk \<longrightarrow> sk = idle t) \<and>
     (\<forall>e. lib_bind lib (idle DEALER) e = 0 \<longrightarrow> lib_connect lib (idle ROUTER) e = 0 \<longrightarrow> joined lib rid e)"

section \<open>One message\<close>

text \<open>
  The state of the test: the codec, the output and the input socket. One pass of the loop over
  \<open>instance\<close>: the first two receive into the codec, the third makes a codec from the tree and gives up
  that one after the check. The check runs the assertions on the fields.
\<close>

type_synonym test_state = "tpq_codec \<times> zsock \<times> zsock"

definition test_instance ::
  "'z selftest_lib \<Rightarrow> 'z \<Rightarrow> (tpq_codec \<Rightarrow> fault + tpq_codec) \<Rightarrow> nat \<Rightarrow> test_state \<Rightarrow> fault + test_state" where
  "test_instance lib cfg verify k = (\<lambda>(self_temp, out, inp).
     bind_fault
       (if k < 2 then
          (case lib_transfer lib selftest_endpoint out inp of (out, inp) \<Rightarrow>
             (case tpq_codec_recv self_temp inp of (rc, self, inp) \<Rightarrow> Inr (self, out, inp)))
        else bind_fault (tpq_codec_new_zpl (lib_zpl lib) cfg) (\<lambda>r.
          case r of None \<Rightarrow> Inl AssertFailed | Some self \<Rightarrow> Inr (self, out, inp)))
       (\<lambda>(self, out, inp).
          if k < 2 \<and> tpq_codec_routing_id self = None then Inl AssertFailed
          else bind_fault (verify self) (\<lambda>self. Inr (if k = 2 then self_temp else self, out, inp))))"

fun test_instances ::
  "'z selftest_lib \<Rightarrow> 'z \<Rightarrow> (tpq_codec \<Rightarrow> fault + tpq_codec) \<Rightarrow> nat list \<Rightarrow> test_state \<Rightarrow> fault + test_state" where
  "test_instances lib cfg verify [] st = Inr st"
| "test_instances lib cfg verify (k # ks) st =
     bind_fault (test_instance lib cfg verify k st) (test_instances lib cfg verify ks)"

text \<open>The conversion, the two transmissions and the loop.\<close>

definition test_message ::
  "'z selftest_lib \<Rightarrow> (tpq_codec \<Rightarrow> fault + tpq_codec) \<Rightarrow> test_state \<Rightarrow> fault + test_state" where
  "test_message lib verify = (\<lambda>(self, out, inp).
     bind_fault (tpq_codec_zpl (lib_zpl lib) self) (\<lambda>cfg.
       let out = snd (tpq_codec_send self out); out = snd (tpq_codec_send self out)
       in test_instances lib cfg verify [0, 1, 2] (self, out, inp)))"

section \<open>The messages\<close>

definition test_text :: "byte list" where
  "test_text = bytes ''Life is short but Now lasts for ever''"

definition captcha :: "byte list" where
  "captcha = bytes ''Captcha Diem''"

definition assert_that :: "bool \<Rightarrow> tpq_codec \<Rightarrow> fault + tpq_codec" where
  "assert_that b self = (if b then Inr self else Inl AssertFailed)"

definition test_hello :: "'z selftest_lib \<Rightarrow> test_state \<Rightarrow> fault + test_state" where
  "test_hello lib = (\<lambda>(self, out, inp).
     let self = tpq_codec_set_id self TPQ_CODEC_HELLO;
         self = tpq_codec_set_nickname self test_text
     in test_message lib (\<lambda>self. assert_that (cstring (tpq_codec_nickname self) = test_text) self) (self, out, inp))"

definition test_coverage :: "'z selftest_lib \<Rightarrow> test_state \<Rightarrow> fault + test_state" where
  "test_coverage lib = (\<lambda>(self, out, inp).
     let self = tpq_codec_set_id self TPQ_CODEC_COVERAGE;
         self = tpq_codec_set_detmask self 123
     in test_message lib (\<lambda>self. assert_that (tpq_codec_detmask self = 123) self) (self, out, inp))"

definition test_query :: "'z selftest_lib \<Rightarrow> test_state \<Rightarrow> fault + test_state" where
  "test_query lib = (\<lambda>(self, out, inp).
     let self = tpq_codec_set_id self TPQ_CODEC_QUERY;
         self = tpq_codec_set_seqno self 123;
         self = tpq_codec_set_tstart self 123;
         self = tpq_codec_set_tspan self 123;
         self = tpq_codec_set_detmask self 123;
         self = tpq_codec_set_timeout self 123
     in test_message lib (\<lambda>self.
          assert_that (tpq_codec_seqno self = 123 \<and> tpq_codec_tstart self = 123 \<and> tpq_codec_tspan self = 123 \<and>
            tpq_codec_detmask self = 123 \<and> tpq_codec_timeout self = 123) self) (self, out, inp))"

text \<open>The check of a result takes the one frame off the payload.\<close>

definition verify_result :: "tpq_codec \<Rightarrow> fault + tpq_codec" where
  "verify_result self =
     bind_fault (assert_that (tpq_codec_seqno self = 123 \<and> tpq_codec_status self = 123) self) (\<lambda>self.
       case tpq_codec_payload self of None \<Rightarrow> Inl AssertFailed
       | Some m \<Rightarrow>
           if length m \<noteq> 1 then Inl AssertFailed
           else (case zmsg_popstr m of (None, _) \<Rightarrow> Inl NullPointer
             | (Some content, m) \<Rightarrow> assert_that (content = captcha) (self\<lparr>payload := Some m\<rparr>)))"

definition test_result :: "'z selftest_lib \<Rightarrow> test_state \<Rightarrow> fault + test_state" where
  "test_result lib = (\<lambda>(self, out, inp).
     let self = tpq_codec_set_id self TPQ_CODEC_RESULT;
         self = tpq_codec_set_seqno self 123;
         self = tpq_codec_set_status self 123;
         self = tpq_codec_set_payload self (Some []);
         self = self\<lparr>payload := map_option (\<lambda>m. m @ [captcha]) (tpq_codec_payload self)\<rparr>
     in test_message lib verify_result (self, out, inp))"

definition test_ping :: "'z selftest_lib \<Rightarrow> test_state \<Rightarrow> fault + test_state" where
  "test_ping lib = (\<lambda>(self, out, inp). test_message lib Inr (tpq_codec_set_id self TPQ_CODEC_PING, out, inp))"

definition test_pong :: "'z selftest_lib \<Rightarrow> test_state \<Rightarrow> fault + test_state" where
  "test_pong lib = (\<lambda>(self, out, inp). test_message lib Inr (tpq_codec_set_id self TPQ_CODEC_PONG, out, inp))"

definition test_goodbye :: "'z selftest_lib \<Rightarrow> test_state \<Rightarrow> fault + test_state" where
  "test_goodbye lib = (\<lambda>(self, out, inp). test_message lib Inr (tpq_codec_set_id self TPQ_CODEC_GOODBYE, out, inp))"

definition test_goodbye_ok :: "'z selftest_lib \<Rightarrow> test_state \<Rightarrow> fault + test_state" where
  "test_goodbye_ok lib = (\<lambda>(self, out, inp). test_message lib Inr (tpq_codec_set_id self TPQ_CODEC_GOODBYE_OK, out, inp))"

definition test_error :: "'z selftest_lib \<Rightarrow> test_state \<Rightarrow> fault + test_state" where
  "test_error lib = (\<lambda>(self, out, inp).
     let self = tpq_codec_set_id self TPQ_CODEC_ERROR;
         self = tpq_codec_set_status self 123;
         self = tpq_codec_set_reason self test_text
     in test_message lib (\<lambda>self.
          assert_that (tpq_codec_status self = 123 \<and> cstring (tpq_codec_reason self) = test_text) self) (self, out, inp))"

text \<open>The whole test. Nothing is left of its codecs and sockets when it returns.\<close>

definition tpq_codec_test :: "'z selftest_lib \<Rightarrow> fault + unit" where
  "tpq_codec_test lib =
     (case lib_sock lib DEALER of None \<Rightarrow> Inl AssertFailed
      | Some out \<Rightarrow>
        if lib_bind lib out selftest_endpoint \<noteq> 0 then Inl AssertFailed
        else case lib_sock lib ROUTER of None \<Rightarrow> Inl AssertFailed
        | Some inp \<Rightarrow>
          if lib_connect lib inp selftest_endpoint \<noteq> 0 then Inl AssertFailed
          else bind_fault (test_hello lib (tpq_codec_new, out, inp)) (\<lambda>st.
            bind_fault (test_coverage lib st) (\<lambda>st.
            bind_fault (test_query lib st) (\<lambda>st.
            bind_fault (test_result lib st) (\<lambda>st.
            bind_fault (test_ping lib st) (\<lambda>st.
            bind_fault (test_pong lib st) (\<lambda>st.
            bind_fault (test_goodbye lib st) (\<lambda>st.
            bind_fault (test_goodbye_ok lib st) (\<lambda>st.
            bind_fault (test_error lib st) (\<lambda>st. Inr ())))))))))) "

section \<open>The test passes\<close>

lemma with_identity_message:
  "with_identity rid True (message_parts c @ ps) = (rid, True) # message_parts c @ with_identity rid True ps"
proof -
  have "with_identity rid b (mark_parts (f # fs) @ ps) =
    (if b then [(rid, True)] else []) @ mark_parts (f # fs) @ with_identity rid True ps" for b f fs
    by (induction fs arbitrary: f b) simp_all
  then show ?thesis by (simp only: message_parts_def if_True append_Cons append_Nil)
qed

text \<open>Between the messages: proper strings, nothing in flight.\<close>

fun test_ready :: "test_state \<Rightarrow> bool" where
  "test_ready (self, out, inp) \<longleftrightarrow> codec_ok self \<and> sock_type out = DEALER \<and> outbound out = [] \<and>
     sock_type inp = ROUTER \<and> inbound inp = []"

text \<open>A check that passes for the content of the message, whatever else the codec holds.\<close>

definition passes :: "(tpq_codec \<Rightarrow> fault + tpq_codec) \<Rightarrow> message \<Rightarrow> bool" where
  "passes verify m \<longleftrightarrow> (\<forall>d. message_of d = Some m \<longrightarrow> (\<exists>d'. verify d = Inr d' \<and> (codec_ok d \<longrightarrow> codec_ok d') \<and>
     routing_id d' = routing_id d))"

lemma recv_instance:
  assumes "joined lib rid selftest_endpoint" "passes verify m" "k < 2"
    and c: "message_of c = Some m" "codec_ok c"
    and s: "codec_ok self" "sock_type out = DEALER" "sock_type inp = ROUTER" "outbound out = concat (map message_parts cs)"
      "inbound inp = delivered rid ds" "ds @ cs = c # es" "length es < 1000"
  shows "\<exists>self' inp'. test_instance lib cfg verify k (self, out, inp) = Inr (self', out\<lparr>outbound := []\<rparr>, inp') \<and>
    codec_ok self' \<and> sock_type inp' = ROUTER \<and> inbound inp' = delivered rid es"
proof -
  define ps where "ps = delivered rid es"
  define ri where "ri = inp\<lparr>inbound := (rid, True) # message_parts c @ ps\<rparr>"
  have "length (ds @ cs) = Suc (length es)" by (simp add: s(6) del: length_append)
  then have "length ds + length cs \<le> 1000" using s(7) by simp
  moreover have "delivered rid (ds @ cs) = (rid, True) # message_parts c @ ps" by (simp only: s(6)) (simp add: ps_def delivered_def)
  ultimately have t: "lib_transfer lib selftest_endpoint out inp = (out\<lparr>outbound := []\<rparr>, ri)"
    using assms(1) s(2-5) by (simp add: joined_def ri_def)
  have "codec_ok (self\<lparr>routing_id := Some rid\<rparr>)" using s(1) by simp
  from recv_delivered [OF c this, of "ri\<lparr>inbound := message_parts c @ ps\<rparr>" ps]
  obtain d inp' where r: "tpq_codec_recv self ri = (0, d, inp')" "inbound inp' = ps" "sock_type inp' = ROUTER"
    "received (self\<lparr>routing_id := Some rid\<rparr>) d m"
    using s(3) by (auto simp: tpq_codec_recv_def recv_part_def ri_def split: prod.splits)
  then obtain d' where "verify d = Inr d'" "codec_ok d'" "routing_id d = Some rid"
    using assms(2) by (auto simp: passes_def received_def)
  then show ?thesis using assms(3) r by (simp add: test_instance_def t ps_def)
qed

lemma message_tested:
  assumes lib: "zpl_library (lib_zpl lib)" "joined lib rid selftest_endpoint" and v: "passes verify m"
    and m: "message_of self = Some m" "codec_id self = TPQ_CODEC_RESULT \<Longrightarrow> payload self \<noteq> None \<and> frames_fit (the (payload self))"
    and s: "test_ready (self, out, inp)"
  shows "\<exists>st. test_message lib verify (self, out, inp) = Inr st \<and> test_ready st"
proof -
  have ok: "codec_ok self" "sock_type out = DEALER" "outbound out = []" "sock_type inp = ROUTER" "inbound inp = []"
    using s by simp_all
  obtain z d where z: "tpq_codec_zpl (lib_zpl lib) self = Inr z" "tpq_codec_new_zpl (lib_zpl lib) z = Inr (Some d)"
    "message_of d = Some m" using zpl_back [OF lib(1) ok(1) m] by blast
  obtain d' where d': "verify d = Inr d'" using v z(3) by (auto simp: passes_def)
  define out2 where "out2 = snd (tpq_codec_send self (snd (tpq_codec_send self out)))"
  have o: "outbound out2 = concat (map message_parts [self, self])" "sock_type out2 = DEALER" "inbound inp = delivered rid []"
    using ok by (simp_all add: out2_def send_outbound send_socket delivered_def)
  obtain self1 inp1 where one: "test_instance lib z verify 0 (self, out2, inp) = Inr (self1, out2\<lparr>outbound := []\<rparr>, inp1)"
    "codec_ok self1" "sock_type inp1 = ROUTER" "inbound inp1 = delivered rid [self]"
    using recv_instance [OF lib(2) v _ m(1) ok(1) ok(1) o(2) ok(4) o(1,3), of 0 "[self]" z] by auto
  obtain self2 inp2 where two: "test_instance lib z verify 1 (self1, out2\<lparr>outbound := []\<rparr>, inp1) =
      Inr (self2, out2\<lparr>outbound := [], outbound := []\<rparr>, inp2)"
    "codec_ok self2" "sock_type inp2 = ROUTER" "inbound inp2 = delivered rid []"
    using recv_instance [OF lib(2) v _ m(1) ok(1) one(2) _ one(3) _ one(4), of 1 "out2\<lparr>outbound := []\<rparr>" "[]" "[]" z] o(2) by auto
  have three: "test_instance lib z verify 2 (self2, out3, inp2) = Inr (self2, out3, inp2)" for out3
    by (simp add: test_instance_def z(2) d')
  have "test_message lib verify (self, out, inp) = Inr (self2, out2\<lparr>outbound := []\<rparr>, inp2)"
    using one(1) two(1) three by (simp add: test_message_def z(1) out2_def [symmetric] Let_def)
  then show ?thesis using two o(2) by (simp add: delivered_def)
qed

lemma texts: "length test_text \<le> 255" "0 \<notin> set test_text" "cstring test_text = test_text" "cstring captcha = captcha"
  "captcha \<noteq> []" "length captcha = 12"
  by code_simp+

lemma text_stored:
  assumes "codec_ok c"
  shows "codec_ok (tpq_codec_set_nickname c test_text)" "cstring (nickname (tpq_codec_set_nickname c test_text)) = test_text"
    "codec_ok (tpq_codec_set_reason c test_text)" "cstring (reason (tpq_codec_set_reason c test_text)) = test_text"
  using assms strncpy_ok [of "nickname c" test_text] strncpy_ok [of "reason c" test_text] texts(1,3)
  by (simp_all add: codec_ok_def buf_ok_def tpq_codec_set_nickname_def tpq_codec_set_reason_def)

lemmas setters = tpq_codec_set_id_def tpq_codec_set_detmask_def tpq_codec_set_seqno_def tpq_codec_set_tstart_def
  tpq_codec_set_tspan_def tpq_codec_set_timeout_def tpq_codec_set_status_def tpq_codec_set_payload_def

text \<open>A message that is set up by \<open>prep\<close> and checked by \<open>verify\<close>.\<close>

lemma block_tested:
  assumes "zpl_library (lib_zpl lib)" "joined lib rid selftest_endpoint" "test_ready st" "passes verify m"
    and "\<And>self out inp. body (self, out, inp) = test_message lib verify (prep self, out, inp)"
    and "\<And>self. codec_ok self \<Longrightarrow> codec_ok (prep self) \<and> message_of (prep self) = Some m \<and>
      (codec_id (prep self) = TPQ_CODEC_RESULT \<longrightarrow> payload (prep self) \<noteq> None \<and> frames_fit (the (payload (prep self))))"
  shows "\<exists>st'. body st = Inr st' \<and> test_ready st'"
proof -
  obtain self out inp where st: "st = (self, out, inp)" by (cases st)
  then have "codec_ok self" using assms(3) by simp
  from assms(6) [OF this] show ?thesis
    using message_tested [OF assms(1,2,4), of "prep self" out inp] assms(3) by (simp add: st assms(5))
qed

lemmas test_body = setters message_of_def codec_ids Let_def

lemma passes_test_text:
  "passes (\<lambda>self. assert_that (cstring (tpq_codec_nickname self) = test_text) self) (Hello test_text)"
  "passes (\<lambda>self. assert_that (tpq_codec_status self = 123 \<and> cstring (tpq_codec_reason self) = test_text) self) (Error 123 test_text)"
  by (auto simp: passes_def assert_that_def message_of_def codec_ids split: if_splits)

lemma passes_numbers:
  "passes (\<lambda>self. assert_that (tpq_codec_detmask self = 123) self) (Coverage 123)"
  "passes (\<lambda>self. assert_that (tpq_codec_seqno self = 123 \<and> tpq_codec_tstart self = 123 \<and> tpq_codec_tspan self = 123 \<and>
     tpq_codec_detmask self = 123 \<and> tpq_codec_timeout self = 123) self) (Query 123 123 123 123 123)"
  "passes Inr m"
  by (auto simp: passes_def assert_that_def message_of_def codec_ids split: if_splits)

lemma passes_result: "passes verify_result (Result 123 123 [captcha])"
proof -
  have "\<exists>d'. verify_result d = Inr d' \<and> (codec_ok d \<longrightarrow> codec_ok d') \<and> routing_id d' = routing_id d"
    if "message_of d = Some (Result 123 123 [captcha])" for d
  proof -
    have d: "seqno d = 123" "status d = 123" "wire_payload (payload d) = [captcha]"
      using that by (auto simp: message_of_def split: if_splits)
    then have "payload d = Some [captcha]" using texts(5) by (auto simp: wire_payload_def split: option.splits)
    then show ?thesis using d texts(4) by (simp add: verify_result_def assert_that_def zmsg_popstr_def)
  qed
  then show ?thesis by (simp add: passes_def)
qed

lemma blocks_tested:
  assumes "zpl_library (lib_zpl lib)" "joined lib rid selftest_endpoint" "test_ready st"
  shows "\<exists>st'. test_hello lib st = Inr st' \<and> test_ready st'" "\<exists>st'. test_coverage lib st = Inr st' \<and> test_ready st'"
    "\<exists>st'. test_query lib st = Inr st' \<and> test_ready st'" "\<exists>st'. test_result lib st = Inr st' \<and> test_ready st'"
    "\<exists>st'. test_ping lib st = Inr st' \<and> test_ready st'" "\<exists>st'. test_pong lib st = Inr st' \<and> test_ready st'"
    "\<exists>st'. test_goodbye lib st = Inr st' \<and> test_ready st'" "\<exists>st'. test_goodbye_ok lib st = Inr st' \<and> test_ready st'"
    "\<exists>st'. test_error lib st = Inr st' \<and> test_ready st'"
proof -
  note B = block_tested [OF assms]
  have n: "message_of (tpq_codec_set_nickname (c\<lparr>codec_id := 1\<rparr>) test_text) = Some (Hello test_text)"
    "codec_id (tpq_codec_set_nickname (c\<lparr>codec_id := 1\<rparr>) test_text) = 1" if "codec_ok c" for c
    using text_stored(2) [of "c\<lparr>codec_id := 1\<rparr>"] that by (simp_all add: message_of_def codec_ids tpq_codec_set_nickname_def)
  have r: "message_of (tpq_codec_set_reason (c\<lparr>codec_id := 9, status := 123\<rparr>) test_text) = Some (Error 123 test_text)"
    "codec_id (tpq_codec_set_reason (c\<lparr>codec_id := 9, status := 123\<rparr>) test_text) = 9" if "codec_ok c" for c
    using text_stored(4) [of "c\<lparr>codec_id := 9, status := 123\<rparr>"] that by (simp_all add: message_of_def codec_ids tpq_codec_set_reason_def)
  show "\<exists>st'. test_hello lib st = Inr st' \<and> test_ready st'"
    by (rule B [OF passes_test_text(1), where prep = "\<lambda>self. tpq_codec_set_nickname (self\<lparr>codec_id := 1\<rparr>) test_text"])
      (simp_all add: test_hello_def tpq_codec_set_id_def codec_ids n text_stored)
  show "\<exists>st'. test_error lib st = Inr st' \<and> test_ready st'"
    by (rule B [OF passes_test_text(2), where prep = "\<lambda>self. tpq_codec_set_reason (self\<lparr>codec_id := 9, status := 123\<rparr>) test_text"])
      (simp_all add: test_error_def setters codec_ids r text_stored)
  show "\<exists>st'. test_coverage lib st = Inr st' \<and> test_ready st'"
    by (rule B [OF passes_numbers(1), where prep = "\<lambda>self. self\<lparr>codec_id := 2, detmask := 123\<rparr>"])
      (simp_all add: test_coverage_def test_body)
  show "\<exists>st'. test_query lib st = Inr st' \<and> test_ready st'"
    by (rule B [OF passes_numbers(2), where prep = "\<lambda>self. self\<lparr>codec_id := 3, seqno := 123, tstart := 123, tspan := 123,
        detmask := 123, timeout := 123\<rparr>"]) (simp_all add: test_query_def test_body)
  show "\<exists>st'. test_result lib st = Inr st' \<and> test_ready st'"
    by (rule B [OF passes_result, where prep = "\<lambda>self. self\<lparr>codec_id := 4, seqno := 123, status := 123, payload := Some [captcha]\<rparr>"])
      (simp_all add: test_result_def test_body wire_payload_def frames_fit_def texts)
  show "\<exists>st'. test_ping lib st = Inr st' \<and> test_ready st'"
    by (rule B [OF passes_numbers(3) [of Ping], where prep = "\<lambda>self. self\<lparr>codec_id := 5\<rparr>"]) (simp_all add: test_ping_def test_body)
  show "\<exists>st'. test_pong lib st = Inr st' \<and> test_ready st'"
    by (rule B [OF passes_numbers(3) [of Pong], where prep = "\<lambda>self. self\<lparr>codec_id := 6\<rparr>"]) (simp_all add: test_pong_def test_body)
  show "\<exists>st'. test_goodbye lib st = Inr st' \<and> test_ready st'"
    by (rule B [OF passes_numbers(3) [of Goodbye], where prep = "\<lambda>self. self\<lparr>codec_id := 7\<rparr>"])
      (simp_all add: test_goodbye_def test_body)
  show "\<exists>st'. test_goodbye_ok lib st = Inr st' \<and> test_ready st'"
    by (rule B [OF passes_numbers(3) [of GoodbyeOk], where prep = "\<lambda>self. self\<lparr>codec_id := 8\<rparr>"])
      (simp_all add: test_goodbye_ok_def test_body)
qed

lemma and_tested:
  assumes "\<exists>st'. r = Inr st' \<and> test_ready st'" "\<And>st'. test_ready st' \<Longrightarrow> g st' = Inr ()"
  shows "bind_fault r g = Inr ()"
  using assms by auto

text \<open>C16: When the two sockets are made, bound and connected, the selftest of the codec returns with
  every assertion satisfied, whatever the routing id: what each message carries survives the wire and
  the tree, into a codec that still holds the fields of the messages before it. When one of these
  four calls fails, the test fails an assertion.\<close>

theorem selftest_passes:
  assumes "selftest_library lib rid"
  shows "tpq_codec_test lib =
    (if lib_sock lib DEALER \<noteq> None \<and> lib_bind lib (idle DEALER) selftest_endpoint = 0 \<and>
        lib_sock lib ROUTER \<noteq> None \<and> lib_connect lib (idle ROUTER) selftest_endpoint = 0
     then Inr () else Inl AssertFailed)"
proof (cases "lib_sock lib DEALER \<noteq> None \<and> lib_bind lib (idle DEALER) selftest_endpoint = 0 \<and>
    lib_sock lib ROUTER \<noteq> None \<and> lib_connect lib (idle ROUTER) selftest_endpoint = 0")
  case True
  then have j: "zpl_library (lib_zpl lib)" "joined lib rid selftest_endpoint" "lib_sock lib DEALER = Some (idle DEALER)"
    "lib_sock lib ROUTER = Some (idle ROUTER)"
    using assms by (auto simp: selftest_library_def)
  note T = blocks_tested [OF j(1,2), THEN and_tested]
  have r: "test_ready (tpq_codec_new, idle DEALER, idle ROUTER)" by (simp add: codec_ok_new idle_def)
  show ?thesis using True unfolding tpq_codec_test_def j(3,4)
    by simp (intro T refl; (assumption | rule r)?)
next
  case False
  then show ?thesis using assms unfolding selftest_library_def
    by (auto simp: tpq_codec_test_def split: option.split)
qed

text \<open>Libraries for the witness: \<open>sample_zpl\<close>, sockets that can always be made, joined at the endpoint of the
  test only, and a transfer that knows the sender as \<open>[9]\<close>.\<close>

definition sample_selftest :: "ztree selftest_lib" where
  "sample_selftest = \<lparr>lib_zpl = sample_zpl, lib_sock = (\<lambda>t. Some (idle t)),
     lib_bind = (\<lambda>sk e. if e = selftest_endpoint then 0 else -1), lib_connect = (\<lambda>sk e. if e = selftest_endpoint then 0 else -1),
     lib_transfer = (\<lambda>e out inp. (out\<lparr>outbound := []\<rparr>, inp\<lparr>inbound := inbound inp @ with_identity [9] True (outbound out)\<rparr>))\<rparr>"

lemma with_identity_delivered: "with_identity rid True (concat (map message_parts cs)) = delivered rid cs"
  by (induction cs) (simp_all add: with_identity_message delivered_def)

lemma selftest_passes_witness:
  "selftest_library sample_selftest [9] \<and> tpq_codec_test sample_selftest = Inr ()"
proof -
  have l: "selftest_library sample_selftest [9]"
    using sample_zpl_library
    by (simp add: selftest_library_def sample_selftest_def joined_def with_identity_delivered delivered_def)
  show ?thesis using l selftest_passes [OF l] by (simp add: sample_selftest_def)
qed

end
