(* ===== verification/ServerTest.thy ===== *)
theory ServerTest
  imports ServerTurns ServerProps CodecTest
begin

text \<open>
  The selftest of the server (\<open>tpq_server_test\<close> of \<open>src/tpq_server.cpp\<close> with
  \<open>src/tpq_test_util.inc\<close>): it configures a server over the pipe, sends six sets to its ingest
  socket, says hello over a DEALER socket, asks a query that is partly late and one that must wait,
  and sends the set that completes the second.

  The sets reach the ingest socket at their own pace. The test is given the batches in which the
  server reads them: those it reads before the greeting arrives, those it reads between the greeting
  and the first query, and those it reads while the test waits for the reply. What the test takes from \<open>ptmp\<close> and \<open>czmq\<close> is the argument \<open>lib\<close>: the
  message of a \<open>TPSet\<close>, \<open>zmsg_decode\<close>, and the text of the JSON configuration.
\<close>

section \<open>Utilities\<close>

record server_test_lib =
  tp_message :: "tpset \<Rightarrow> zmsg"
  tp_decode :: "frame \<Rightarrow> zmsg option"
  tp_config :: cstr

definition assert_or :: "bool \<Rightarrow> (unit \<Rightarrow> fault + 'a) \<Rightarrow> fault + 'a" where
  "assert_or b k = (if b then k () else Inl AssertFailed)"

lemma assert_or_simps [simp]: "assert_or True k = k ()" "assert_or False k = Inl AssertFailed"
  by (simp_all add: assert_or_def)

definition s_tpset_send :: "server_test_lib \<Rightarrow> u32 \<Rightarrow> int \<Rightarrow> int \<Rightarrow> zmsg" where
  "s_tpset_send lib n tbeg tlen =
     tp_message lib \<lparr>ts_tstart = tbeg, ts_tspan = tlen, ts_detid = 0xdeadbeaf, ts_count = n\<rparr>"

definition s_tpset_recv :: "extern \<Rightarrow> server_test_lib \<Rightarrow> frame option \<Rightarrow> fault + tpset" where
  "s_tpset_recv x lib frame = (case Option.bind frame (tp_decode lib) of None \<Rightarrow> Inl AssertFailed
     | Some msg \<Rightarrow> let t = tpset_of x msg in assert_or (ts_detid t = 0xdeadbeaf) (\<lambda>_. Inr t))"

text \<open>A command on the pipe whose answer must be the given one.\<close>

definition pipe_command :: "extern \<Rightarrow> pipe_extern \<Rightarrow> zmsg \<Rightarrow> string option \<Rightarrow> server \<Rightarrow> fault + server" where
  "pipe_command x px msg answer s = bind_fault (s_server_handle_pipe x px msg s) (\<lambda>(rc, s, replies).
     assert_or (case answer of None \<Rightarrow> True | Some a \<Rightarrow> replies = [[bytes a]]) (\<lambda>_. Inr s))"

definition s_setup_server ::
  "extern \<Rightarrow> pipe_extern \<Rightarrow> server_test_lib \<Rightarrow> cstr \<Rightarrow> u64 \<Rightarrow> bool \<Rightarrow> server \<Rightarrow> fault + server" where
  "s_setup_server x px lib address dmask noisy s =
     bind_fault (if noisy then pipe_command x px [bytes ''VERBOSE''] None s else Inr s) (\<lambda>s.
     bind_fault (pipe_command x px [bytes ''BIND'', address] None s) (\<lambda>s.
     bind_fault (pipe_command x px [bytes ''INGEST'', tp_config lib] (Some ''INGEST OK'') s) (\<lambda>s.
     bind_fault (pipe_command x px [bytes ''DETMASK'', in_base 10 (unat dmask)] (Some ''DETMASK OK'') s) (\<lambda>s.
     pipe_command x px [bytes ''QUEUE'', in_base 10 2100, in_base 10 4100] (Some ''QUEUE OK'') s))))"

section \<open>The wire\<close>

text \<open>The sockets put the client's routing id in front of what it sends and take it off what the server
  sends it. In one turn of the server, it reads what the client has sent and its replies arrive.\<close>

fun strip_identity :: "bool \<Rightarrow> part list \<Rightarrow> part list" where
  "strip_identity first [] = []"
| "strip_identity first ((f, rcvmore) # ps) =
     (if first then strip_identity False ps else (f, rcvmore) # strip_identity (\<not> rcvmore) ps)"

type_synonym server_test_state = "tpq_codec \<times> zsock \<times> server"

definition replies_arrive :: "zsock \<Rightarrow> server \<Rightarrow> zsock \<times> server" where
  "replies_arrive client s =
     (client\<lparr>inbound := inbound client @ strip_identity True (outbound (router s))\<rparr>, s\<lparr>router := (router s)\<lparr>outbound := []\<rparr>\<rparr>)"

definition router_turn :: "extern \<Rightarrow> frame \<Rightarrow> zsock \<times> server \<Rightarrow> fault + zsock \<times> server" where
  "router_turn x rid = (\<lambda>(client, s).
     bind_fault (s_server_handle_protocol x (deliver (with_identity rid True (outbound client)) s)) (\<lambda>(rc, s).
       Inr (replies_arrive (client\<lparr>outbound := []\<rparr>) s)))"

primrec ingest_turns :: "extern \<Rightarrow> zmsg list list \<Rightarrow> zsock \<times> server \<Rightarrow> fault + zsock \<times> server" where
  "ingest_turns x [] st = Inr st"
| "ingest_turns x (msgs # batches) st = (case st of (client, s) \<Rightarrow>
     bind_fault (s_server_handle_ingest x msgs s) (\<lambda>s. ingest_turns x batches (replies_arrive client s)))"

section \<open>The test\<close>

definition test_detmask :: u64 where
  "test_detmask = 0xFFFFFFFFFFFFFFFF"

text \<open>The six sets that are sent first.\<close>

definition first_sets :: "server_test_lib \<Rightarrow> zmsg list" where
  "first_sets lib = [s_tpset_send lib 1 1000 100, s_tpset_send lib 2 2000 100, s_tpset_send lib 3 3000 100,
     s_tpset_send lib 4 4000 100, s_tpset_send lib 5 5000 100, s_tpset_send lib 6 6000 100]"

definition hello_part :: "extern \<Rightarrow> frame \<Rightarrow> server_test_state \<Rightarrow> fault + server_test_state" where
  "hello_part x rid = (\<lambda>(request, client, s).
     let request = tpq_codec_set_id request TPQ_CODEC_HELLO;
         request = tpq_codec_set_nickname request (bytes ''tpq_server_test'')
     in case tpq_codec_send request client of (rc, client) \<Rightarrow>
        assert_or (rc = 0) (\<lambda>_. bind_fault (router_turn x rid (client, s)) (\<lambda>(client, s).
          case tpq_codec_recv request client of (rc, request, client) \<Rightarrow>
            assert_or (rc = 0 \<and> tpq_codec_id request = TPQ_CODEC_COVERAGE \<and> tpq_codec_detmask request = test_detmask)
              (\<lambda>_. Inr (request, client, s)))))"

definition query_part :: "extern \<Rightarrow> frame \<Rightarrow> u32 \<Rightarrow> u64 \<Rightarrow> u64 \<Rightarrow> server_test_state \<Rightarrow> fault + server_test_state" where
  "query_part x rid n qb qs = (\<lambda>(request, client, s).
     let request = tpq_codec_set_id request TPQ_CODEC_QUERY;
         request = tpq_codec_set_seqno request n;
         request = tpq_codec_set_tstart request qb;
         request = tpq_codec_set_tspan request qs;
         request = tpq_codec_set_detmask request test_detmask
     in case tpq_codec_send request client of (rc, client) \<Rightarrow>
        assert_or (rc = 0) (\<lambda>_. bind_fault (router_turn x rid (client, s)) (\<lambda>(client, s). Inr (request, client, s))))"

text \<open>The checks of a result: its number, the number of frames, and the start of each set.\<close>

primrec check_starts :: "extern \<Rightarrow> server_test_lib \<Rightarrow> zmsg \<Rightarrow> int list \<Rightarrow> fault + unit" where
  "check_starts x lib msg [] = Inr ()"
| "check_starts x lib msg (b # bs) = bind_fault (s_tpset_recv x lib (case msg of [] \<Rightarrow> None | f # fs \<Rightarrow> Some f)) (\<lambda>t.
     assert_or (ts_tstart t = b) (\<lambda>_. check_starts x lib (tl msg) bs))"

definition check_result :: "extern \<Rightarrow> server_test_lib \<Rightarrow> u32 \<Rightarrow> int list \<Rightarrow> tpq_codec \<Rightarrow> fault + unit" where
  "check_result x lib n starts request =
     assert_or (tpq_codec_id request = TPQ_CODEC_RESULT \<and> tpq_codec_seqno request = n) (\<lambda>_.
       case tpq_codec_payload request of None \<Rightarrow> Inl AssertFailed
       | Some msg \<Rightarrow> assert_or (length msg = length starts) (\<lambda>_. check_starts x lib msg starts))"

definition partly_late_part :: "extern \<Rightarrow> server_test_lib \<Rightarrow> frame \<Rightarrow> zmsg list list \<Rightarrow> server_test_state \<Rightarrow> fault + server_test_state" where
  "partly_late_part x lib rid batches st =
     bind_fault (query_part x rid 1 0 5001 st) (\<lambda>(request, client, s).
     bind_fault (ingest_turns x batches (client, s)) (\<lambda>(client, s).
       case tpq_codec_recv request client of (rc, request, client) \<Rightarrow>
         bind_fault (check_result x lib 1 [4000, 5000] request) (\<lambda>_. Inr (request, client, s))))"

definition delayed_part :: "extern \<Rightarrow> server_test_lib \<Rightarrow> frame \<Rightarrow> server_test_state \<Rightarrow> fault + unit" where
  "delayed_part x lib rid st =
     bind_fault (query_part x rid 2 4000 3000 st) (\<lambda>(request, client, s).
       case tpq_codec_recv request client of (rc, request, client) \<Rightarrow>
         assert_or (rc = - 1) (\<lambda>_.
         bind_fault (ingest_turns x [[s_tpset_send lib 7 7000 100]] (client, s)) (\<lambda>(client, s).
         case tpq_codec_recv request client of (rc, request, client) \<Rightarrow>
           assert_or (rc = 0) (\<lambda>_. check_result x lib 2 [4000, 5000, 6000] request))))"

definition tpq_server_test ::
  "extern \<Rightarrow> pipe_extern \<Rightarrow> server_test_lib \<Rightarrow> cstr \<Rightarrow> u32 \<Rightarrow> frame \<Rightarrow> bool \<Rightarrow>
    zmsg list list \<Rightarrow> zmsg list list \<Rightarrow> zmsg list list \<Rightarrow> fault + unit" where
  "tpq_server_test x px lib address rnd rid noisy early mid late =
     bind_fault (s_setup_server x px lib address test_detmask noisy (s_server_new rnd)) (\<lambda>s.
     bind_fault (ingest_turns x early (\<lparr>sock_type = DEALER, inbound = [], outbound = []\<rparr>, s)) (\<lambda>(client, s).
     let request = tpq_codec_new;
         request = tpq_codec_set_payload request (Some []); request = tpq_codec_set_payload request (Some []);
         request = tpq_codec_set_payload request (Some []); request = tpq_codec_set_payload request (Some [])
     in bind_fault (hello_part x rid (request, client, s)) (\<lambda>(request, client, s).
        bind_fault (ingest_turns x mid (client, s)) (\<lambda>(client, s).
        bind_fault (partly_late_part x lib rid late (request, client, s)) (delayed_part x lib rid)))))"

end
