(* ===== verification/ServerSets.thy ===== *)
theory ServerSets
  imports ServerTest
begin

text \<open>
  The sets that the selftest of the server sends, and what a queue that holds the first of them
  answers: its bounds and the frames of a result.
\<close>

section \<open>The sets and the queue\<close>

text \<open>The documented behaviour the test relies on: a set is read back from its message, a message from
  its frame, the ingest endpoint can be made, and frames have different hex forms.\<close>

definition server_test_library :: "extern \<Rightarrow> server_test_lib \<Rightarrow> bool" where
  "server_test_library x lib \<longleftrightarrow>
     (\<forall>t. is_i64 (ts_tstart t) \<longrightarrow> is_i64 (ts_tspan t) \<longrightarrow> tpset_of x (tp_message lib t) = t) \<and>
     (\<forall>m. tp_decode lib (encode_msg x m) = Some m) \<and>
     endpoint_made x (cstring (tp_config lib)) \<and> inj (strhex x)"

definition nth_set :: "server_test_lib \<Rightarrow> nat \<Rightarrow> zmsg" where
  "nth_set lib i = s_tpset_send lib (of_nat (i + 1)) (1000 * (int i + 1)) 100"

lemma first_sets_nth: "first_sets lib = map (nth_set lib) [0..<6]"
proof -
  have "[0..<6] = [0, 1, 2, 3, 4, 5 :: nat]" by (simp add: upt_rec)
  then show ?thesis by (simp add: first_sets_def nth_set_def)
qed

definition in_set :: "nat \<Rightarrow> int \<Rightarrow> bool" where
  "in_set i t \<longleftrightarrow> 1000 * (int i + 1) \<le> t \<and> t < 1000 * (int i + 1) + 100"

lemma meets_set:
  "(\<exists>t. qb \<le> t \<and> t < qe \<and> in_set i t \<and> (purged \<longrightarrow> 4000 \<le> t)) \<longleftrightarrow>
     max qb (1000 * (int i + 1)) < min qe (1000 * (int i + 1) + 100) \<and> (purged \<longrightarrow> 3 \<le> i)" (is "?l \<longleftrightarrow> ?r")
proof
  assume ?r
  then have "qb \<le> max qb (1000 * (int i + 1)) \<and> max qb (1000 * (int i + 1)) < qe \<and> in_set i (max qb (1000 * (int i + 1))) \<and>
      (purged \<longrightarrow> 4000 \<le> max qb (1000 * (int i + 1)))" by (auto simp: in_set_def)
  then show ?l by blast
qed (auto simp: in_set_def)

lemma nth_payload:
  assumes "server_test_library x lib" "i < 10"
  shows "tpset_of x (nth_set lib i) = \<lparr>ts_tstart = 1000 * (int i + 1), ts_tspan = 100, ts_detid = 0xdeadbeaf, ts_count = of_nat (i + 1)\<rparr>"
    "pl_tstart (new_payload x (nth_set lib i)) = 1000 * (int i + 1)"
    "payload_end_ok (new_payload x (nth_set lib i))" "in_payload t (new_payload x (nth_set lib i)) \<longleftrightarrow> in_set i t"
    "own_detmask s = test_detmask \<Longrightarrow> accepted s (new_payload x (nth_set lib i))"
    "payload_encode x (new_payload x (nth_set lib i)) = encode_msg x (nth_set lib i)"
proof -
  show t: "tpset_of x (nth_set lib i) = \<lparr>ts_tstart = 1000 * (int i + 1), ts_tspan = 100, ts_detid = 0xdeadbeaf, ts_count = of_nat (i + 1)\<rparr>"
    using assms by (simp add: server_test_library_def nth_set_def s_tpset_send_def is_i64_def)
  have m: "(0xdeadbeaf AND test_detmask) = (0xdeadbeaf :: u64)" by (simp add: test_detmask_def)
  show "pl_tstart (new_payload x (nth_set lib i)) = 1000 * (int i + 1)"
    "payload_end_ok (new_payload x (nth_set lib i))" "in_payload t (new_payload x (nth_set lib i)) \<longleftrightarrow> in_set i t"
    "own_detmask s = test_detmask \<Longrightarrow> accepted s (new_payload x (nth_set lib i))"
    "payload_encode x (new_payload x (nth_set lib i)) = encode_msg x (nth_set lib i)"
    using assms(2) by (simp_all add: new_payload_def t payload_end_ok_def is_i64_def in_payload_def in_set_def accepted_def m
        payload_encode_def)
qed

text \<open>The queue holds the first \<open>n\<close> sets, without what was purged before 4000.\<close>

definition holds_sets :: "bool \<Rightarrow> nat \<Rightarrow> immap \<Rightarrow> bool" where
  "holds_sets purged n q \<longleftrightarrow> queue_inv q \<and>
     (\<forall>i t. i |\<in>| queue_at q t \<longleftrightarrow> i < n \<and> in_set i t \<and> (purged \<longrightarrow> 4000 \<le> t))"

lemma queue_bounds_attained:
  assumes "queue_inv q" "queue_at q t \<noteq> {||}"
  shows "queue_at q (lower_map q) \<noteq> {||} \<and> queue_at q (upper_map q - 1) \<noteq> {||}"
proof -
  have w: "wf_imap {||} q" "right_open_map q" using assms(1) by (simp_all add: queue_inv_def)
  have ne: "q \<noteq> []" using assms(2) store.at_empty by auto
  then have "sem {||} q (lower_map q) \<noteq> {||} \<and> sem {||} q (upper_map q - 1) \<noteq> {||}"
    using bounds_attained [OF w ne] by (auto simp: sem_den [OF w(1)])
  then show ?thesis by (simp add: queue_at_def)
qed

lemma queue_empty:
  assumes "queue_inv q" "\<And>t. queue_at q t = {||}"
  shows "q = []"
proof (rule ccontr)
  assume "q \<noteq> []"
  with bounds_attained(1) [of "{||}" q] assms(1) obtain v where "(lower_map q, v) \<in> den q" by (auto simp: queue_inv_def)
  then show False using assms sem_den [of "{||}" q] by (auto simp: queue_inv_def queue_at_def)
qed

lemma set_bounds:
  assumes h: "holds_sets purged n q" and n: "0 < n" "purged \<Longrightarrow> 4 \<le> n"
  shows "lower_map q = (if purged then 4000 else 1000)" "upper_map q = 1000 * int n + 100"
proof -
  have q: "queue_inv q" and at: "i |\<in>| queue_at q t \<longleftrightarrow> i < n \<and> in_set i t \<and> (purged \<longrightarrow> 4000 \<le> t)" for i t
    using h by (simp_all add: holds_sets_def)
  let ?l = "if purged then 4000 else 1000 :: int"
  have "(if purged then 3 else 0) |\<in>| queue_at q ?l"
    using n(1) n(2) by (cases purged) (auto simp: at in_set_def)
  then have l: "queue_at q ?l \<noteq> {||}" by auto
  have "n - 1 |\<in>| queue_at q (1000 * int n + 99)" using n by (auto simp: at in_set_def)
  then have u: "queue_at q (1000 * int n + 99) \<noteq> {||}" by auto
  obtain i j where "i |\<in>| queue_at q (lower_map q)" "j |\<in>| queue_at q (upper_map q - 1)"
    using queue_bounds_attained [OF q l] by (metis all_not_fin_conv)
  then have "?l \<le> lower_map q" "upper_map q \<le> 1000 * int n + 100" by (auto simp: at in_set_def)
  then show "lower_map q = ?l" "upper_map q = 1000 * int n + 100"
    using store.lo_up [OF q l] store.lo_up [OF q u] by simp_all
qed

lemma matching_sets:
  assumes l: "server_test_library x lib" and h: "holds_sets purged n (iq s)"
    and p: "payloads s = map (\<lambda>i. new_payload x (nth_set lib i)) [0..<n]" "n < 10"
    and k: "sorted_wrt (<) ks" "set ks = {i. i < n \<and> (\<exists>t. query_beg m \<le> t \<and> t < query_end m \<and> in_set i t \<and> (purged \<longrightarrow> 4000 \<le> t))}"
  shows "matching_frames x m s = map (\<lambda>i. encode_msg x (nth_set lib i)) ks"
proof -
  let ?u = "unique_payloads (immap_and (iq s) (right_open (query_beg m) (query_end m)))"
  have q: "queue_inv (iq s)" using h by (simp add: holds_sets_def)
  have "i |\<in>| ?u \<longleftrightarrow> i \<in> set ks" for i
    using store.members_view [OF q, of i "query_beg m" "query_end m"] h k(2) unfolding queue_view_def holds_sets_def by auto
  then have s: "set (sorted_list_of_fset ?u) = set ks" by auto
  have e: "sorted_list_of_fset ?u = ks"
    using s k(1) by (intro sorted_distinct_set_unique) (simp_all add: sorted_list_of_fset.rep_eq strict_sorted_iff)
  have nth: "map (\<lambda>i. payloads s ! i) ks = map (\<lambda>i. new_payload x (nth_set lib i)) ks"
    using k(2) by (intro map_cong) (auto simp: p(1))
  have "map pl_tstart (map (\<lambda>i. new_payload x (nth_set lib i)) ks) = map (\<lambda>i. 1000 * (int i + 1)) ks"
    using k(2) p(2) by (auto simp: nth_payload(2) [OF l])
  moreover have "sorted (map (\<lambda>i. 1000 * (int i + 1)) ks)" using k(1) by (simp add: sorted_wrt_map strict_sorted_iff)
  ultimately have "sorted (map pl_tstart (map (\<lambda>i. new_payload x (nth_set lib i)) ks))" by metis
  from sort_key_id_if_sorted [OF this]
  have "matching_frames x m s = map (payload_encode x) (map (\<lambda>i. new_payload x (nth_set lib i)) ks)"
    unfolding matching_frames_def ordered_payloads_def e nth by simp
  then show ?thesis using k(2) p(2) by (auto simp: nth_payload(6) [OF l])
qed

section \<open>The server when sets have arrived\<close>

definition arrived :: "extern \<Rightarrow> server_test_lib \<Rightarrow> nat \<Rightarrow> server \<Rightarrow> bool" where
  "arrived x lib n s \<longleftrightarrow> system_inv x s \<and> holds_sets (6 \<le> n) n (iq s) \<and>
     payloads s = map (\<lambda>i. new_payload x (nth_set lib i)) [0..<n] \<and>
     own_detmask s = test_detmask \<and> iq_lwm s = 2100 \<and> iq_hwm s = 4100"

text \<open>The part of the state that concerns the clients.\<close>

definition same_sessions :: "server \<Rightarrow> server \<Rightarrow> bool" where
  "same_sessions s s' \<longleftrightarrow> heap s' = heap s \<and> clients s' = clients s \<and> pending s' = pending s \<and> message s' = message s \<and>
     router s' = router s"

lemma slurp_sets:
  assumes l: "server_test_library x lib" and a: "arrived x lib n s" and n: "n \<le> 6" "n + j \<le> 7"
  shows "\<exists>s1. slurp x (map (nth_set lib) [n..<n + j]) s = Inr s1 \<and> holds_sets (6 \<le> n) (n + j) (iq s1) \<and>
    payloads s1 = map (\<lambda>i. new_payload x (nth_set lib i)) [0..<n + j]"
proof -
  let ?msgs = "map (nth_set lib) [n..<n + j]"
  have s: "own_detmask s = test_detmask" "payloads s = map (\<lambda>i. new_payload x (nth_set lib i)) [0..<n]"
    "holds_sets (6 \<le> n) n (iq s)" "queue_inv (iq s)"
    using a by (simp_all add: arrived_def holds_sets_def)
  have inc: "incoming x ?msgs s = map (\<lambda>i. new_payload x (nth_set lib i)) [n..<n + j]"
    using n(2) nth_payload(5) [OF l _ s(1)] by (simp add: incoming_def filter_id_conv)
  then have "\<forall>p\<in>set (incoming x ?msgs s). payload_end_ok p" using n(2) nth_payload(3) [OF l] by auto
  then obtain s1 where s1: "slurp x ?msgs s = Inr s1" using slurp_fails [of x ?msgs s] by blast
  note Q = slurp_queue [OF s1 s(4)]
  have p: "payloads s1 = map (\<lambda>i. new_payload x (nth_set lib i)) [0..<n + j]"
    using Q by (simp add: s(2) inc upt_add_eq_append [of 0 n j])
  have "in_payload t (payloads s1 ! i) = in_set i t" if "i < n + j" for i t
    using that n(2) nth_payload(4) [OF l, of i t] by (simp add: p)
  moreover have "length (payloads s) = n" "length (payloads s1) = n + j" by (simp_all add: s(2) p)
  ultimately have at: "i |\<in>| queue_at (iq s1) t \<longleftrightarrow> i |\<in>| queue_at (iq s) t \<or> (n \<le> i \<and> i < n + j \<and> in_set i t)" for i t
    using Q [THEN conjunct2, THEN conjunct2] by auto
  have "\<not> i < n \<Longrightarrow> 6 \<le> n \<Longrightarrow> in_set i t \<Longrightarrow> 4000 \<le> t" for i t by (simp add: in_set_def)
  then have "i |\<in>| queue_at (iq s1) t \<longleftrightarrow> i < n + j \<and> in_set i t \<and> (6 \<le> n \<longrightarrow> 4000 \<le> t)" for i t
    using s(3) unfolding at holds_sets_def by (cases "i < n") auto
  moreover have "queue_inv (iq s1)" using Q by blast
  ultimately have "holds_sets (6 \<le> n) (n + j) (iq s1)" by (simp only: holds_sets_def) blast
  then show ?thesis using s1 p by blast
qed

lemma nothing_due:
  assumes "\<forall>(k, rs)\<in>set q. e < k"
  shows "answer_due x e q s = Inr s" "tokill e q = {}"
  using assms by (cases q; cases "hd q"; simp add: tokill_def)+

lemma ingest_not_due:
  assumes sl: "slurp x msgs s = Inr s1" and d: "\<forall>(k, rs)\<in>set (pending s). upper_map (iq s1) < k"
    and sp: "is_i64 (upper_map (iq s1) - lower_map (iq s1))"
  shows "s_server_handle_ingest x msgs s = Inr (if of_i64 (upper_map (iq s1) - lower_map (iq s1)) > iq_hwm s
     then s1\<lparr>iq := queue_cut (iq s1) 0 (to_i64 (of_i64 (upper_map (iq s1)) - iq_lwm s))\<rparr> else s1)"
proof -
  note F = slurp_frame [OF sl]
  have "answer_due x (upper_map (iq s1)) (pending s1) s1 = Inr s1"
    "erase_dead (tokill (upper_map (iq s1)) (pending s1)) s1 = s1"
    using nothing_due [OF d] F by (simp_all add: erase_dead_def)
  then show ?thesis using sl F maybe_purge_run [OF sp] by (simp add: s_server_handle_ingest_def Let_def)
qed

lemma span_small: "0 \<le> k \<and> k \<le> 4100 \<Longrightarrow> \<not> 4100 < of_i64 k"
  by (simp add: of_i64_def word_less_def unsigned_of_int take_bit_int_eq_self)

text \<open>The bounds of a queue with up to six sets, and what the purge leaves of it: the sixth set makes it
  drop what is before 4000.\<close>

definition purged_queue :: "immap \<Rightarrow> immap" where
  "purged_queue q = (let l = lower_map q; u = upper_map q in
     if of_i64 (u - l) > 4100 then queue_cut q 0 (to_i64 (of_i64 u - 2100)) else q)"

lemma sets_span:
  assumes h: "holds_sets (6 \<le> n) (n + j) q" and n: "n + j \<le> 6"
  shows "is_i64 (upper_map q - lower_map q)"
    "if n + j = 0 then lower_map q = 1 \<and> upper_map q = 0
     else lower_map q = (if 6 \<le> n then 4000 else 1000) \<and> upper_map q = 1000 * int (n + j) + 100"
proof -
  have q: "queue_inv q" using h by (simp add: holds_sets_def)
  show b: "if n + j = 0 then lower_map q = 1 \<and> upper_map q = 0
      else lower_map q = (if 6 \<le> n then 4000 else 1000) \<and> upper_map q = 1000 * int (n + j) + 100"
  proof (cases "n + j = 0")
    case True
    then have "queue_at q t = {||}" for t using h by (auto simp: holds_sets_def)
    then show ?thesis using True bounds_empty queue_empty [OF q] by simp
  next
    case False
    then show ?thesis using set_bounds [OF h] by simp
  qed
  show "is_i64 (upper_map q - lower_map q)" using b n by (auto simp: is_i64_def split: if_splits)
qed

lemma sets_purged:
  assumes h: "holds_sets (6 \<le> n) (n + j) q" and n: "n + j \<le> 6"
  shows "holds_sets (6 \<le> n + j) (n + j) (purged_queue q)"
proof -
  let ?N = "n + j" and ?l = "lower_map q" and ?u = "upper_map q"
  have q: "queue_inv q" using h by (simp add: holds_sets_def)
  note b = sets_span(2) [OF h n]
  show ?thesis
  proof (cases "of_i64 (?u - ?l) > (4100 :: u64)")
    case False
    have "\<not> (n < 6 \<and> ?N = 6)"
    proof
      assume "n < 6 \<and> ?N = 6"
      then show False using False b by (simp add: of_i64_def)
    qed
    then have "(6 \<le> ?N) = (6 \<le> n)" using n by auto
    then show ?thesis using h False by (simp add: purged_queue_def Let_def)
  next
    case True
    have "?N = 0 \<or> n < 6 \<and> ?N = 6"
    proof (rule ccontr)
      assume c: "\<not> (?N = 0 \<or> n < 6 \<and> ?N = 6)"
      then have "0 \<le> ?u - ?l \<and> ?u - ?l \<le> 4100" using b n by (cases "6 \<le> n") (auto split: if_splits)
      then show False using True span_small by simp
    qed
    then show ?thesis
    proof
      assume z: "?N = 0"
      have "to_i64 (of_i64 0 - 2100) = - 2100" by (simp add: to_i64_def of_i64_def)
      then have "purged_queue q = queue_cut q 0 (- 2100)" using True b z by (simp add: purged_queue_def Let_def)
      then show ?thesis using h z q store.inv_cut [OF q] store.at_cut [OF q] by (auto simp: holds_sets_def)
    next
      assume z: "n < 6 \<and> ?N = 6"
      have "to_i64 (of_i64 6100 - 2100) = 4000" by (simp add: to_i64_def of_i64_def)
      then have e: "purged_queue q = queue_cut q 0 4000" using True b z by (simp add: purged_queue_def Let_def)
      have "in_set i t \<Longrightarrow> 0 \<le> t" for i t by (simp add: in_set_def)
      then show ?thesis using h z q store.inv_cut [OF q] store.at_cut [OF q]
        unfolding e holds_sets_def by (auto simp: not_less)
    qed
  qed
qed

text \<open>One call of the handler: the sixth set makes it purge what is before 4000.\<close>

lemma ingest_sets:
  assumes l: "server_test_library x lib" and a: "arrived x lib n s" and n: "n + j \<le> 6"
    and d: "\<forall>(k, rs)\<in>set (pending s). 1000 * int (n + j) + 100 < k"
  shows "\<exists>s'. s_server_handle_ingest x (map (nth_set lib) [n..<n + j]) s = Inr s' \<and> arrived x lib (n + j) s' \<and> same_sessions s s'"
proof -
  let ?N = "n + j" and ?msgs = "map (nth_set lib) [n..<n + j]"
  have s: "system_inv x s" "own_detmask s = test_detmask" "iq_lwm s = 2100" "iq_hwm s = 4100"
    using a by (simp_all add: arrived_def)
  obtain s1 where s1: "slurp x ?msgs s = Inr s1" and h: "holds_sets (6 \<le> n) ?N (iq s1)"
    and p: "payloads s1 = map (\<lambda>i. new_payload x (nth_set lib i)) [0..<?N]"
    using slurp_sets [OF l a, of j] n by auto
  let ?l = "lower_map (iq s1)" and ?u = "upper_map (iq s1)"
  have sp: "is_i64 (?u - ?l)" using sets_span [OF h n] by simp
  have "?u \<le> 1000 * int ?N + 100" using sets_span [OF h n] by (simp split: if_splits)
  then have "\<forall>(k, rs)\<in>set (pending s). ?u < k" using d by fastforce
  note R = ingest_not_due [OF s1 this sp]
  define s' where "s' = (if of_i64 (?u - ?l) > iq_hwm s then s1\<lparr>iq := queue_cut (iq s1) 0 (to_i64 (of_i64 ?u - iq_lwm s))\<rparr> else s1)"
  have run: "s_server_handle_ingest x ?msgs s = Inr s'" using R by (simp add: s'_def)
  have "iq s' = purged_queue (iq s1)" by (simp add: s'_def purged_queue_def Let_def s(3,4))
  then have "holds_sets (6 \<le> ?N) ?N (iq s')" using sets_purged [OF h n] by simp
  moreover have "system_inv x s'" by (rule ingest_system_inv [OF s(1) run])
  ultimately show ?thesis
    using run p slurp_frame [OF s1] s by (intro exI [of _ s']) (simp add: arrived_def same_sessions_def s'_def)
qed

text \<open>Several calls, whatever the batches in which the sets are read.\<close>

lemma same_sessions_trans: "same_sessions s t \<Longrightarrow> same_sessions t u \<Longrightarrow> same_sessions s u"
  by (simp add: same_sessions_def)

lemma no_replies_arrive: "outbound (router s) = [] \<Longrightarrow> replies_arrive client s = (client, s)"
  by (simp add: replies_arrive_def)

lemma split_batches:
  assumes "b @ concat bs = map (nth_set lib) [n..<N]" "n \<le> N"
  shows "n + length b \<le> N" "b = map (nth_set lib) [n..<n + length b]" "concat bs = map (nth_set lib) [n + length b..<N]"
proof -
  have len: "length b + length (concat bs) = N - n" using arg_cong [OF assms(1), of length] by simp
  then show "n + length b \<le> N" using assms(2) by simp
  then have "[n..<N] = [n..<n + length b] @ [n + length b..<N]"
    using upt_add_eq_append [of n "n + length b" "N - (n + length b)"] by simp
  then show "b = map (nth_set lib) [n..<n + length b]" "concat bs = map (nth_set lib) [n + length b..<N]"
    using assms(1) append_eq_append_conv [of b "map (nth_set lib) [n..<n + length b]"] by simp_all
qed

lemma ingest_turns_sets:
  assumes l: "server_test_library x lib" and "arrived x lib n s" "concat batches = map (nth_set lib) [n..<N]" "n \<le> N" "N \<le> 6"
    and "\<forall>(k, rs)\<in>set (pending s). 1000 * int N + 100 < k" "outbound (router s) = []"
  shows "\<exists>s'. ingest_turns x batches (client, s) = Inr (client, s') \<and> arrived x lib N s' \<and> same_sessions s s'"
  using assms(2-)
proof (induction batches arbitrary: n s)
  case Nil
  then have "N = n" by auto
  then show ?case using Nil by (auto simp: same_sessions_def)
next
  case (Cons b bs)
  have b: "n + length b \<le> N" "b = map (nth_set lib) [n..<n + length b]" "concat bs = map (nth_set lib) [n + length b..<N]"
    using split_batches [of b bs lib n N] Cons.prems(2,3) by simp_all
  have "\<forall>(k, rs)\<in>set (pending s). 1000 * int (n + length b) + 100 < k"
    using Cons.prems(5) b(1) by (auto split: prod.splits)
  moreover have "n + length b \<le> 6" using b(1) Cons.prems(4) by simp
  ultimately obtain s1 where s1:
    "s_server_handle_ingest x b s = Inr s1" "arrived x lib (n + length b) s1" "same_sessions s s1"
    using ingest_sets [OF l Cons.prems(1)] b(2) by metis
  have "outbound (router s1) = []" "\<forall>(k, rs)\<in>set (pending s1). 1000 * int N + 100 < k" "n + length b \<le> N"
    using s1(3) Cons.prems(5,6) b(1) by (simp_all add: same_sessions_def)
  then obtain s' where "ingest_turns x bs (client, s1) = Inr (client, s')" "arrived x lib N s'" "same_sessions s1 s'"
    using Cons.IH [OF s1(2) b(3)] Cons.prems(4) by blast
  then show ?case using s1 same_sessions_trans \<open>outbound (router s1) = []\<close> by (auto simp: no_replies_arrive)
qed

end
