(* ===== verification/ClientProps.thy ===== *)
theory ClientProps
  imports ClientSession ServerProps
begin

text \<open>
  The properties of the client and of a client and a server together, and the concrete states the
  witnesses use: a new client, and one that is connected and has sent nothing since.
\<close>

section \<open>Concrete states\<close>

definition sample_client_c :: "tpq_codec \<Rightarrow> state_c \<Rightarrow> client" where
  "sample_client_c m st = s_client_new_c\<lparr>c_message := m, c_state := st, c_args := no_args\<lparr>arg_nickname := Some [97, 98],
     arg_timeout := 500, arg_tspan := 9\<rparr>\<rparr>"

lemma sample_client_ok:
  assumes "codec_ok m"
  shows "client_ok (sample_client_c m st)" "active (sample_client_c m st)"
  using assms by (simp_all add: client_ok_def active_def sample_client_c_def s_client_new_c_def idle_def)

section \<open>The state machine\<close>

text \<open>C4: executing an event on a running client ends in what the contract gives for the client's state
  and the event: the message sent to the server, the replies to the caller, the next state, the
  connection flag, the expiry time and the retries; and it faults exactly where the contract does.\<close>

theorem client_machine_contract:
  assumes "client_ok c" "active c" "e \<noteq> NULL_c"
  shows "meets c (contract f c e) (s_client_execute_c f e c)"
  using assms by (rule engine_meets_contract)

lemma client_machine_contract_witness:
  "\<exists>c'. s_client_execute_c (\<lambda>e. False) error_c (sample_client_c (tpq_codec_new\<lparr>status := 500\<rparr>) connected_c) = Inr c' \<and>
     c_fsm_stopped c' \<and> c_cmdpipe c' = []"
proof -
  let ?c = "sample_client_c (tpq_codec_new\<lparr>status := 500\<rparr>) connected_c"
  have k: "codec_ok (tpq_codec_new\<lparr>status := 500\<rparr>)" by (simp add: codec_ok_new)
  from client_machine_contract [OF sample_client_ok [OF k], of error_c connected_c "\<lambda>e. False"]
  have "meets ?c (contract (\<lambda>e. False) ?c error_c) (s_client_execute_c (\<lambda>e. False) error_c ?c)" by simp
  moreover have "contract (\<lambda>e. False) ?c error_c = Inr ((unchanged ?c)\<lparr>o_state := have_error_c, o_stopped := True\<rparr>)"
    by (simp add: contract_def contract_rest_def sample_client_c_def s_client_new_c_def)
  ultimately show ?thesis
    by (auto simp: meets_def in_outcome_def unchanged_def) (auto simp: sample_client_c_def s_client_new_c_def)
qed



section \<open>A client that has stopped\<close>

definition silent :: "client \<Rightarrow> client \<Rightarrow> bool" where
  "silent c d \<longleftrightarrow> c_fsm_stopped d \<and> c_state d = c_state c \<and> outbound (c_dealer d) = outbound (c_dealer c) \<and>
     (\<exists>rs. c_cmdpipe d = c_cmdpipe c @ rs \<and> (\<forall>r\<in>set rs. reply_name r \<notin> {''CONNECTED'', ''RESULT'', ''FAILURE''}))"

lemma silent_refl: "c_fsm_stopped c \<Longrightarrow> silent c c"
  by (simp add: silent_def)

lemma silent_trans: "silent c d \<Longrightarrow> silent d e \<Longrightarrow> silent c e"
  by (auto simp: silent_def)

lemma silent_flags:
  assumes "c_fsm_stopped c" "c_fsm_stopped d" "c_state d = c_state c" "outbound (c_dealer d) = outbound (c_dealer c)"
    "c_cmdpipe d = c_cmdpipe c"
  shows "silent c d"
  using assms by (simp add: silent_def)

lemma silent_execute:
  assumes "c_fsm_stopped c" "s_client_execute_c f e c = Inr d"
  shows "silent c d"
  using assms execute_idle [of c e f] by (auto simp: active_def intro!: silent_flags)

lemma silent_iteration:
  assumes "c_fsm_stopped c" "protocol_iteration_c f c = Inr (d, go)"
  shows "silent c d"
proof -
  obtain rc m sk where v: "tpq_codec_recv (c_message c) (c_dealer c) = (rc, m, sk)" by (metis prod_cases3)
  let ?c1 = "c\<lparr>c_message := m, c_dealer := sk\<rparr>"
  have s1: "silent c (?c1\<lparr>c_expiry_timer := b, c_terminated := t\<rparr>)" "silent c ?c1" for b t
    using assms(1) recv_outbound [OF v] by (auto intro!: silent_flags)
  show ?thesis
  proof (cases "rc = 0")
    case True
    obtain e c3 where e: "s_protocol_event_c (?c1\<lparr>c_expiry_timer := (c_expiry c \<noteq> 0)\<rparr>) = (e, c3)" by fastforce
    have c3: "c3 = ?c1\<lparr>c_expiry_timer := (c_expiry c \<noteq> 0), c_terminated := c_terminated c3\<rparr>"
      using outer_events [OF e] by simp
    have s3: "silent c c3" by (subst c3) (rule s1)
    moreover have "s_client_execute_c f e c3 = Inr d"
      using assms(2) True e by (auto simp: protocol_iteration_c_def v Let_def bind_fault_Inr_iff)
    ultimately show ?thesis using silent_execute silent_trans by (meson silent_def)
  qed (use assms(2) s1(2) in \<open>simp add: protocol_iteration_c_def v Let_def\<close>)
qed

lemma silent_protocol:
  "s_client_handle_protocol_c f c = Inr (rc, d) \<Longrightarrow> c_fsm_stopped c \<Longrightarrow> silent c d"
proof (induction f c arbitrary: rc d rule: s_client_handle_protocol_c.induct)
  case (1 f c)
  show ?case
  proof (cases "inbound (c_dealer c) = []")
    case False
    then obtain t go where t: "protocol_iteration_c f c = Inr (t, go)"
      "(if go then s_client_handle_protocol_c f t else Inr (- 1, t)) = Inr (rc, d)"
      using "1.prems"(1) by (subst (asm) s_client_handle_protocol_c.simps) (auto elim!: bind_fault_InrE)
    have s: "silent c t" by (rule silent_iteration [OF "1.prems"(2) t(1)])
    show ?thesis
    proof (cases go)
      case True
      have "silent t d" using "1.IH" [OF False t(1) refl True, of rc d] t(2) True s by (simp add: silent_def)
      then show ?thesis by (rule silent_trans [OF s])
    qed (use t(2) s in simp)
  qed (use "1.prems" in \<open>simp add: s_client_handle_protocol_c.simps silent_refl\<close>)
qed

lemma silent_cmdpipe:
  assumes "c_fsm_stopped c" "s_client_handle_cmdpipe f cmd c = Inr (rc, d)"
  shows "silent c d"
proof -
  have x: "silent c d" if "s_client_execute_c f e (c\<lparr>c_args := q\<rparr>) = Inr d" for e q
    using silent_execute [OF _ that] assms(1) by (simp add: silent_def)
  show ?thesis
    using assms x by (cases cmd) (auto simp: s_client_handle_cmdpipe_def bind_fault_Inr_iff silent_def)
qed

lemma silent_msgpipe: "c_fsm_stopped c \<Longrightarrow> silent c (snd (s_client_handle_msgpipe meths c))"
proof (induction meths arbitrary: c)
  case (Cons meth meths)
  let ?d = "if meth = ''$FLUSH'' then c\<lparr>c_cmdpipe := c_cmdpipe c @ [Signal 0]\<rparr> else c"
  have "silent c ?d" using Cons.prems by (simp add: silent_def)
  moreover have "silent ?d (snd (s_client_handle_msgpipe meths ?d))" using Cons by simp
  ultimately have "silent c (snd (s_client_handle_msgpipe meths ?d))" by (rule silent_trans)
  then show ?case by simp
qed (simp add: silent_refl)



section \<open>A server that does not answer\<close>

text \<open>C25: a client that hears nothing pings the server at its first two expiries and gives up at the
  third: the connection flag is cleared and the timer is off. The state does not change and
  the caller is not told.\<close>

theorem three_expiries_disconnect:
  assumes "client_ok c" "active c" "c_state c \<in> {expect_coverage_c, connected_c, reconnecting_c}"
    "c_retries c = 0" "0 < c_expiry c"
  shows "\<exists>c1 c2 c3. s_client_handle_expiry f c = Inr (0, c1) \<and> sent_by (Some Ping) c c1 \<and>
    s_client_handle_expiry f c1 = Inr (0, c2) \<and> sent_by (Some Ping) c1 c2 \<and>
    s_client_handle_expiry f c2 = Inr (0, c3) \<and> sent_by None c2 c3 \<and>
    c_state c3 = c_state c \<and> c_cmdpipe c3 = c_cmdpipe c \<and> \<not> c_connected c3 \<and> \<not> c_expiry_timer c3 \<and>
    c_connected c2 = c_connected c \<and> c_expiry_timer c2"
proof -
  have ping: "\<exists>d. s_client_handle_expiry f c = Inr (0, d) \<and> client_ok d \<and> active d \<and> sent_by (Some Ping) c d \<and>
      c_state d = c_state c \<and> c_cmdpipe d = c_cmdpipe c \<and> c_connected d = c_connected c \<and>
      c_retries d = c_retries c + 1 \<and> c_expiry d = c_expiry c \<and> c_expiry_timer d"
    if q: "client_ok c" "active c" "c_state c \<in> {expect_coverage_c, connected_c, reconnecting_c}"
      "c_retries c < 2" "0 < c_expiry c" for c
  proof -
    have "contract f c expired_c = Inr ((unchanged c)\<lparr>o_sent := Some Ping, o_retries := c_retries c + 1\<rparr>)"
      using q by (auto simp: contract_def contract_rest_def)
    then obtain d where d: "s_client_execute_c f expired_c c = Inr d"
      "in_outcome c ((unchanged c)\<lparr>o_sent := Some Ping, o_retries := c_retries c + 1\<rparr>) d"
      using engine_meets_contract [OF q(1,2), of expired_c f] by (auto simp: meets_def)
    let ?d = "d\<lparr>c_expiry_timer := True\<rparr>"
    have "s_client_handle_expiry f c = Inr (0, ?d)"
      using d q(5) by (simp add: s_client_handle_expiry_def in_outcome_def unchanged_def)
    moreover have "client_ok ?d" using execute_ok [OF d(1) q(1)] by (simp add: client_ok_def)
    ultimately show ?thesis using d(2)
      by (intro exI [of _ ?d]) (simp add: in_outcome_def unchanged_def active_def sent_by_def)
  qed
  obtain c1 where c1: "s_client_handle_expiry f c = Inr (0, c1)" "client_ok c1" "active c1" "sent_by (Some Ping) c c1"
    "c_state c1 = c_state c" "c_cmdpipe c1 = c_cmdpipe c" "c_connected c1 = c_connected c"
    "c_retries c1 = 1" "c_expiry c1 = c_expiry c"
    using ping [OF assms(1-3) _ assms(5)] assms(4) by auto
  obtain c2 where c2: "s_client_handle_expiry f c1 = Inr (0, c2)" "client_ok c2" "active c2" "sent_by (Some Ping) c1 c2"
    "c_state c2 = c_state c" "c_cmdpipe c2 = c_cmdpipe c" "c_connected c2 = c_connected c"
    "c_retries c2 = 2" "c_expiry c2 = c_expiry c" "c_expiry_timer c2"
    using ping [of c1] c1 assms(3,5) by auto
  have o: "contract f c2 expired_c = Inr ((unchanged c2)\<lparr>o_connected := False, o_expiry := 0, o_retries := 3\<rparr>)"
    using assms(3) c2(5,8) by (auto simp: contract_def contract_rest_def)
  have t: "\<exists>c3. s_client_execute_c f expired_c c2 = Inr c3 \<and> \<not> c_expiry_timer c3"
    using c2(3,5,8) assms(3)
    by (auto simp: execute_two_passes pass_simps active_def)
  then obtain c3 where c3: "s_client_execute_c f expired_c c2 = Inr c3" "\<not> c_expiry_timer c3"
    "in_outcome c2 ((unchanged c2)\<lparr>o_connected := False, o_expiry := 0, o_retries := 3\<rparr>) c3"
    using engine_meets_contract [OF c2(2,3), of expired_c f] o by (auto simp: meets_def)
  have "s_client_handle_expiry f c2 = Inr (0, c3)"
    using c3 by (simp add: s_client_handle_expiry_def in_outcome_def unchanged_def)
  then show ?thesis using c1(1,4) c2 c3(2,3)
    by (intro exI [of _ c1] exI [of _ c2] exI [of _ c3]) (simp add: in_outcome_def unchanged_def)
qed

lemma three_expiries_disconnect_witness:
  "\<exists>c1. s_client_handle_expiry (\<lambda>e. False) ((sample_client_c tpq_codec_new connected_c)\<lparr>c_expiry := 1000\<rparr>) = Inr (0, c1)"
proof -
  let ?c = "(sample_client_c tpq_codec_new connected_c)\<lparr>c_expiry := 1000\<rparr>"
  have "client_ok ?c" "active ?c"
    using sample_client_ok [OF codec_ok_new, of connected_c] by (simp_all add: client_ok_def active_def)
  from three_expiries_disconnect [OF this, of "\<lambda>e. False"]
  show ?thesis by (auto simp: sample_client_c_def s_client_new_c_def)
qed

section \<open>A result that is cut short\<close>

text \<open>C24: a RESULT frame of a valid signature that ends before its fields is accepted, and aborts a
  connected client that has not received a result before: the assertion that the message has
  a payload fails.\<close>

theorem truncated_result_aborts:
  assumes "client_ok c" "active c" "c_state c = connected_c" "payload (c_message c) = None"
    "inbound (c_dealer c) = ([0xAA, 0xA0, 4] @ rest, more_parts) # ps" "length rest < 6"
  shows "s_client_handle_protocol_c f c = Inl AssertFailed"
proof -
  have k: "\<exists>m. tpq_codec_recv (c_message c) (c_dealer c) = (0, m, (c_dealer c)\<lparr>inbound := ps\<rparr>) \<and> codec_ok m \<and>
      codec_id m = TPQ_CODEC_RESULT \<and> payload m = None"
  proof -
    let ?m = "(c_message c)\<lparr>codec_id := TPQ_CODEC_RESULT\<rparr>"
    have r: "\<exists>m. recv_result (?m, rest) = Inl m \<and> codec_id m = TPQ_CODEC_RESULT \<and> payload m = None"
    proof (cases "get_number4 rest")
      case None
      then show ?thesis using assms(4) by (simp add: recv_result_def get_field_def)
    next
      case (Some p)
      obtain n q where p: "p = (n, q)" by fastforce
      then have "get_number2 q = None"
        using Some get_number4_length [of rest n q] assms(6) by (simp add: get_number2_None)
      then show ?thesis using Some p assms(4) by (simp add: recv_result_def get_field_def)
    qed
    then obtain m where m: "recv_result (?m, rest) = Inl m" "codec_id m = TPQ_CODEC_RESULT" "payload m = None" by blast
    have "get_number2 ([0xAA, 0xA0, 4] @ rest) = Some (0xAAA0, 4 # rest)"
      by (simp add: push_bit_eq_mult)
    then have "tpq_codec_recv (c_message c) (c_dealer c) = (0, m, (c_dealer c)\<lparr>inbound := ps\<rparr>)"
      using assms(1,5) m(1)
      by (simp add: tpq_codec_recv_def recv_frame_def recv_part_def recv_body_def client_ok_def codec_ids)
    moreover have "codec_ok m" using recv_codec_ok [of "c_message c" "c_dealer c"] calculation assms(1)
      by (simp add: client_ok_def)
    ultimately show ?thesis using m by blast
  qed
  then obtain m where m: "tpq_codec_recv (c_message c) (c_dealer c) = (0, m, (c_dealer c)\<lparr>inbound := ps\<rparr>)"
    "codec_ok m" "codec_id m = TPQ_CODEC_RESULT" "payload m = None" by blast
  let ?d = "c\<lparr>c_message := m, c_dealer := (c_dealer c)\<lparr>inbound := ps\<rparr>, c_expiry_timer := (c_expiry c \<noteq> 0)\<rparr>"
  have "client_ok ?d" "active ?d" using assms(1,2) m(2) by (simp_all add: client_ok_def active_def)
  from engine_meets_contract [OF this, of result_c f]
  have "s_client_execute_c f result_c ?d = Inl AssertFailed"
    using assms(3) m(4) by (simp add: meets_def contract_def)
  moreover have "s_protocol_event_c ?d = (result_c, ?d)" using m(3) by (simp add: s_protocol_event_c_def codec_ids)
  ultimately show ?thesis using assms(5) m(1)
    by (subst s_client_handle_protocol_c.simps) (simp add: protocol_iteration_c_def Let_def)
qed

lemma truncated_result_aborts_witness:
  "s_client_handle_protocol_c (\<lambda>e. False) (arrive [([0xAA, 0xA0, 4], False)] (sample_client_c tpq_codec_new connected_c)) =
     Inl AssertFailed"
proof -
  let ?c = "arrive [([0xAA, 0xA0, 4], False)] (sample_client_c tpq_codec_new connected_c)"
  have k: "client_ok ?c" "active ?c"
    using sample_client_ok [OF codec_ok_new, of connected_c] by (simp_all add: client_ok_def active_def arrive_def)
  have "c_state ?c = connected_c" "payload (c_message ?c) = None"
    "inbound (c_dealer ?c) = ([0xAA, 0xA0, 4] @ [], False) # []"
    by (simp_all add: arrive_def sample_client_c_def s_client_new_c_def idle_def tpq_codec_new_def)
  from truncated_result_aborts [OF k this] show ?thesis by simp
qed

end
