(* ===== verification/SessionProps.thy ===== *)
theory SessionProps
  imports ClientProps ServerWaiting
begin

text \<open>
  The properties of a client and a server together: the two calls of the class interface, followed
  through the client actor, over the wire, through the server's router handler, and back. The
  client and the server are in any states their reactors can reach.
\<close>

section \<open>Saying hello\<close>

lemma hello_run:
  assumes "client_reachable f (0, c)" "active c" "c_state c = start_c" "inbound (c_dealer c) = []"
    "\<not> f (Some (cstring endpoint))"
    "server_reachable x px s" "inj (strhex x)" "inbound (router s) = []" "clients s (strhex x rid) = None"
  shows "\<exists>c1 c2 ps s1. s_client_handle_cmdpipe f (tpq_client_say_hello nick endpoint) c = Inr (0, c1) \<and>
    outbound (c_dealer c1) = outbound (c_dealer c) @ ps \<and>
    s_server_handle_protocol x (deliver ((rid, True) # ps) s) = Inr (0, s1) \<and>
    s_client_handle_protocol_c f (arrive (reply_parts s s1) c1) = Inr (0, c2) \<and>
    c_state c2 = connected_c \<and> c_connected c2 \<and> active c2 \<and> c_seqno c2 = c_seqno c \<and>
    inbound (c_dealer c2) = [] \<and> sender_state x rid s1 = connected_state \<and> inbound (router s1) = [] \<and>
    c_cmdpipe c2 = c_cmdpipe c @ [Connected 0 (own_detmask s)] \<and>
    say_hello_returns [Connected 0 (own_detmask s)] a = Some (0, [], a\<lparr>a_status := 0, a_detmask := own_detmask s\<rparr>)"
proof -
  let ?c = "c\<lparr>c_args := (c_args c)\<lparr>arg_nickname := Some (cstring nick), arg_endpoint := Some (cstring endpoint)\<rparr>\<rparr>"
  have ok: "client_ok ?c" "active ?c" "inbound (c_dealer ?c) = []" "say_hello_c \<noteq> NULL_c"
    using client_reachable_inv [OF assms(1)] assms(2,4) by (simp_all add: client_inv_c_def client_ok_def active_def)
  have si: "server_inv x s" using reachable_inv [OF assms(6)] by (simp add: system_inv_def)
  let ?r = "hello_outcome (take 255 (cstring (cstring nick))) expect_coverage_c ?c"
  have r: "contract f ?c say_hello_c = Inr ?r" "o_sent ?r = Some (Hello (take 255 (cstring (cstring nick))))" "\<not> o_stopped ?r"
    using assms(3,5) by (simp_all add: contract_def hello_outcome_def unchanged_def)
  obtain c1 ps m1 s1 where e: "s_client_execute_c f say_hello_c ?c = Inr c1" "in_outcome ?c ?r c1"
    and c1: "client_ok c1" "active c1" "inbound (c_dealer c1) = []"
    and ps: "outbound (c_dealer c1) = outbound (c_dealer ?c) @ ps"
    and s1: "s_server_handle_protocol x (deliver ((rid, True) # ps) s) = Inr (0, s1)" "inbound (router s1) = []"
    and m1: "message_of m1 = Some (Hello (take 255 (cstring (cstring nick))))"
    and t: "sent_to rid (fst (reaction x (s\<lparr>message := m1\<rparr>) (sender_state x rid s) (s_protocol_event m1))) s s1"
    and st: "case snd (reaction x (s\<lparr>message := m1\<rparr>) (sender_state x rid s) (s_protocol_event m1)) of
       None \<Rightarrow> clients s1 (strhex x rid) = None | Some st \<Rightarrow> sender_state x rid s1 = st"
    using request_sent [OF ok r si assms(7,8), of rid] by blast
  have re: "reaction x (s\<lparr>message := m1\<rparr>) (sender_state x rid s) (s_protocol_event m1) =
      (Some (Coverage (own_detmask s)), Some connected_state)"
    using message_of_id [OF m1] assms(9)
    by (simp add: reaction_def sender_state_def s_protocol_event_def codec_ids Let_def)
  obtain m2 where m2: "message_of m2 = Some (Coverage (own_detmask s))"
    and run: "\<And>q. contract f (holding m2 c1) coverage_c = Inr q \<Longrightarrow>
      \<exists>c'. s_client_handle_protocol_c f (arrive (reply_parts s s1) c1) = Inr (0, c') \<and> in_outcome (holding m2 c1) q c'"
    using reply_received [OF c1, of "Coverage (own_detmask s)" rid s s1 f] t re by auto
  have "detmask m2 = own_detmask s" using m2 by (auto simp: message_of_def split: if_splits)
  moreover have "c_state c1 = expect_coverage_c" using e(2) by (simp add: in_outcome_def hello_outcome_def)
  ultimately have "contract f (holding m2 c1) coverage_c =
      Inr ((alive_outcome connected_c (holding m2 c1))\<lparr>o_cmd := [Connected 0 (own_detmask s)]\<rparr>)"
    by (simp add: contract_def holding_def)
  from run [OF this] obtain c2 where c2: "s_client_handle_protocol_c f (arrive (reply_parts s s1) c1) = Inr (0, c2)"
    "c_state c2 = connected_c" "c_connected c2" "c_cmdpipe c2 = c_cmdpipe c1 @ [Connected 0 (own_detmask s)]"
    "active c2" "c_seqno c2 = c_seqno c1" "inbound (c_dealer c2) = []"
    by (auto simp: in_outcome_def alive_outcome_def holding_def unchanged_def active_def)
  have "s_client_handle_cmdpipe f (tpq_client_say_hello nick endpoint) c = Inr (0, c1)"
    "c_cmdpipe c1 = c_cmdpipe c" "c_seqno c1 = c_seqno c"
    using e by (simp_all add: s_client_handle_cmdpipe_def tpq_client_say_hello_def in_outcome_def hello_outcome_def unchanged_def)
  then show ?thesis using c2 ps s1 st re say_hello_returns_connected
    by (intro exI [of _ c1] exI [of _ c2] exI [of _ ps] exI [of _ s1]) simp
qed

text \<open>C7: saying hello to a server that does not know the client: the client connects, the server answers
  with its detector mask, both sides are then in their connected states, and the call returns
  0 and stores the mask.\<close>

theorem hello_session:
  assumes "client_reachable f (0, c)" "active c" "c_state c = start_c" "inbound (c_dealer c) = []"
    "\<not> f (Some (cstring endpoint))"
    "server_reachable x px s" "inj (strhex x)" "inbound (router s) = []" "clients s (strhex x rid) = None"
  shows "\<exists>c1 c2 ps s1. s_client_handle_cmdpipe f (tpq_client_say_hello nick endpoint) c = Inr (0, c1) \<and>
    outbound (c_dealer c1) = outbound (c_dealer c) @ ps \<and>
    s_server_handle_protocol x (deliver ((rid, True) # ps) s) = Inr (0, s1) \<and>
    s_client_handle_protocol_c f (arrive (reply_parts s s1) c1) = Inr (0, c2) \<and>
    c_state c2 = connected_c \<and> c_connected c2 \<and> active c2 \<and> c_seqno c2 = c_seqno c \<and>
    inbound (c_dealer c2) = [] \<and> sender_state x rid s1 = connected_state \<and> inbound (router s1) = [] \<and>
    c_cmdpipe c2 = c_cmdpipe c @ [Connected 0 (own_detmask s)] \<and>
    say_hello_returns [Connected 0 (own_detmask s)] a = Some (0, [], a\<lparr>a_status := 0, a_detmask := own_detmask s\<rparr>)"
  using hello_run [OF assms] .

lemma hello_session_witness:
  "\<exists>c1. s_client_handle_cmdpipe (\<lambda>e. False) (tpq_client_say_hello [97, 0] [105, 0]) s_client_new_c = Inr (0, c1)"
proof -
  have c: "active s_client_new_c" "c_state s_client_new_c = start_c" "inbound (c_dealer s_client_new_c) = []"
    by (simp_all add: active_def s_client_new_c_def idle_def)
  have s: "inbound (router (s_server_new 17)) = []" "clients (s_server_new 17) (strhex sample_extern [9]) = None"
    by (simp_all add: s_server_new_def s_server_config_global_def Let_def idle_def server_initialize_def)
  have f: "\<not> (\<lambda>e. False) (Some (cstring [105, 0]))" by simp
  show ?thesis
    using hello_session [OF client_reachable.created c f 
        server_reachable.created [of sample_extern sample_pipe_extern] sample_inj s, where nick = "[97, 0]"]
    by blast
qed

section \<open>Asking for payloads\<close>

fun result_status :: "verdict \<Rightarrow> u16" where
  "result_status Satisfied = 200"
| "result_status Partial = 206"
| "result_status _ = 404"

definition result_frames :: "extern \<Rightarrow> tpq_codec \<Rightarrow> server \<Rightarrow> frame list" where
  "result_frames x m s = (if verdict m s = Late then [] else matching_frames x m s)"

lemma query_reaction:
  assumes "message_of m = Some (Query n qb qs qm qt)"
  shows "reaction x (s\<lparr>message := m\<rparr>) connected_state (s_protocol_event m) =
    ((case verdict m s of Waiting \<Rightarrow> None | Bogus \<Rightarrow> Some (Error 500 (cstring (reason m)))
      | v \<Rightarrow> Some (Result n (result_status v) (result_frames x m s))), Some connected_state)"
proof -
  have f: "seqno m = n" using assms by (auto simp: message_of_def split: if_splits)
  have v: "verdict m (s\<lparr>message := m\<rparr>) = verdict m s" by (simp add: verdict_def)
  have "s_protocol_event m = query_event" using message_of_id [OF assms] by (simp add: s_protocol_event_def codec_ids)
  then show ?thesis
    by (cases "verdict m s") (simp_all add: reaction_def verdict_reaction_def Let_def v f result_frames_def matching_frames_def)
qed

text \<open>What a connected client makes of a result and of a refusal.\<close>

lemma result_received:
  assumes c: "client_ok c" "active c" "inbound (c_dealer c) = []" "c_state c = connected_c"
    and s: "sent_to rid (Some (Result n st fs)) s s'" "a_status a < 2 ^ 16"
  shows "\<exists>c' r a'. s_client_handle_protocol_c f (arrive (reply_parts s s') c) = Inr (0, c') \<and> c_state c' = connected_c \<and>
    c_cmdpipe c' = c_cmdpipe c @ [r] \<and> query_returns [r] a = Some (uint st, [], a') \<and>
    a_seqno a' = n \<and> a_payload a' = Some fs"
proof -
  obtain m where m: "message_of m = Some (Result n st fs)" "payload m = Some fs"
    and run: "\<And>q. contract f (holding m c) result_c = Inr q \<Longrightarrow>
      \<exists>c'. s_client_handle_protocol_c f (arrive (reply_parts s s') c) = Inr (0, c') \<and> in_outcome (holding m c) q c'"
    using reply_received [OF c(1-3) _ s(1), of f] by auto
  have "seqno m = n" "status m = st" using m by (auto simp: message_of_def split: if_splits)
  then have "contract f (holding m c) result_c = Inr ((unchanged (holding m c))\<lparr>o_cmd := [ResultReply n st fs]\<rparr>)"
    using m(2) c(4) by (simp add: contract_def holding_def)
  from run [OF this] obtain c' where c': "s_client_handle_protocol_c f (arrive (reply_parts s s') c) = Inr (0, c')"
    "c_state c' = connected_c" "c_cmdpipe c' = c_cmdpipe c @ [ResultReply n st fs]"
    using c(4) by (auto simp: in_outcome_def unchanged_def holding_def)
  then show ?thesis
    by (intro exI [of _ c'] exI [of _ "ResultReply n st fs"]) (simp add: query_returns_result [OF s(2)])
qed

lemma refusal_received:
  assumes c: "client_ok c" "active c" "inbound (c_dealer c) = []" "c_state c = connected_c"
    and s: "sent_to rid (Some (Error 500 t)) s s'" "length t \<le> 255"
  shows "\<exists>c'. s_client_handle_protocol_c f (arrive (reply_parts s s') c) = Inr (0, c') \<and> c_fsm_stopped c' \<and>
    c_cmdpipe c' = c_cmdpipe c"
proof -
  obtain m where m: "message_of m = Some (Error 500 t)"
    and run: "\<And>q. contract f (holding m c) error_c = Inr q \<Longrightarrow>
      \<exists>c'. s_client_handle_protocol_c f (arrive (reply_parts s s') c) = Inr (0, c') \<and> in_outcome (holding m c) q c'"
    using reply_received [OF c(1-3) _ s(1), of f] s(2) by auto
  have "status m = 500" using m by (auto simp: message_of_def split: if_splits)
  then have "contract f (holding m c) error_c = Inr ((unchanged (holding m c))\<lparr>o_state := have_error_c, o_stopped := True\<rparr>)"
    using c(4) by (simp add: contract_def contract_rest_def holding_def)
  from run [OF this] show ?thesis by (auto simp: in_outcome_def unchanged_def holding_def)
qed

text \<open>A query leaves a connected client.\<close>

definition asked :: "u64 \<Rightarrow> u64 \<Rightarrow> u64 \<Rightarrow> u32 \<Rightarrow> client \<Rightarrow> client" where
  "asked qb qs qm qt c =
     c\<lparr>c_args := (c_args c)\<lparr>arg_tstart := qb, arg_tspan := qs, arg_detmask := qm, arg_timeout := qt\<rparr>\<rparr>"

lemma query_contract:
  assumes "client_reachable f (0, c)" "active c" "c_state c = connected_c" "inbound (c_dealer c) = []"
    "c_seqno c + 1 < 2 ^ 31" "n = word_of_int (c_seqno c + 1)"
  shows "client_ok (asked qb qs qm qt c)" "active (asked qb qs qm qt c)" "inbound (c_dealer (asked qb qs qm qt c)) = []"
    "contract f (asked qb qs qm qt c) query_c =
      Inr ((unchanged (asked qb qs qm qt c))\<lparr>o_sent := Some (Query n qb qs qm qt), o_seqno := c_seqno c + 1\<rparr>)"
    "\<not> o_stopped ((unchanged (asked qb qs qm qt c))\<lparr>o_sent := Some (Query n qb qs qm qt), o_seqno := c_seqno c + 1\<rparr>)"
  using client_reachable_inv [OF assms(1)] assms(2-6)
  by (simp_all add: client_inv_c_def client_ok_def active_def contract_def unchanged_def asked_def)

lemma query_asked:
  assumes "s_client_execute_c f query_c (asked qb qs qm qt c) = Inr c1" "c_state c = connected_c"
    "in_outcome (asked qb qs qm qt c) ((unchanged (asked qb qs qm qt c))\<lparr>o_sent := q, o_seqno := n\<rparr>) c1"
  shows "s_client_handle_cmdpipe f (tpq_client_query qb qs qm qt) c = Inr (0, c1)" "c_state c1 = connected_c"
    "c_cmdpipe c1 = c_cmdpipe c"
  using assms by (simp_all add: in_outcome_def unchanged_def s_client_handle_cmdpipe_def tpq_client_query_def asked_def)

text \<open>C3: a query of a connected client to a server that has it as connected. The server receives
  exactly the arguments of the call. When it has the data, in full or in part, or when the query
  is late, the call returns 200, 206 or 404, with the sequence number of the query and the encoded
  payloads of the interval. When the query ends after the server's data there is no reply yet.
  When the server refuses the query, the client's state machine stops without a reply.\<close>

theorem query_session:
  assumes "client_reachable f (0, c)" "active c" "c_state c = connected_c" "inbound (c_dealer c) = []"
    "c_seqno c + 1 < 2 ^ 31" "n = word_of_int (c_seqno c + 1)"
    "server_reachable x px s" "inj (strhex x)" "inbound (router s) = []" "sender_state x rid s = connected_state"
    "a_status a < 2 ^ 16"
  shows "\<exists>c1 ps s1 m. s_client_handle_cmdpipe f (tpq_client_query qb qs qm qt) c = Inr (0, c1) \<and>
    outbound (c_dealer c1) = outbound (c_dealer c) @ ps \<and> c_cmdpipe c1 = c_cmdpipe c \<and>
    s_server_handle_protocol x (deliver ((rid, True) # ps) s) = Inr (0, s1) \<and>
    message_of m = Some (Query n qb qs qm qt) \<and>
    (if verdict m s = Waiting then outbound (router s1) = outbound (router s)
     else \<exists>c2. s_client_handle_protocol_c f (arrive (reply_parts s s1) c1) = Inr (0, c2) \<and>
       (if verdict m s = Bogus then c_fsm_stopped c2 \<and> c_cmdpipe c2 = c_cmdpipe c1
        else c_state c2 = connected_c \<and>
          (\<exists>r a'. c_cmdpipe c2 = c_cmdpipe c1 @ [r] \<and>
            query_returns [r] a = Some (uint (result_status (verdict m s)), [], a') \<and>
            a_seqno a' = n \<and> a_payload a' = Some (result_frames x m s))))"
proof -
  note Q = query_contract [OF assms(1-6), of qb qs qm qt]
  have si: "server_inv x s" using reachable_inv [OF assms(7)] by (simp add: system_inv_def)
  obtain c1 ps m s1 where e: "s_client_execute_c f query_c (asked qb qs qm qt c) = Inr c1"
      "in_outcome (asked qb qs qm qt c) ((unchanged (asked qb qs qm qt c))\<lparr>o_sent := Some (Query n qb qs qm qt), o_seqno := c_seqno c + 1\<rparr>) c1"
    and c1: "client_ok c1" "active c1" "inbound (c_dealer c1) = []"
    and ps: "outbound (c_dealer c1) = outbound (c_dealer c) @ ps"
    and s1: "s_server_handle_protocol x (deliver ((rid, True) # ps) s) = Inr (0, s1)"
    and m: "codec_ok m" "message_of m = Some (Query n qb qs qm qt)"
    and t: "sent_to rid (fst (reaction x (s\<lparr>message := m\<rparr>) (sender_state x rid s) (s_protocol_event m))) s s1"
    using request_sent [OF Q(1-3) _ Q(4) _ Q(5) si assms(8,9), where rid = rid] by (auto simp: asked_def)
  note A = query_asked [OF e(1) assms(3) e(2)] and re = query_reaction [OF m(2), of x s]
  have l: "length (cstring (reason m)) \<le> 255" using m(1) strlen_bound by (simp add: codec_ok_def strlen_def)
  have waits: "outbound (router s1) = outbound (router s)" if "verdict m s = Waiting"
    using t that by (simp add: assms(10) re sent_to_def)
  have refused: "\<exists>c2. s_client_handle_protocol_c f (arrive (reply_parts s s1) c1) = Inr (0, c2) \<and>
      c_fsm_stopped c2 \<and> c_cmdpipe c2 = c_cmdpipe c1" if "verdict m s = Bogus"
    using refusal_received [OF c1 A(2) _ l] t that by (simp add: assms(10) re)
  have "sent_to rid (Some (Result n (result_status (verdict m s)) (result_frames x m s))) s s1"
    if "verdict m s \<noteq> Waiting" "verdict m s \<noteq> Bogus" using t that by (cases "verdict m s") (simp_all add: assms(10) re)
  note result = result_received [OF c1 A(2) this assms(11), of f]
  show ?thesis
    using A ps s1 m(2) waits refused result
    by (intro exI [of _ c1] exI [of _ ps] exI [of _ s1] exI [of _ m]) (auto split: if_splits)
qed

text \<open>The witnesses run the hello session first.\<close>

lemma sample_connected:
  "\<exists>c s. client_reachable (\<lambda>e. False) (0, c) \<and> active c \<and> c_state c = connected_c \<and> inbound (c_dealer c) = [] \<and>
     c_seqno c = 0 \<and> server_reachable sample_extern sample_pipe_extern s \<and> inbound (router s) = [] \<and>
     sender_state sample_extern [9] s = connected_state"
proof -
  let ?f = "\<lambda>e :: frame option. False"
  have c: "active s_client_new_c" "c_state s_client_new_c = start_c" "inbound (c_dealer s_client_new_c) = []"
    "c_seqno s_client_new_c = 0"
    by (simp_all add: active_def s_client_new_c_def idle_def)
  have s: "inbound (router (s_server_new 17)) = []" "clients (s_server_new 17) (strhex sample_extern [9]) = None"
    by (simp_all add: s_server_new_def s_server_config_global_def Let_def idle_def server_initialize_def)
  have f: "\<not> ?f (Some (cstring [105, 0]))" by simp
  obtain c1 c2 ps s1 where e: "s_client_handle_cmdpipe ?f (tpq_client_say_hello [97, 0] [105, 0]) s_client_new_c = Inr (0, c1)"
    "s_server_handle_protocol sample_extern (deliver (([9], True) # ps) (s_server_new 17)) = Inr (0, s1)"
    "s_client_handle_protocol_c ?f (arrive (reply_parts (s_server_new 17) s1) c1) = Inr (0, c2)"
    "c_state c2 = connected_c" "active c2" "c_seqno c2 = c_seqno s_client_new_c" "inbound (c_dealer c2) = []"
    "sender_state sample_extern [9] s1 = connected_state" "inbound (router s1) = []"
    using hello_run [OF client_reachable.created c(1-3) f server_reachable.created [of sample_extern sample_pipe_extern]
        sample_inj s, where nick = "[97, 0]" and a = tpq_client_new]
    by blast
  have "client_reachable ?f (0, c2)"
    using client_reachable.stepped [OF client_reachable.stepped [OF client_reachable.created client_step.command [OF e(1)]]
        client_step.dealer_input [OF e(3)]] .
  moreover have "server_reachable sample_extern sample_pipe_extern s1"
    by (rule server_reachable.stepped [OF server_reachable.created router_input [OF e(2)]])
  ultimately show ?thesis using e c(4) by auto
qed

lemma query_session_witness:
  "\<exists>c c1. client_reachable (\<lambda>e. False) (0, c) \<and> s_client_handle_cmdpipe (\<lambda>e. False) (tpq_client_query 0 9 1 500) c = Inr (0, c1)"
proof -
  obtain c s where c: "client_reachable (\<lambda>e. False) (0, c)" "active c" "c_state c = connected_c" "inbound (c_dealer c) = []"
    "c_seqno c = 0" and s: "server_reachable sample_extern sample_pipe_extern s" "inbound (router s) = []"
    "sender_state sample_extern [9] s = connected_state"
    using sample_connected by blast
  from query_session [OF c(1-4) _ refl s(1) sample_inj s(2,3), of tpq_client_new 0 9 1 500] c(1,5)
  show ?thesis by (auto simp: tpq_client_new_def)
qed

section \<open>A query that must wait\<close>

text \<open>The fields of a query that the server decides by.\<close>

definition query_codec :: "u64 \<Rightarrow> u64 \<Rightarrow> u64 \<Rightarrow> tpq_codec" where
  "query_codec qb qs qm = tpq_codec_new\<lparr>tstart := qb, tspan := qs, detmask := qm\<rparr>"

lemma query_codec_same:
  assumes "message_of k = Some (Query n qb qs qm qt)"
  shows "verdict k s = verdict (query_codec qb qs qm) s" "seqno k = n" "query_end k = to_i64 (qb + qs)"
    "matching_frames x k s = matching_frames x (query_codec qb qs qm) s"
proof -
  have "tstart k = qb" "tspan k = qs" "detmask k = qm" "seqno k = n"
    using assms by (auto simp: message_of_def split: if_splits)
  then show "verdict k s = verdict (query_codec qb qs qm) s" "seqno k = n" "query_end k = to_i64 (qb + qs)"
    "matching_frames x k s = matching_frames x (query_codec qb qs qm) s"
    by (simp_all add: verdict_def matching_frames_def query_beg_def query_end_def query_codec_def)
qed

text \<open>C8: a query that ends after the server's data is answered by the ingest handler when the data
  has arrived. No reply leaves the server before; the messages ingested next make the queue reach
  the end of the query and the end of no other pending request; then the one reply goes to the
  client, the request is forgotten, and the call returns 200 with the query's sequence number and
  the encoded payloads that the queue, before it is purged, holds in the interval asked for.\<close>

theorem delayed_query_session:
  assumes "client_reachable f (0, c)" "active c" "c_state c = connected_c" "inbound (c_dealer c) = []"
    "c_seqno c + 1 < 2 ^ 31" "n = word_of_int (c_seqno c + 1)"
    "system_inv x s" "inj (strhex x)" "inbound (router s) = []" "sender_state x rid s = connected_state"
    "verdict (query_codec qb qs qm) s = Waiting"
    "slurp x msgs s = Inr t" "to_i64 (qb + qs) \<le> upper_map (iq t)" "\<forall>(k, rs)\<in>set (pending s). upper_map (iq t) < k"
    "is_i64 (upper_map (iq t) - lower_map (iq t))" "a_status a < 2 ^ 16"
  shows "\<exists>c1 ps s1 s2 c2 r a'. s_client_handle_cmdpipe f (tpq_client_query qb qs qm qt) c = Inr (0, c1) \<and>
    outbound (c_dealer c1) = outbound (c_dealer c) @ ps \<and>
    s_server_handle_protocol x (deliver ((rid, True) # ps) s) = Inr (0, s1) \<and>
    outbound (router s1) = outbound (router s) \<and>
    s_server_handle_ingest x msgs s1 = Inr s2 \<and> pending s2 = pending s \<and>
    s_client_handle_protocol_c f (arrive (reply_parts s1 s2) c1) = Inr (0, c2) \<and> c_state c2 = connected_c \<and>
    c_cmdpipe c2 = c_cmdpipe c @ [r] \<and> query_returns [r] a = Some (200, [], a') \<and>
    a_seqno a' = n \<and> a_payload a' = Some (matching_frames x (query_codec qb qs qm) t)"
proof -
  note Q = query_contract [OF assms(1-6), of qb qs qm qt]
  have si: "server_inv x s" "pending_inv s" "queue_inv (iq s)" using assms(7) by (simp_all add: system_inv_def)
  obtain c1 k where e: "s_client_execute_c f query_c (asked qb qs qm qt c) = Inr c1"
      "in_outcome (asked qb qs qm qt c) ((unchanged (asked qb qs qm qt c))\<lparr>o_sent := Some (Query n qb qs qm qt), o_seqno := c_seqno c + 1\<rparr>) c1"
    and c1: "client_ok c1" "active c1" "inbound (c_dealer c1) = []"
    and k: "message_of k = Some (Query n qb qs qm qt)" "codec_ok k" "outbound (c_dealer c1) = outbound (c_dealer c) @ message_parts k"
    using request_leaves [OF Q(1-3) _ Q(4) _ Q(5)] by (auto simp: asked_def)
  note A = query_asked [OF e(1) assms(3) e(2)]
  have "verdict k s = Waiting" using assms(11) query_codec_same(1) [OF k(1)] by simp
  from waiting_stored [OF si(1,2) assms(8,9) k(1,2) assms(10) this]
  obtain s1 p where s1: "s_server_handle_protocol x (deliver ((rid, True) # message_parts k) s) = Inr (0, s1)"
      "server_inv x s1" "pending_inv s1" "outbound (router s1) = outbound (router s)"
    and m: "message_of (message s1) = Some (Query n qb qs qm qt)"
    and r: "rid_of s1 p = rid" "request_alive s1 (waiting_request p (message s1))"
      "pending s1 = push_request (query_end (message s1)) (waiting_request p (message s1)) (pending s)"
    and q: "iq s1 = iq s" "payloads s1 = payloads s" "own_detmask s1 = own_detmask s"
    by blast
  obtain t1 where t1: "slurp x msgs s1 = Inr t1" "iq t1 = iq t" "payloads t1 = payloads t"
    using slurp_same_queue [OF assms(12) q] by blast
  note M = query_codec_same [OF m]
  have "queue_inv (iq s1)" using si(3) q by simp
  from waiting_answered [OF s1(2) this s1(3) r(3,2) t1(1)]
  obtain s2 where s2: "s_server_handle_ingest x msgs s1 = Inr s2" "pending s2 = pending s"
    "sent_to rid (Some (Result n 200 (matching_frames x (message s1) t1))) s1 s2"
    using assms(13-15) r(1) M(2,3) by (auto simp: t1(2) waiting_request_def)
  have "matching_frames x (message s1) t1 = matching_frames x (query_codec qb qs qm) t"
    using M(4) [of x t1] t1(2,3) by (simp add: matching_frames_def)
  with result_received [OF c1 A(2) s2(3) assms(16), of f]
  obtain c2 r a' where "s_client_handle_protocol_c f (arrive (reply_parts s1 s2) c1) = Inr (0, c2)" "c_state c2 = connected_c"
    "c_cmdpipe c2 = c_cmdpipe c @ [r]" "query_returns [r] a = Some (200, [], a')" "a_seqno a' = n"
    "a_payload a' = Some (matching_frames x (query_codec qb qs qm) t)"
    using A(3) by auto
  then show ?thesis using A(1) s1(1,4) s2(1,2) k(3) by blast
qed

lemma sample_system_inv:
  assumes "codec_ok m"
  shows "system_inv sample_extern (sample_server m [] (one_client connected_state))" (is "system_inv _ ?s")
proof -
  have "stored_ok ?s"
    by (auto simp: stored_ok_def queue_at_def sem_def lookup_map_def contains_elem_iff sample_server_def sample_iq_def
        sample_payloads_def in_payload_def new_payload_def sample_extern_def sample_tpset_def nth_Cons split: nat.splits if_splits)
  moreover have "pending_inv ?s"
    by (simp add: pending_inv_def pending_sorted_def requests_def request_alive_def sample_server_def one_client_def
        sample_request_def sample_client_def)
  ultimately show ?thesis using sample_server_inv [OF assms] sample_iq_inv by (simp add: system_inv_def)
qed

lemma delayed_query_session_witness:
  "\<exists>c (c2 :: client) r a'. client_reachable (\<lambda>e. False) (0, c) \<and> c_cmdpipe c2 = c_cmdpipe c @ [r] \<and>
     query_returns [r] tpq_client_new = Some (200, [], a') \<and> a_seqno a' = 1"
proof -
  let ?s = "sample_server sample_query [] (one_client connected_state)"
  obtain c where c: "client_reachable (\<lambda>e. False) (0, c)" "active c" "c_state c = connected_c" "inbound (c_dealer c) = []"
    "c_seqno c = 0" using sample_connected by blast
  have s: "system_inv sample_extern ?s" "inbound (router ?s) = []" "sender_state sample_extern [9] ?s = connected_state"
    using sample_system_inv [OF sample_codecs(1)]
    by (simp_all add: sample_server_def idle_def sender_state_def sample_extern_def one_client_def sample_client_def)
  have v: "verdict (query_codec 10 5 1) ?s = Waiting" by code_simp
  have p: "accepted ?s (new_payload sample_extern [[13, 4, 1, 1]])" "payload_end_ok (new_payload sample_extern [[13, 4, 1, 1]])"
    by (simp_all add: accepted_def payload_end_ok_def is_i64_def sample_server_def new_payload_def sample_extern_def sample_tpset_def)
  have u: "upper_map (queue_put sample_iq 13 17 {|Suc (Suc 0)|}) = 17" "lower_map (queue_put sample_iq 13 17 {|Suc (Suc 0)|}) = 0"
    by code_simp+
  obtain t where t: "slurp sample_extern [[[13, 4, 1, 1]]] ?s = Inr t" "upper_map (iq t) = 17" "lower_map (iq t) = 0"
    using p u by (simp add: slurp_one_run Let_def new_payload_def sample_extern_def sample_tpset_def)
      (simp add: sample_server_def sample_payloads_def)
  have q: "c_seqno c + 1 < 2 ^ 31" using c(5) by simp
  have e: "to_i64 (10 + 5) \<le> upper_map (iq t)" by (simp add: to_i64_def t(2))
  have k: "\<forall>(k, rs)\<in>set (pending ?s). upper_map (iq t) < k" by (simp add: sample_server_def t(2))
  have i: "is_i64 (upper_map (iq t) - lower_map (iq t))" by (simp add: is_i64_def t(2,3))
  have a: "a_status tpq_client_new < 2 ^ 16" by (simp add: tpq_client_new_def)
  obtain c2 :: client and r a' where "c_cmdpipe c2 = c_cmdpipe c @ [r]" "query_returns [r] tpq_client_new = Some (200, [], a')"
    "a_seqno a' = word_of_int (c_seqno c + 1)"
    using delayed_query_session [OF c(1-4) q refl s(1) sample_inj s(2,3) v t(1) e k i a, of 500] by blast
  then show ?thesis using c(1,5) by (metis add_0 word_of_int_1)
qed

end
