(* ===== verification/ServerTestProps.thy ===== *)
theory ServerTestProps
  imports ServerSets SessionProps
begin

text \<open>
  The selftest of the server passes exactly when the server has read all six sets before the first
  query reaches it.
\<close>

section \<open>Setting up\<close>

lemma pipe_names:
  "\<forall>m\<in>set [''VERBOSE'', ''$TERM'', ''PORT'', ''LOAD'', ''CONFIGURE'', ''SET'', ''SAVE'', ''INGEST'', ''DETMASK'', ''QUEUE''].
     bytes ''BIND'' \<noteq> bytes m"
  "\<forall>m\<in>set [''VERBOSE'', ''$TERM'', ''BIND'', ''PORT'', ''LOAD'', ''CONFIGURE'', ''SET'', ''SAVE''].
     bytes ''INGEST'' \<noteq> bytes m"
  "cstring (bytes ''VERBOSE'') = bytes ''VERBOSE''" "cstring (bytes ''BIND'') = bytes ''BIND''"
  "cstring (bytes ''INGEST'') = bytes ''INGEST''"
  by code_simp+

lemma setup_runs:
  assumes l: "server_test_library x lib"
  shows "\<exists>s. s_setup_server x px lib address test_detmask noisy (s_server_new rnd) = Inr s \<and> arrived x lib 0 s \<and>
    same_sessions (s_server_new rnd) s \<and> ingest s"
proof -
  let ?s = "s_server_new rnd" and ?v = "\<lambda>s. if noisy then s\<lparr>verbose := True\<rparr> else s"
  let ?b = "\<lambda>s. (?v s)\<lparr>port := bind_socket px (Some (cstring address))\<rparr>"
  let ?t = "(?b ?s)\<lparr>ingest := True, own_detmask := test_detmask, iq_lwm := 2100, iq_hwm := 4100\<rparr>"
  have v: "(if noisy then pipe_command x px [bytes ''VERBOSE''] None s else Inr s) = Inr (?v s)" for s
    by (simp add: pipe_command_def s_server_handle_pipe_def zmsg_popstr_def pipe_names)
  have b: "pipe_command x px [bytes ''BIND'', address] None s = Inr (s\<lparr>port := bind_socket px (Some (cstring address))\<rparr>)" for s
    using pipe_names(1) by (simp add: pipe_command_def s_server_handle_pipe_def zmsg_popstr_def pipe_names)
  have i: "pipe_command x px [bytes ''INGEST'', tp_config lib] (Some ''INGEST OK'') s = Inr (s\<lparr>ingest := True\<rparr>)" for s
    using pipe_names(2) l
    by (simp add: pipe_command_def s_server_handle_pipe_def server_method_def zmsg_popstr_def pipe_names server_test_library_def)
  have d: "pipe_command x px [bytes ''DETMASK'', in_base 10 (unat test_detmask)] (Some ''DETMASK OK'') s =
      Inr (s\<lparr>own_detmask := test_detmask\<rparr>)" for s
    using handle_pipe_numbers [of "unat test_detmask" 0 x px s] by (simp add: pipe_command_def test_detmask_def)
  have q: "pipe_command x px [bytes ''QUEUE'', in_base 10 2100, in_base 10 4100] (Some ''QUEUE OK'') s =
      Inr (s\<lparr>iq_lwm := 2100, iq_hwm := 4100\<rparr>)" for s
    using handle_pipe_numbers [of 2100 4100 x px s] by (simp add: pipe_command_def)
  have run: "s_setup_server x px lib address test_detmask noisy ?s = Inr ?t"
    unfolding s_setup_server_def v b i d q bind_fault.simps by simp
  have "same_clients ?s ?t" by (simp add: same_clients_def)
  then have "system_inv x ?t" by (rule same_clients_system [OF new_inv])
  moreover have "iq ?t = []" "payloads ?t = []" by (simp_all add: s_server_new_def server_initialize_def s_server_config_global_def)
  ultimately have "arrived x lib 0 ?t"
    using store.inv_empty store.at_empty by (simp add: arrived_def holds_sets_def)
  then show ?thesis using run by (intro exI [of _ ?t]) (simp add: same_sessions_def)
qed

section \<open>The wire\<close>

definition dealer :: "part list \<Rightarrow> part list \<Rightarrow> zsock" where
  "dealer inp out = \<lparr>sock_type = DEALER, inbound = inp, outbound = out\<rparr>"

lemma dealer_simps [simp]:
  "sock_type (dealer inp out) = DEALER" "inbound (dealer inp out) = inp" "outbound (dealer inp out) = out"
  "(dealer inp out)\<lparr>inbound := inp'\<rparr> = dealer inp' out" "(dealer inp out)\<lparr>outbound := out'\<rparr> = dealer inp out'"
  by (simp_all add: dealer_def)

lemma dealer_sends: "tpq_codec_send k (dealer inp []) = (0, dealer inp (message_parts k))"
proof -
  let ?sk = "snd (tpq_codec_send k (dealer inp []))"
  have "?sk = dealer inp (message_parts k)"
    using send_outbound [of k "dealer inp []"] send_socket [of k "dealer inp []"] send_inbound [of k "dealer inp []"]
    by (intro zsock.equality) simp_all
  moreover have "fst (tpq_codec_send k (dealer inp [])) = 0" by (simp add: tpq_codec_send_def Let_def)
  ultimately show ?thesis by (metis prod.collapse)
qed

lemma router_turn_run:
  assumes "s_server_handle_protocol x (deliver ((rid, True) # message_parts k) s) = Inr (rc, s1)"
  shows "router_turn x rid (dealer inp (message_parts k), s) = Inr (replies_arrive (dealer inp []) s1)"
  using assms with_identity_message [of rid k "[]"] by (simp add: router_turn_def)

lemma strip_message: "strip_identity True ((rid, True) # message_parts k @ ps) = message_parts k @ strip_identity True ps"
proof -
  have "strip_identity False (mark_parts (f # fs) @ ps) = mark_parts (f # fs) @ strip_identity True ps" for f fs
    by (induction fs arbitrary: f) simp_all
  then show ?thesis by (simp only: message_parts_def strip_identity.simps if_True)
qed

definition sent_all :: "server \<Rightarrow> server" where
  "sent_all s = s\<lparr>router := (router s)\<lparr>outbound := []\<rparr>\<rparr>"

lemma nothing_arrives: "outbound (router s) = [] \<Longrightarrow> replies_arrive client s = (client, sent_all s)"
  by (simp add: replies_arrive_def sent_all_def)

text \<open>A reply arrives and is received, with more to follow or not.\<close>

lemma reply_arrives:
  assumes s: "sent_to rid (Some r) s s1" "outbound (router s) = []" and r: "\<forall>t. r \<noteq> Hello t" "\<forall>st t. r \<noteq> Error st t"
  shows "\<exists>k. replies_arrive (dealer [] []) s1 = (dealer (message_parts k) [], sent_all s1) \<and> message_of k = Some r \<and> codec_ok k"
proof -
  obtain k where k: "message_of k = Some r" "outbound (router s1) = (rid, True) # message_parts k @ []"
    using s by (auto simp: sent_to_def)
  have p: "codec_ok (proper k) \<and> message_of (proper k) = Some r \<and> message_parts (proper k) = message_parts k"
    by (rule proper_sender [OF k(1)]) (use r in simp_all)
  have "strip_identity True (outbound (router s1)) = message_parts k" unfolding k(2) strip_message by simp
  then show ?thesis using p by (intro exI [of _ "proper k"]) (simp add: replies_arrive_def sent_all_def)
qed

lemma dealer_receives:
  assumes "message_of k = Some r" "codec_ok k" "codec_ok request"
  shows "\<exists>q. tpq_codec_recv request (dealer (message_parts k @ ps) []) = (0, q, dealer ps []) \<and> codec_ok q \<and>
    message_of q = Some r \<and> (\<forall>n st pl. r = Result n st pl \<longrightarrow> payload q = Some pl)"
  using recv_delivered [OF assms, of "dealer (message_parts k @ ps) []" ps]
  by (auto simp: tpq_codec_recv_def received_def split: prod.splits)

lemma dealer_interrupted: "tpq_codec_recv request (dealer [] []) = (- 1, request, dealer [] [])"
  by (simp add: tpq_codec_recv_def recv_frame_def recv_part_def)

section \<open>Requests\<close>

text \<open>The server between the requests: it has read \<open>n\<close> sets, nothing is in flight.\<close>

definition test_server :: "extern \<Rightarrow> server_test_lib \<Rightarrow> nat \<Rightarrow> server \<Rightarrow> bool" where
  "test_server x lib n s \<longleftrightarrow> arrived x lib n s \<and> pending s = [] \<and> inbound (router s) = [] \<and> outbound (router s) = []"

lemma sent_all_same:
  "same_settings (sent_all s) t = same_settings s t" "same_settings t (sent_all s) = same_settings t s"
  "pending (sent_all s) = pending s" "iq (sent_all s) = iq s" "payloads (sent_all s) = payloads s"
  "sender_state x rid (sent_all s) = sender_state x rid s" "inbound (router (sent_all s)) = inbound (router s)"
  "outbound (router (sent_all s)) = []" "verdict k (sent_all s) = verdict k s"
  by (simp_all add: sent_all_def same_settings_def sender_state_def verdict_def split: option.splits)

lemma same_sessions_sender: "same_sessions s t \<Longrightarrow> sender_state x rid t = sender_state x rid s"
  unfolding same_sessions_def sender_state_def by (elim conjE) (simp only:)

lemma sent_all_inv: "system_inv x s \<Longrightarrow> system_inv x (sent_all s)"
proof -
  assume i: "system_inv x s"
  have "pending_inv (sent_all s)" by (rule pending_inv_cong [of s]) (use i in \<open>simp_all add: system_inv_def sent_all_def\<close>)
  moreover have "server_inv x (sent_all s)"
    using i by (auto simp: system_inv_def sent_all_def server_inv_def keys_inv_def client_inv_def table_inv_def next_of_def)
  ultimately show ?thesis using i stored_ok_cong [of "sent_all s" s] by (simp add: system_inv_def sent_all_same)
qed

lemma test_server_after:
  assumes t: "test_server x lib n s" and m: "message_of k = Some m" "codec_ok k"
    and r: "s_server_handle_protocol x (deliver ((rid, True) # message_parts k) s) = Inr (0, s1)" "inbound (router s1) = []"
    and n: "\<not> (sender_state x rid s = connected_state \<and> s_protocol_event k = query_event \<and> verdict k s = Waiting)"
  shows "test_server x lib n (sent_all s1)"
proof -
  have s: "system_inv x s" "server_inv x s" "inbound (router s) = []" using t by (simp_all add: test_server_def arrived_def system_inv_def)
  have "system_inv x s1" using protocol_system_inv [OF deliver_inv [OF s(1)] r(1)] .
  then show ?thesis
    using message_keeps [OF s(2,3) m r(1)] n t r(2) sent_all_inv
    by (simp add: test_server_def arrived_def sent_all_same) (simp add: sent_all_def same_settings_def)
qed

text \<open>Saying hello.\<close>

lemma hello_reply_arrives:
  assumes l: "server_test_library x lib" and t: "test_server x lib n s" "clients s (strhex x rid) = None"
    and k: "message_of k = Some (Hello m)" "codec_ok k"
  shows "\<exists>r s1. s_server_handle_protocol x (deliver ((rid, True) # message_parts k) s) = Inr (0, s1) \<and>
    replies_arrive (dealer [] []) s1 = (dealer (message_parts r) [], sent_all s1) \<and> codec_ok r \<and>
    message_of r = Some (Coverage test_detmask) \<and>
    test_server x lib n (sent_all s1) \<and> sender_state x rid (sent_all s1) = connected_state"
proof -
  have s: "server_inv x s" "inj (strhex x)" "inbound (router s) = []" "own_detmask s = test_detmask" "outbound (router s) = []"
    using t(1) l by (simp_all add: test_server_def arrived_def system_inv_def server_test_library_def)
  have ev: "s_protocol_event c = hello_event" if "message_of c = Some (Hello m)" for c
    using message_of_id [OF that] by (simp add: s_protocol_event_def)
  have ss: "sender_state x rid s = start_state" using t(2) by (simp add: sender_state_def)
  have re: "reaction x (s\<lparr>message := m1\<rparr>) start_state hello_event = (Some (Coverage test_detmask), Some connected_state)" for m1
    using s(4) by (simp add: reaction_def Let_def)
  from server_receives [OF s(1-3) k, of rid] obtain m1 s1 where s1:
    "s_server_handle_protocol x (deliver ((rid, True) # message_parts k) s) = Inr (0, s1)" "inbound (router s1) = []"
    "sent_to rid (Some (Coverage test_detmask)) s s1" "sender_state x rid s1 = connected_state"
    using ev ss re by force
  obtain r where r: "replies_arrive (dealer [] []) s1 = (dealer (message_parts r) [], sent_all s1)"
    "message_of r = Some (Coverage test_detmask)" "codec_ok r"
    using reply_arrives [OF s1(3) s(5)] by auto
  have "test_server x lib n (sent_all s1)"
    using test_server_after [OF t(1) k s1(1,2)] ss by simp
  then show ?thesis using s1 r by (auto simp: sent_all_same)
qed

lemma hello_passes:
  assumes l: "server_test_library x lib" and t: "test_server x lib n s" "clients s (strhex x rid) = None" and c: "codec_ok request"
  shows "\<exists>q s'. hello_part x rid (request, dealer [] [], s) = Inr (q, dealer [] [], s') \<and> codec_ok q \<and>
    test_server x lib n s' \<and> sender_state x rid s' = connected_state"
proof -
  let ?k = "tpq_codec_set_nickname (request\<lparr>codec_id := 1\<rparr>) (bytes ''tpq_server_test'')"
  obtain m where k: "message_of ?k = Some (Hello m)" "codec_ok ?k"
    using c strncpy_ok(1) by (simp add: message_of_def codec_ids tpq_codec_set_nickname_def codec_ok_def buf_ok_def)
  obtain r s1 where r: "s_server_handle_protocol x (deliver ((rid, True) # message_parts ?k) s) = Inr (0, s1)"
    "replies_arrive (dealer [] []) s1 = (dealer (message_parts r) [], sent_all s1)" "codec_ok r"
    "message_of r = Some (Coverage test_detmask)" "test_server x lib n (sent_all s1)" "sender_state x rid (sent_all s1) = connected_state"
    using hello_reply_arrives [OF l t k] by blast
  obtain q where q: "tpq_codec_recv ?k (dealer (message_parts r) []) = (0, q, dealer [] [])" "codec_ok q"
    "message_of q = Some (Coverage test_detmask)"
    using dealer_receives [OF r(4,3) k(2), of "[]"] by auto
  have "codec_id q = TPQ_CODEC_COVERAGE" "detmask q = test_detmask"
    using message_of_id [OF q(3)] q(3) by (auto simp: message_of_def split: if_splits)
  then show ?thesis
    using q(1,2) router_turn_run [OF r(1), of "[]"] r(5,6)
    by (intro exI [of _ q] exI [of _ "sent_all s1"])
      (simp add: hello_part_def tpq_codec_set_id_def codec_ids dealer_sends r(2))
qed

text \<open>Sending a query; the codec then holds it.\<close>

definition query_request :: "u32 \<Rightarrow> u64 \<Rightarrow> u64 \<Rightarrow> tpq_codec \<Rightarrow> tpq_codec" where
  "query_request n qb qs request = request\<lparr>codec_id := TPQ_CODEC_QUERY, seqno := n, tstart := qb, tspan := qs, detmask := test_detmask\<rparr>"

lemma query_request_sent:
  assumes "codec_ok request"
  shows "codec_ok (query_request n qb qs request)"
    "message_of (query_request n qb qs request) = Some (Query n qb qs test_detmask (timeout request))"
  using assms by (simp_all add: query_request_def message_of_def codec_ids codec_ok_def)

lemma query_part_run:
  assumes "s_server_handle_protocol x (deliver ((rid, True) # message_parts (query_request n qb qs request)) s) = Inr (rc, s1)"
    "replies_arrive (dealer [] []) s1 = (client, s2)"
  shows "query_part x rid n qb qs (request, dealer [] [], s) = Inr (query_request n qb qs request, client, s2)"
  using assms router_turn_run [OF assms(1), of "[]"]
  by (simp add: query_part_def setters query_request_def [symmetric] dealer_sends)

lemma query_fields:
  assumes "message_of m = Some (Query n qb qs qm qt)"
  shows "query_beg m = to_i64 qb" "query_end m = to_i64 (qb + qs)" "detmask m = qm" "s_protocol_event m = query_event"
  using assms message_of_id [OF assms]
  by (auto simp: message_of_def query_beg_def query_end_def s_protocol_event_def codec_ids split: if_splits)

text \<open>A query that is answered at once: the verdict decides the reply.\<close>

lemma query_reply_arrives:
  assumes l: "server_test_library x lib" and t: "test_server x lib n s" "sender_state x rid s = connected_state"
    and K: "message_of k = Some (Query i qb qs qm qt)" "codec_ok k"
    and v: "verdict k s = Partial \<or> verdict k s = Satisfied"
  shows "\<exists>r s1. s_server_handle_protocol x (deliver ((rid, True) # message_parts k) s) = Inr (0, s1) \<and>
    replies_arrive (dealer [] []) s1 = (dealer (message_parts r) [], sent_all s1) \<and> codec_ok r \<and>
    message_of r = Some (Result i (result_status (verdict k s)) (matching_frames x k s)) \<and>
    test_server x lib n (sent_all s1) \<and> sender_state x rid (sent_all s1) = connected_state"
proof -
  have s: "server_inv x s" "inj (strhex x)" "inbound (router s) = []" "outbound (router s) = []"
    using t(1) l by (simp_all add: test_server_def arrived_def system_inv_def server_test_library_def)
  have vk: "verdict m s = verdict k s" "matching_frames x m s = matching_frames x k s"
    if "message_of m = Some (Query i qb qs qm qt)" for m
    using query_fields [OF that] query_fields [OF K(1)] by (simp_all add: verdict_def matching_frames_def)
  have re: "reaction x (s\<lparr>message := m\<rparr>) connected_state (s_protocol_event m) =
      (Some (Result i (result_status (verdict k s)) (matching_frames x k s)), Some connected_state)"
    if "message_of m = Some (Query i qb qs qm qt)" for m
    using v unfolding query_reaction [OF that] result_frames_def vk [OF that] by auto
  from server_receives [OF s(1-3) K, of rid] obtain m1 s1 where s1:
    "s_server_handle_protocol x (deliver ((rid, True) # message_parts k) s) = Inr (0, s1)" "inbound (router s1) = []"
    "sent_to rid (Some (Result i (result_status (verdict k s)) (matching_frames x k s))) s s1" "sender_state x rid s1 = connected_state"
    using re by (force simp: t(2))
  obtain r where r: "replies_arrive (dealer [] []) s1 = (dealer (message_parts r) [], sent_all s1)"
    "message_of r = Some (Result i (result_status (verdict k s)) (matching_frames x k s))" "codec_ok r"
    using reply_arrives [OF s1(3) s(4)] by auto
  have "test_server x lib n (sent_all s1)" using test_server_after [OF t(1) K s1(1,2)] v by auto
  then show ?thesis using s1 r by (auto simp: sent_all_same)
qed

lemma query_answered:
  assumes l: "server_test_library x lib" and t: "test_server x lib n s" "sender_state x rid s = connected_state"
    and c: "codec_ok request" and k: "k = query_request i qb qs request"
    and v: "verdict k s = Partial \<or> verdict k s = Satisfied"
  shows "\<exists>r s'. query_part x rid i qb qs (request, dealer [] [], s) = Inr (k, dealer (message_parts r) [], s') \<and>
    codec_ok r \<and> message_of r = Some (Result i (result_status (verdict k s)) (matching_frames x k s)) \<and>
    test_server x lib n s' \<and> sender_state x rid s' = connected_state"
proof -
  note K = query_request_sent [OF c, of i qb qs, folded k]
  obtain r s1 where r: "s_server_handle_protocol x (deliver ((rid, True) # message_parts k) s) = Inr (0, s1)"
    "replies_arrive (dealer [] []) s1 = (dealer (message_parts r) [], sent_all s1)" "codec_ok r"
    "message_of r = Some (Result i (result_status (verdict k s)) (matching_frames x k s))"
    "test_server x lib n (sent_all s1)" "sender_state x rid (sent_all s1) = connected_state"
    using query_reply_arrives [OF l t K(2,1) v] by blast
  then show ?thesis using query_part_run [OF r(1) [unfolded k] r(2)] by (auto simp: k [symmetric])
qed

section \<open>Results\<close>

lemma check_starts_frames:
  assumes "server_test_library x lib" "\<forall>i\<in>set ks. i < 10"
  shows "check_starts x lib (map (\<lambda>i. encode_msg x (nth_set lib i)) ks) (map (\<lambda>i. 1000 * (int i + 1)) ks) = Inr ()"
  using assms(2)
proof (induction ks)
  case (Cons i ks)
  have "tp_decode lib (encode_msg x (nth_set lib i)) = Some (nth_set lib i)" using assms(1) by (simp add: server_test_library_def)
  then have "s_tpset_recv x lib (Some (encode_msg x (nth_set lib i))) = Inr (tpset_of x (nth_set lib i))"
    using Cons.prems nth_payload(1) [OF assms(1), of i] by (simp add: s_tpset_recv_def Let_def)
  then show ?case using Cons nth_payload(1) [OF assms(1), of i] by simp
qed simp

lemma check_result_frames:
  assumes "server_test_library x lib" "\<forall>i\<in>set ks. i < 10"
    and q: "message_of q = Some (Result n st fs)" "payload q = Some fs" "fs = map (\<lambda>i. encode_msg x (nth_set lib i)) ks"
  shows "check_result x lib n (map (\<lambda>i. 1000 * (int i + 1)) ks) q = Inr ()"
proof -
  have "codec_id q = TPQ_CODEC_RESULT" "seqno q = n" using message_of_id [OF q(1)] q(1) by (auto simp: message_of_def split: if_splits)
  then show ?thesis using check_starts_frames [OF assms(1,2)] q(2,3) by (simp add: check_result_def)
qed

text \<open>The first query, when all six sets have arrived before it.\<close>

lemma partly_late_passes:
  assumes l: "server_test_library x lib" and t: "test_server x lib 6 s" "sender_state x rid s = connected_state"
    and c: "codec_ok request" and b: "concat batches = []"
  shows "\<exists>q s'. partly_late_part x lib rid batches (request, dealer [] [], s) = Inr (q, dealer [] [], s') \<and> codec_ok q \<and>
    test_server x lib 6 s' \<and> sender_state x rid s' = connected_state"
proof -
  define k where "k = query_request 1 0 5001 request"
  have h: "holds_sets True 6 (iq s)" and p: "payloads s = map (\<lambda>i. new_payload x (nth_set lib i)) [0..<6]"
    using t(1) by (simp_all add: test_server_def arrived_def)
  have qk: "query_beg k = 0" "query_end k = 5001" "detmask k = test_detmask"
    by (simp_all add: k_def query_request_def query_beg_def query_end_def to_i64_def)
  have v: "verdict k s = Partial"
    using set_bounds [OF h] by (simp add: verdict_def qk query_is_bogus_def test_detmask_def)
  have m: "matching_frames x k s = map (\<lambda>i. encode_msg x (nth_set lib i)) [3, 4]"
  proof (rule matching_sets [OF l h p])
    have "i < 6 \<and> (\<exists>t. 0 \<le> t \<and> t < 5001 \<and> in_set i t \<and> (True \<longrightarrow> 4000 \<le> t)) \<longleftrightarrow> i = 3 \<or> i = 4" for i
      unfolding meets_set by auto
    then show "set [3, 4] = {i. i < 6 \<and> (\<exists>t. query_beg k \<le> t \<and> t < query_end k \<and> in_set i t \<and> (True \<longrightarrow> 4000 \<le> t))}"
      unfolding qk by auto
  qed simp_all
  obtain r s1 where r: "query_part x rid 1 0 5001 (request, dealer [] [], s) = Inr (k, dealer (message_parts r) [], s1)"
    "codec_ok r" "message_of r = Some (Result 1 206 (map (\<lambda>i. encode_msg x (nth_set lib i)) [3, 4]))"
    and s1: "test_server x lib 6 s1" "sender_state x rid s1 = connected_state"
    using query_answered [OF l t c k_def] v m by auto
  obtain s2 where s2: "ingest_turns x batches (dealer (message_parts r) [], s1) = Inr (dealer (message_parts r) [], s2)"
    "arrived x lib 6 s2" "same_sessions s1 s2"
    using ingest_turns_sets [OF l, of 6 s1 batches 6] s1(1) b by (auto simp: test_server_def)
  have ok: "codec_ok k" using query_request_sent(1) [OF c] by (simp add: k_def)
  from dealer_receives [OF r(3,2) ok, of "[]"] obtain q where q:
    "tpq_codec_recv k (dealer (message_parts r) []) = (0, q, dealer [] [])" "codec_ok q"
    "message_of q = Some (Result 1 206 (map (\<lambda>i. encode_msg x (nth_set lib i)) [3, 4]))"
    "payload q = Some (map (\<lambda>i. encode_msg x (nth_set lib i)) [3, 4])"
    by auto
  have "check_result x lib 1 [4000, 5000] q = Inr ()" using check_result_frames [OF l _ q(3,4) refl] by simp
  then have "partly_late_part x lib rid batches (request, dealer [] [], s) = Inr (q, dealer [] [], s2)"
    using q(1) by (simp add: partly_late_part_def r(1) s2(1))
  moreover have "test_server x lib 6 s2" "sender_state x rid s2 = connected_state"
    using s1 s2(2,3) same_sessions_sender [OF s2(3)] by (simp_all add: test_server_def same_sessions_def)
  ultimately show ?thesis using q(2) by blast
qed

text \<open>The second query, and the set that completes it.\<close>

lemma delayed_passes:
  assumes l: "server_test_library x lib" and t: "test_server x lib 6 s" "sender_state x rid s = connected_state"
    and c: "codec_ok request"
  shows "delayed_part x lib rid (request, dealer [] [], s) = Inr ()"
proof -
  define k where "k = query_request 2 4000 3000 request"
  have s: "arrived x lib 6 s" "system_inv x s" "server_inv x s" "pending_inv s" "inj (strhex x)" "inbound (router s) = []"
    "outbound (router s) = []" "pending s = []" "holds_sets True 6 (iq s)" "queue_inv (iq s)"
    using t(1) l by (simp_all add: test_server_def arrived_def system_inv_def server_test_library_def)
  note K = query_request_sent [OF c, of 2 4000 3000, folded k_def]
  have qk: "query_beg k = 4000" "query_end k = 7000" "detmask k = test_detmask"
    by (simp_all add: k_def query_request_def query_beg_def query_end_def to_i64_def)
  have v: "verdict k s = Waiting"
    using set_bounds [OF s(9)] by (simp add: verdict_def qk query_is_bogus_def test_detmask_def)
  from waiting_stored [OF s(3-6) K(2,1) t(2) v]
  obtain s1 p where s1: "s_server_handle_protocol x (deliver ((rid, True) # message_parts k) s) = Inr (0, s1)"
      "server_inv x s1" "pending_inv s1" "outbound (router s1) = outbound (router s)"
    and m: "message_of (message s1) = Some (Query 2 4000 3000 test_detmask (timeout request))"
    and r: "rid_of s1 p = rid" "request_alive s1 (waiting_request p (message s1))"
      "pending s1 = push_request (query_end (message s1)) (waiting_request p (message s1)) (pending s)"
    and q: "iq s1 = iq s" "payloads s1 = payloads s" "own_detmask s1 = own_detmask s"
    by blast
  have a1: "replies_arrive (dealer [] []) s1 = (dealer [] [], s1)"
    using s1(4) s(7) by (simp add: no_replies_arrive)
  obtain u where u: "slurp x [nth_set lib 6] s = Inr u" "holds_sets True 7 (iq u)"
    "payloads u = map (\<lambda>i. new_payload x (nth_set lib i)) [0..<7]"
    using slurp_sets [OF l s(1), of 1] by (auto simp: upt_rec)
  obtain t1 where t1: "slurp x [nth_set lib 6] s1 = Inr t1" "iq t1 = iq u" "payloads t1 = payloads u"
    using slurp_same_queue [OF u(1) q] by blast
  have b: "lower_map (iq t1) = 4000" "upper_map (iq t1) = 7100" using set_bounds [OF u(2)] by (simp_all add: t1(2))
  note M = query_fields [OF m]
  have qm: "query_beg (message s1) = 4000" "query_end (message s1) = 7000" using M(1,2) by (simp_all add: to_i64_def)
  have f: "matching_frames x (message s1) t1 = map (\<lambda>i. encode_msg x (nth_set lib i)) [3, 4, 5]"
  proof (rule matching_sets [OF l u(2) [folded t1(2)] u(3) [folded t1(3)]])
    have "i < 7 \<and> (\<exists>t. 4000 \<le> t \<and> t < 7000 \<and> in_set i t \<and> (True \<longrightarrow> 4000 \<le> t)) \<longleftrightarrow> i = 3 \<or> i = 4 \<or> i = 5" for i
      unfolding meets_set by auto
    then show "set [3, 4, 5] = {i. i < 7 \<and> (\<exists>t. query_beg (message s1) \<le> t \<and> t < query_end (message s1) \<and> in_set i t \<and> (True \<longrightarrow> 4000 \<le> t))}"
      unfolding qm by auto
  qed simp_all
  have "queue_inv (iq s1)" using s(10) q by simp
  from waiting_answered [OF s1(2) this s1(3) r(3,2) t1(1)]
  obtain s2 where s2: "s_server_handle_ingest x [nth_set lib 6] s1 = Inr s2"
    "sent_to rid (Some (Result 2 200 (map (\<lambda>i. encode_msg x (nth_set lib i)) [3, 4, 5]))) s1 s2"
    using r(1) m b s(8) f by (auto simp: qm is_i64_def waiting_request_def message_of_def split: if_splits)
  obtain w where w: "replies_arrive (dealer [] []) s2 = (dealer (message_parts w) [], sent_all s2)"
    "message_of w = Some (Result 2 200 (map (\<lambda>i. encode_msg x (nth_set lib i)) [3, 4, 5]))" "codec_ok w"
    using reply_arrives [OF s2(2)] s1(4) s(7) by auto
  from dealer_receives [OF w(2,3) K(1), of "[]"] obtain z where z:
    "tpq_codec_recv k (dealer (message_parts w) []) = (0, z, dealer [] [])"
    "message_of z = Some (Result 2 200 (map (\<lambda>i. encode_msg x (nth_set lib i)) [3, 4, 5]))"
    "payload z = Some (map (\<lambda>i. encode_msg x (nth_set lib i)) [3, 4, 5])"
    by auto
  have "check_result x lib 2 [4000, 5000, 6000] z = Inr ()" using check_result_frames [OF l _ z(2,3) refl] by simp
  moreover have "s_tpset_send lib 7 7000 100 = nth_set lib 6" by (simp add: nth_set_def)
  ultimately show ?thesis
    using z(1) query_part_run [OF s1(1) [unfolded k_def] a1]
    by (simp add: delayed_part_def k_def [symmetric] dealer_interrupted s2(1) w(1))
qed

section \<open>The first query too early\<close>

text \<open>When a set is missing at the first query, the reply carries five sets instead of two: at once when
  only the sixth is missing, since then nothing has been purged, and else when the fifth arrives.\<close>

lemma five_sets_refused:
  assumes "message_of k = Some (Result n st fs)" "codec_ok k" "codec_ok request" "length fs = 5"
  shows "\<exists>rc q client'. tpq_codec_recv request (dealer (message_parts k @ ps) []) = (rc, q, client') \<and>
    check_result x lib i [4000, 5000] q \<noteq> Inr ()"
proof -
  obtain q where q: "tpq_codec_recv request (dealer (message_parts k @ ps) []) = (0, q, dealer ps [])" "payload q = Some fs"
    using dealer_receives [OF assms(1-3)] by auto
  have "check_result x lib i [4000, 5000] q \<noteq> Inr ()"
    using q(2) assms(4) by (simp add: check_result_def assert_or_def)
  then show ?thesis using q(1) by blast
qed

lemma ingest_turns_append:
  "ingest_turns x batches (dealer inp out, s) = Inr (client', s') \<Longrightarrow> \<exists>ps. client' = dealer (inp @ ps) out"
proof (induction batches arbitrary: inp s)
  case (Cons b bs)
  then obtain s1 where "ingest_turns x bs (dealer (inp @ strip_identity True (outbound (router s1))) out, sent_all s1) = Inr (client', s')"
    by (auto simp: replies_arrive_def sent_all_def elim!: bind_fault_InrE)
  from Cons.IH [OF this] show ?case by auto
next
  case Nil
  then have "client' = dealer (inp @ []) out" by simp
  then show ?case by blast
qed

lemma five_sets:
  assumes l: "server_test_library x lib" and h: "holds_sets False n (iq s)" "5 \<le> n" "n < 10"
    and p: "payloads s = map (\<lambda>i. new_payload x (nth_set lib i)) [0..<n]" and q: "query_beg m = 0" "query_end m = 5001"
  shows "length (matching_frames x m s) = 5"
proof -
  have "i < n \<and> (\<exists>t. 0 \<le> t \<and> t < 5001 \<and> in_set i t \<and> (False \<longrightarrow> 4000 \<le> t)) \<longleftrightarrow> i < 5" for i
  proof -
    have "max 0 (1000 * (int i + 1)) < min 5001 (1000 * (int i + 1) + 100) \<longleftrightarrow> i < 5" by (simp add: max_def min_def) arith
    then show ?thesis unfolding meets_set using h(2) by auto
  qed
  then have "{i. i < n \<and> (\<exists>t. 0 \<le> t \<and> t < 5001 \<and> in_set i t \<and> (False \<longrightarrow> 4000 \<le> t))} = {i. i < 5}"
    by (rule Collect_cong)
  moreover have "set [0..<5] = {i :: nat. i < 5}" by auto
  ultimately have "set [0..<5] = {i. i < n \<and> (\<exists>t. query_beg m \<le> t \<and> t < query_end m \<and> in_set i t \<and> (False \<longrightarrow> 4000 \<le> t))}"
    unfolding q by (simp only:)
  from matching_sets [OF l h(1) p h(3) _ this] show ?thesis by simp
qed

text \<open>The query waits for the fifth set.\<close>

lemma waits_for_fifth:
  assumes l: "server_test_library x lib"
    and "arrived x lib n s" "n \<le> 4" "pending s = [(5001, [req])]" "request_alive s req" "outbound (router s) = []"
    "query_beg (message s) = 0" "query_end (message s) = 5001"
    "concat batches = map (nth_set lib) [n..<6]" "ingest_turns x batches (dealer [] [], s) = Inr (client', s')"
  shows "\<exists>k ps st fs. client' = dealer (message_parts k @ ps) [] \<and> codec_ok k \<and>
    message_of k = Some (Result (rq_seqno req) st fs) \<and> length fs = 5"
  using assms(2-)
proof (induction batches arbitrary: n s)
  case Nil
  then show ?case by simp
next
  case (Cons b bs)
  let ?N = "n + length b"
  have n6: "n \<le> 6" using Cons.prems(2) by simp
  have b: "?N \<le> 6" "b = map (nth_set lib) [n..<?N]" "concat bs = map (nth_set lib) [?N..<6]"
    using split_batches [of b bs lib n 6] Cons.prems(8) n6 by simp_all
  obtain s1 where s1: "s_server_handle_ingest x b s = Inr s1"
    "ingest_turns x bs (replies_arrive (dealer [] []) s1) = Inr (client', s')"
    using Cons.prems(9) by (auto elim: bind_fault_InrE)
  show ?case
  proof (cases "?N \<le> 4")
    case True
    have "\<forall>(k, rs)\<in>set (pending s). 1000 * int ?N + 100 < k" using True by (simp add: Cons.prems(3))
    with ingest_sets [OF l Cons.prems(1) _ this] True s1(1) b(2) have a: "arrived x lib ?N s1" "same_sessions s s1" by auto
    then have "outbound (router s1) = []" using Cons.prems(5) by (simp add: same_sessions_def)
    then show ?thesis
      using Cons.IH [OF a(1) True _ _ _ _ _ b(3)] a(2) s1(2) Cons.prems(3-7)
      by (simp add: no_replies_arrive same_sessions_def request_alive_def)
  next
    case False
    have i: "server_inv x s" "queue_inv (iq s)" "pending_inv s" using Cons.prems(1) by (simp_all add: arrived_def system_inv_def)
    have N: "5 \<le> ?N" "?N \<le> 6" using False b(1) by simp_all
    then have "n \<le> 6" "?N \<le> 7" "\<not> 6 \<le> n" using Cons.prems(2) by simp_all
    with slurp_sets [OF l Cons.prems(1), of "length b", folded b(2)]
    obtain u where u: "slurp x b s = Inr u" "holds_sets False ?N (iq u)"
      "payloads u = map (\<lambda>i. new_payload x (nth_set lib i)) [0..<?N]"
      by auto
    have bd: "lower_map (iq u) = 1000" "upper_map (iq u) = 1000 * int ?N + 100" 
    proof -
      have "0 < ?N" using N(1) by linarith
      from set_bounds [OF u(2) this] show "lower_map (iq u) = 1000" "upper_map (iq u) = 1000 * int ?N + 100" by simp_all
    qed
    obtain s2 where s2: "s_server_handle_ingest x b s = Inr s2"
      "sent_to (rid_of s (rq_client req)) (Some (Result (rq_seqno req) 200 (matching_frames x (message s) u))) s s2"
      using waiting_answered [OF i _ Cons.prems(4) u(1), of 5001 "[]"] bd N by (auto simp: Cons.prems(3) is_i64_def)
    have f: "length (matching_frames x (message s) u) = 5"
      using five_sets [OF l u(2) _ _ u(3) Cons.prems(6,7)] N by simp
    obtain k where k: "replies_arrive (dealer [] []) s1 = (dealer (message_parts k) [], sent_all s1)"
      "message_of k = Some (Result (rq_seqno req) 200 (matching_frames x (message s) u))" "codec_ok k"
      using reply_arrives [OF s2(2) Cons.prems(5)] s2(1) s1(1) by auto
    obtain ps where "client' = dealer (message_parts k @ ps) []" using ingest_turns_append s1(2) k(1) by fastforce
    then show ?thesis using k f by blast
  qed
qed

lemma partly_late_fails:
  assumes l: "server_test_library x lib" and t: "test_server x lib n s" "sender_state x rid s = connected_state"
    and c: "codec_ok request" and n: "n < 6" and b: "concat batches = map (nth_set lib) [n..<6]"
  shows "partly_late_part x lib rid batches (request, dealer [] [], s) \<noteq> Inr st"
proof
  assume ok: "partly_late_part x lib rid batches (request, dealer [] [], s) = Inr st"
  define k where "k = query_request 1 0 5001 request"
  note K = query_request_sent [OF c, of 1 0 5001, folded k_def]
  have s: "arrived x lib n s" "system_inv x s" "server_inv x s" "pending_inv s" "inj (strhex x)" "inbound (router s) = []"
    "outbound (router s) = []" "pending s = []" "holds_sets False n (iq s)" "queue_inv (iq s)"
    "payloads s = map (\<lambda>i. new_payload x (nth_set lib i)) [0..<n]"
    using t(1) l n by (simp_all add: test_server_def arrived_def system_inv_def server_test_library_def)
  have qk: "query_beg k = 0" "query_end k = 5001" "detmask k = test_detmask"
    by (simp_all add: k_def query_request_def query_beg_def query_end_def to_i64_def)
  have refused: False if "query_part x rid 1 0 5001 (request, dealer [] [], s) = Inr (k, client, s1)"
    "ingest_turns x batches (client, s1) = Inr (dealer (message_parts r @ ps) [], s2)" "codec_ok r"
    "message_of r = Some (Result i z fs)" "length fs = 5" for client s1 r ps s2 i z fs
    using ok five_sets_refused [OF that(4,3) K(1) that(5), of ps x lib 1]
    by (auto simp: partly_late_part_def that(1,2) elim!: bind_fault_InrE)
  obtain k' client s1 client' s2 where run: "query_part x rid 1 0 5001 (request, dealer [] [], s) = Inr (k', client, s1)"
    "ingest_turns x batches (client, s1) = Inr (client', s2)"
    using ok by (auto simp: partly_late_part_def elim!: bind_fault_InrE)
  show False
  proof (cases "n = 5")
    case True
    have v: "verdict k s = Partial"
      using set_bounds [OF s(9)] True by (simp add: verdict_def qk query_is_bogus_def test_detmask_def)
    obtain r s' where r: "query_part x rid 1 0 5001 (request, dealer [] [], s) = Inr (k, dealer (message_parts r) [], s')"
      "codec_ok r" "message_of r = Some (Result 1 206 (matching_frames x k s))"
      using query_answered [OF l t c k_def] v by auto
    then have e: "k' = k" "client = dealer (message_parts r) []" "s1 = s'" using run(1) by simp_all
    obtain ps where "client' = dealer (message_parts r @ ps) []" using ingest_turns_append run(2) e(2) by blast
    then have "ingest_turns x batches (dealer (message_parts r) [], s') = Inr (dealer (message_parts r @ ps) [], s2)"
      using run(2) e by simp
    moreover have "length (matching_frames x k s) = 5" using five_sets [OF l s(9) _ _ s(11) qk(1,2)] True by simp
    ultimately show False using refused [OF r(1) _ r(2,3)] by blast
  next
    case False
    then have n4: "n \<le> 4" using n by simp
    have "lower_map (iq s) < 5001 \<and> upper_map (iq s) < 5001"
    proof (cases "n = 0")
      case True
      then have "iq s = []" using s(9) by (intro queue_empty [OF s(10)]) (auto simp: holds_sets_def)
      then show ?thesis by (simp add: bounds_empty)
    next
      case False
      then show ?thesis using set_bounds [OF s(9)] n4 by simp
    qed
    then have v: "verdict k s = Waiting" by (simp add: verdict_def qk query_is_bogus_def test_detmask_def)
    from waiting_stored [OF s(3-6) K(2,1) t(2) v]
    obtain s' p where s': "s_server_handle_protocol x (deliver ((rid, True) # message_parts k) s) = Inr (0, s')"
        "outbound (router s') = outbound (router s)"
      and m: "message_of (message s') = Some (Query 1 0 5001 test_detmask (timeout request))"
      and r: "request_alive s' (waiting_request p (message s'))"
        "pending s' = push_request (query_end (message s')) (waiting_request p (message s')) (pending s)"
      by blast
    have a: "replies_arrive (dealer [] []) s' = (dealer [] [], s')" using s'(2) s(7) by (simp add: no_replies_arrive)
    note Q = query_part_run [OF s'(1) [unfolded k_def] a, folded k_def]
    note M = query_fields [OF m]
    have "system_inv x s'" using protocol_system_inv [OF deliver_inv [OF s(2)] s'(1)] .
    then have ar: "arrived x lib n s'"
      using message_keeps [OF s(3,6) K(2,1) s'(1)] s(1) by (simp add: arrived_def same_settings_def)
    have e: "k' = k" "client = dealer [] []" "s1 = s'" using run(1) Q by simp_all
    from waits_for_fifth [OF l ar n4 _ r(1) _ _ _ b run(2) [unfolded e]]
    obtain r ps z fs where "client' = dealer (message_parts r @ ps) []" "codec_ok r"
      "message_of r = Some (Result (rq_seqno (waiting_request p (message s'))) z fs)" "length fs = 5"
      using r(2) s(7,8) s'(2) M(1,2) by (auto simp: to_i64_def)
    then show False using refused [OF Q, of r ps s2] run(2) e by blast
  qed
qed

section \<open>The whole test\<close>

lemma early_turns:
  assumes l: "server_test_library x lib" and b: "concat early = map (nth_set lib) [0..<n]" "n \<le> 6"
  shows "\<exists>s t. s_setup_server x px lib address test_detmask noisy (s_server_new rnd) = Inr s \<and>
    ingest_turns x early (dealer [] [], s) = Inr (dealer [] [], t) \<and> test_server x lib n t \<and> clients t (strhex x rid) = None"
proof -
  have n: "clients (s_server_new rnd) = Map.empty" "router (s_server_new rnd) = idle ROUTER" "pending (s_server_new rnd) = []"
    by (simp_all add: s_server_new_def server_initialize_def s_server_config_global_def Let_def)
  obtain s where s: "s_setup_server x px lib address test_detmask noisy (s_server_new rnd) = Inr s" "arrived x lib 0 s"
    "same_sessions (s_server_new rnd) s"
    using setup_runs [OF l] by blast
  obtain t where t: "ingest_turns x early (dealer [] [], s) = Inr (dealer [] [], t)" "arrived x lib n t" "same_sessions s t"
    using ingest_turns_sets [OF l s(2) b(1) _ b(2)] s(3) n by (auto simp: same_sessions_def idle_def)
  then have "test_server x lib n t" "clients t (strhex x rid) = None"
    using s(3) n by (simp_all add: test_server_def same_sessions_def idle_def)
  then show ?thesis using s(1) t(1) by blast
qed

lemma mid_turns:
  assumes l: "server_test_library x lib" and t: "test_server x lib n s" "sender_state x rid s = st"
    and b: "concat mid = map (nth_set lib) [n..<N]" "n \<le> N" "N \<le> 6"
  shows "\<exists>t. ingest_turns x mid (dealer [] [], s) = Inr (dealer [] [], t) \<and> test_server x lib N t \<and> sender_state x rid t = st"
proof -
  have s: "arrived x lib n s" "pending s = []" "outbound (router s) = []" "inbound (router s) = []"
    using t(1) by (simp_all add: test_server_def)
  obtain u where u: "ingest_turns x mid (dealer [] [], s) = Inr (dealer [] [], u)" "arrived x lib N u" "same_sessions s u"
    using ingest_turns_sets [OF l s(1) b] s(2,3) by fastforce
  then have "test_server x lib N u" using s by (simp add: test_server_def same_sessions_def)
  then show ?thesis using u t(2) same_sessions_sender [OF u(3)] by simp
qed

lemma test_reaches_query:
  assumes l: "server_test_library x lib" and b: "concat early = map (nth_set lib) [0..<n]" "n \<le> N" "N \<le> 6"
    and m: "concat mid = map (nth_set lib) [n..<N]"
  shows "\<exists>q u. tpq_server_test x px lib address rnd rid noisy early mid late =
      bind_fault (partly_late_part x lib rid late (q, dealer [] [], u)) (delayed_part x lib rid) \<and>
    codec_ok q \<and> test_server x lib N u \<and> sender_state x rid u = connected_state"
proof -
  have n6: "n \<le> 6" using b by simp
  obtain s t where t: "s_setup_server x px lib address test_detmask noisy (s_server_new rnd) = Inr s"
    "ingest_turns x early (dealer [] [], s) = Inr (dealer [] [], t)" "test_server x lib n t" "clients t (strhex x rid) = None"
    using early_turns [OF l b(1) n6] by blast
  have c: "codec_ok (tpq_codec_new\<lparr>payload := Some []\<rparr>)" using codec_ok_new by (simp add: codec_ok_def)
  obtain q u where u: "hello_part x rid (tpq_codec_new\<lparr>payload := Some []\<rparr>, dealer [] [], t) = Inr (q, dealer [] [], u)" "codec_ok q"
    "test_server x lib n u" "sender_state x rid u = connected_state"
    using hello_passes [OF l t(3,4) c] by blast
  obtain v where v: "ingest_turns x mid (dealer [] [], u) = Inr (dealer [] [], v)" "test_server x lib N v"
    "sender_state x rid v = connected_state"
    using mid_turns [OF l u(3,4) m b(2,3)] by blast
  then show ?thesis
    using u(2) by (intro exI [of _ q] exI [of _ v]) (simp add: tpq_server_test_def t(1) dealer_def [symmetric] t(2) setters u(1))
qed


text \<open>Libraries for the witness: the fields of a set as four frames of bytes, and the frames of a message
  in one with each byte behind a 1 and a 0 at the end of each frame.\<close>

definition sample_set_message :: "tpset \<Rightarrow> zmsg" where
  "sample_set_message t = [put_number8 (of_i64 (ts_tstart t)), put_number8 (of_i64 (ts_tspan t)), put_number8 (ts_detid t),
     put_number4 (ts_count t)]"

definition sample_set_of :: "zmsg \<Rightarrow> tpset" where
  "sample_set_of m = (let num = (\<lambda>i. case get_number8 (m ! i) of None \<Rightarrow> 0 | Some (h, r) \<Rightarrow> h) in
     \<lparr>ts_tstart = to_i64 (num 0), ts_tspan = to_i64 (num 1), ts_detid = num 2,
      ts_count = (case get_number4 (m ! 3) of None \<Rightarrow> 0 | Some (h, r) \<Rightarrow> h)\<rparr>)"

definition sample_frames_join :: "zmsg \<Rightarrow> frame" where
  "sample_frames_join m = concat (map (\<lambda>f. concat (map (\<lambda>b. [1, b]) f) @ [0]) m)"

fun sample_frames_split :: "frame \<Rightarrow> frame \<Rightarrow> zmsg option" where
  "sample_frames_split cur [] = Some []"
| "sample_frames_split cur [c] = (if c = 0 then Some [rev cur] else None)"
| "sample_frames_split cur (c # b # bs) =
     (if c = 0 then map_option ((#) (rev cur)) (sample_frames_split [] (b # bs)) else sample_frames_split (b # cur) bs)"

lemma sample_frames: "sample_frames_split [] (sample_frames_join m) = Some m"
proof -
  have "sample_frames_split cur (concat (map (\<lambda>b. [1, b]) f) @ 0 # r) = map_option ((#) (rev cur @ f)) (sample_frames_split [] r)" for cur f r
    by (induction f arbitrary: cur) (cases r, simp_all)
  then show ?thesis by (induction m) (simp_all add: sample_frames_join_def)
qed

definition sample_test_extern :: extern where
  "sample_test_extern = \<lparr>strhex = sample_strhex, encode_msg = sample_frames_join, tpset_of = sample_set_of,
     endpoint_made = (\<lambda>f. f \<noteq> [])\<rparr>"

definition sample_test_lib :: server_test_lib where
  "sample_test_lib = \<lparr>tp_message = sample_set_message, tp_decode = sample_frames_split [], tp_config = bytes ''{}''\<rparr>"

lemma sample_test_library: "server_test_library sample_test_extern sample_test_lib"
proof -
  have "sample_set_of (sample_set_message t) = t" if "is_i64 (ts_tstart t)" "is_i64 (ts_tspan t)" for t
    using that get_put_number8 [where r = "[]"] get_put_number4 [where r = "[]"]
    by (intro tpset.equality) (simp_all add: sample_set_of_def sample_set_message_def Let_def to_i64_of_i64)
  moreover have "cstring (bytes ''{}'') \<noteq> []" by code_simp
  moreover have "strhex sample_test_extern = strhex sample_extern" by (simp add: sample_test_extern_def sample_extern_def)
  ultimately show ?thesis using sample_frames sample_inj
    by (simp add: server_test_library_def sample_test_extern_def sample_test_lib_def)
qed


end
