(* ===== verification/ClientTest.thy ===== *)
theory ClientTest
  imports ServerTest
begin

text \<open>
  The selftest of the client (\<open>tpq_client_test\<close> of \<open>src/tpq_client.cpp\<close> with
  \<open>src/tpq_test_util.inc\<close>): a server that is configured over its pipe, six sets sent to its ingest
  socket, and a client object that says hello and asks a query.

  The sets reach the server at their own pace: the test is given the batches in which the server reads
  them before the greeting, between the greeting and the query, and after the query. No timer of the
  client fires meanwhile. The result is the object and the server when the test has come to its end,
  and nothing when a call never returns.
\<close>

section \<open>A call of the class interface\<close>

text \<open>The caller's command goes to the actor, what the actor sends to the server; while the caller waits,
  the server reads sets; what the server sends goes to the actor.\<close>

definition client_turn ::
  "(frame option \<Rightarrow> bool) \<Rightarrow> extern \<Rightarrow> frame \<Rightarrow> api_command \<Rightarrow> zmsg list list \<Rightarrow> client \<times> server \<Rightarrow> fault + client \<times> server" where
  "client_turn f x rid cmd batches = (\<lambda>(c, s).
     bind_fault (s_client_handle_cmdpipe f cmd c) (\<lambda>(rc, c).
     bind_fault (router_turn x rid (c_dealer c, s)) (\<lambda>st.
     bind_fault (ingest_turns x batches st) (\<lambda>(dealer, s).
     bind_fault (s_client_handle_protocol_c f (c\<lparr>c_dealer := dealer\<rparr>)) (\<lambda>(rc, c). Inr (c, s))))))"

text \<open>A call that waits for a reply, with the assertion that it returns no negative number.\<close>

type_synonym client_test_state = "tpq_client \<times> client \<times> server"

definition asserted_call ::
  "(frame option \<Rightarrow> bool) \<Rightarrow> extern \<Rightarrow> frame \<Rightarrow> api_command \<Rightarrow>
   (api_reply list \<Rightarrow> tpq_client \<Rightarrow> (int \<times> api_reply list \<times> tpq_client) option) \<Rightarrow>
   zmsg list list \<Rightarrow> client_test_state \<Rightarrow> fault + client_test_state option" where
  "asserted_call f x rid cmd returns batches = (\<lambda>(a, c, s).
     bind_fault (client_turn f x rid cmd batches (c, s)) (\<lambda>(c, s).
       case returns (c_cmdpipe c) a of None \<Rightarrow> Inr None
       | Some (rc, replies, a) \<Rightarrow> assert_or (rc \<ge> 0) (\<lambda>_. Inr (Some (a, c\<lparr>c_cmdpipe := replies\<rparr>, s)))))"

definition then_call :: "fault + 'a option \<Rightarrow> ('a \<Rightarrow> fault + 'b option) \<Rightarrow> fault + 'b option" where
  "then_call r k = bind_fault r (\<lambda>q. case q of None \<Rightarrow> Inr None | Some a \<Rightarrow> k a)"

lemma then_call_simps [simp]: "then_call (Inr (Some a)) k = k a" "then_call (Inr None) k = Inr None" "then_call (Inl e) k = Inl e"
  by (simp_all add: then_call_def)

section \<open>The test\<close>

definition tpq_client_test ::
  "(frame option \<Rightarrow> bool) \<Rightarrow> extern \<Rightarrow> pipe_extern \<Rightarrow> server_test_lib \<Rightarrow> cstr \<Rightarrow> u32 \<Rightarrow> frame \<Rightarrow> bool \<Rightarrow>
   zmsg list list \<Rightarrow> zmsg list list \<Rightarrow> zmsg list list \<Rightarrow> fault + (tpq_client \<times> server) option" where
  "tpq_client_test f x px lib address rnd rid noisy early mid late =
     bind_fault (s_setup_server x px lib address test_detmask noisy (s_server_new rnd)) (\<lambda>s.
     bind_fault (s_client_handle_cmdpipe f (tpq_client_set_verbose noisy) s_client_new_c) (\<lambda>(rc, c).
     bind_fault (ingest_turns x early (c_dealer c, s)) (\<lambda>(dealer, s).
     then_call (asserted_call f x rid (tpq_client_say_hello (bytes ''tpq-test-client'') address) say_hello_returns mid
       (tpq_client_new, c\<lparr>c_dealer := dealer\<rparr>, s)) (\<lambda>st.
     then_call (asserted_call f x rid (tpq_client_query 4000 100 0xFFFFFFFFFFFFFFFF 10000) query_returns late st)
       (\<lambda>(a, c, s).
     assert_or (a_payload a \<noteq> None) (\<lambda>_.
     then_call (tpq_client_destroy f c) (\<lambda>c.
     bind_fault (s_server_handle_pipe x px [bytes ''$TERM''] s) (\<lambda>(rc, s, replies).
       Inr (if rc = - 1 then Some (a, s) else None)))))))))"

end
