(* ===== verification/ClientTestProps.thy ===== *)
theory ClientTestProps
  imports ServerTestProps ClientTest
begin

text \<open>
  The selftest of the client passes whatever the order in which the server reads the sets and the
  client's messages: a query that comes before its data waits for it.
\<close>

section \<open>The actor\<close>

text \<open>The lemmas of the session, for an actor whose socket holds nothing but what is in transit.\<close>

lemma protocol_handler_ok: "s_client_handle_protocol_c f c = Inr (rc, d) \<Longrightarrow> client_ok c \<Longrightarrow> client_ok d"
proof (induction f c arbitrary: rc d rule: s_client_handle_protocol_c.induct)
  case (1 f c)
  show ?case
  proof (cases "inbound (c_dealer c) = []")
    case True
    then show ?thesis using "1.prems" by (simp add: s_client_handle_protocol_c.simps)
  next
    case False
    then obtain t go where t: "protocol_iteration_c f c = Inr (t, go)"
      "(if go then s_client_handle_protocol_c f t else Inr (- 1, t)) = Inr (rc, d)"
      using "1.prems"(1) by (subst (asm) s_client_handle_protocol_c.simps) (auto elim!: bind_fault_InrE)
    obtain r m sk where v: "tpq_codec_recv (c_message c) (c_dealer c) = (r, m, sk)" by (metis prod_cases3)
    note R = client_ok_recv [OF "1.prems"(2) v]
    have ok: "client_ok (c\<lparr>c_message := m, c_dealer := sk, c_expiry_timer := b, c_terminated := z\<rparr>)" for b z
      using R "1.prems"(2) by (simp add: client_ok_def)
    have "client_ok t"
    proof (cases "r = 0")
      case True
      let ?c2 = "c\<lparr>c_message := m, c_dealer := sk, c_expiry_timer := (c_expiry c \<noteq> 0)\<rparr>"
      obtain e c3 where e: "s_protocol_event_c ?c2 = (e, c3)" by fastforce
      have "client_ok c3" using e ok [of "c_expiry c \<noteq> 0"] "1.prems"(2) R
        by (auto simp: s_protocol_event_c_def Let_def client_ok_def split: if_splits)
      moreover have "s_client_execute_c f e c3 = Inr t"
        using t(1) True e by (auto simp: protocol_iteration_c_def v Let_def elim!: bind_fault_InrE)
      ultimately show ?thesis using execute_ok by blast
    next
      case False
      then have "t = c\<lparr>c_message := m, c_dealer := sk\<rparr>" using t(1) by (auto simp: protocol_iteration_c_def v Let_def)
      then show ?thesis using R by (simp add: client_ok_def)
    qed
    then show ?thesis using "1.IH" [OF False t(1) refl] t(2) by (cases go) auto
  qed
qed

definition quiet :: "client \<Rightarrow> bool" where
  "quiet c \<longleftrightarrow> client_ok c \<and> active c \<and> c_dealer c = dealer [] []"

lemma command_leaves:
  assumes q: "quiet c" "e \<noteq> NULL_c" and r: "contract f c e = Inr r" "o_sent r = Some m" "\<not> o_stopped r"
  shows "\<exists>c1 k. s_client_execute_c f e c = Inr c1 \<and> in_outcome c r c1 \<and> client_ok c1 \<and> active c1 \<and>
    c_dealer c1 = dealer [] (message_parts k) \<and> message_of k = Some m \<and> codec_ok k"
proof -
  have c: "client_ok c" "active c" "inbound (c_dealer c) = []" using q(1) by (simp_all add: quiet_def)
  obtain c1 k where c1: "s_client_execute_c f e c = Inr c1" "in_outcome c r c1" "client_ok c1" "active c1"
    "inbound (c_dealer c1) = []" "message_of k = Some m" "codec_ok k" "outbound (c_dealer c1) = outbound (c_dealer c) @ message_parts k"
    using request_leaves [OF c q(2) r] by blast
  have "c_dealer c1 = dealer [] (message_parts k)"
    using c1(3,5,8) q(1) by (intro zsock.equality) (simp_all add: client_ok_def quiet_def)
  then show ?thesis using c1 by blast
qed

lemma reply_handled:
  assumes c: "client_ok c" "active c" "c_dealer c = dealer [] out"
    and m: "message_of k = Some m" "codec_ok k" "message_event m \<noteq> NULL_c"
  shows "\<exists>m1. message_of m1 = Some m \<and> (\<forall>n st pl. m = Result n st pl \<longrightarrow> payload m1 = Some pl) \<and>
    (\<forall>r. contract f (holding m1 (c\<lparr>c_dealer := dealer [] []\<rparr>)) (message_event m) = Inr r \<longrightarrow> o_sent r = None \<longrightarrow> \<not> o_stopped r \<longrightarrow>
      (\<exists>c'. s_client_handle_protocol_c f (c\<lparr>c_dealer := dealer (message_parts k) []\<rparr>) = Inr (0, c') \<and> quiet c' \<and>
        in_outcome (holding m1 (c\<lparr>c_dealer := dealer [] []\<rparr>)) r c'))"
proof -
  let ?c = "c\<lparr>c_dealer := dealer [] []\<rparr>" and ?a = "c\<lparr>c_dealer := dealer (message_parts k) []\<rparr>"
  have h: "client_ok ?c" "active ?c" "inbound (c_dealer ?c) = []" "client_ok ?a"
    using c by (simp_all add: client_ok_def active_def)
  have a: "arrive (message_parts k) ?c = ?a" by (simp add: arrive_def)
  have q: "quiet c'" if "s_client_handle_protocol_c f ?a = Inr (0, c')" "in_outcome (holding m1 ?c) r c'"
    "o_sent r = None" "\<not> o_stopped r" for c' r m1
  proof -
    have "client_ok c'" using protocol_handler_ok [OF that(1) h(4)] .
    moreover from this have "c_dealer c' = dealer [] []"
      using that(2,3) by (intro zsock.equality) (simp_all add: client_ok_def in_outcome_def sent_by_def holding_def)
    ultimately show ?thesis using that(2,4) by (simp add: quiet_def active_def in_outcome_def)
  qed
  obtain m1 where m1: "message_of m1 = Some m" "\<forall>n st pl. m = Result n st pl \<longrightarrow> payload m1 = Some pl"
    "\<And>r. contract f (holding m1 ?c) (message_event m) = Inr r \<Longrightarrow>
      \<exists>c'. s_client_handle_protocol_c f ?a = Inr (0, c') \<and> in_outcome (holding m1 ?c) r c'"
    using client_receives [OF h(1-3) m, of f] unfolding a by blast
  have "\<exists>c'. s_client_handle_protocol_c f ?a = Inr (0, c') \<and> quiet c' \<and> in_outcome (holding m1 ?c) r c'"
    if r: "contract f (holding m1 ?c) (message_event m) = Inr r" "o_sent r = None" "\<not> o_stopped r" for r
  proof -
    obtain c' where "s_client_handle_protocol_c f ?a = Inr (0, c')" "in_outcome (holding m1 ?c) r c'" using m1(3) [OF r(1)] by auto
    then show ?thesis using q r(2,3) by auto
  qed
  then show ?thesis using m1(1,2) by auto
qed

section \<open>Saying hello and asking\<close>

lemma hello_leaves:
  assumes q: "quiet c" "c_state c = start_c" and f: "\<not> f (Some (cstring address))"
  shows "\<exists>c1 k. s_client_handle_cmdpipe f (tpq_client_say_hello nick address) c = Inr (0, c1) \<and> client_ok c1 \<and> active c1 \<and>
    c_dealer c1 = dealer [] (message_parts k) \<and> message_of k = Some (Hello (take 255 (cstring (cstring nick)))) \<and> codec_ok k \<and>
    c_state c1 = expect_coverage_c \<and> c_cmdpipe c1 = c_cmdpipe c \<and> c_seqno c1 = c_seqno c"
proof -
  let ?c = "c\<lparr>c_args := (c_args c)\<lparr>arg_nickname := Some (cstring nick), arg_endpoint := Some (cstring address)\<rparr>\<rparr>"
  let ?r = "hello_outcome (take 255 (cstring (cstring nick))) expect_coverage_c ?c"
  have qc: "quiet ?c" using q(1) by (simp add: quiet_def client_ok_def active_def)
  have r: "contract f ?c say_hello_c = Inr ?r" "o_sent ?r = Some (Hello (take 255 (cstring (cstring nick))))" "\<not> o_stopped ?r"
    using q(2) f by (simp_all add: contract_def hello_outcome_def unchanged_def)
  obtain c1 k where c1: "s_client_execute_c f say_hello_c ?c = Inr c1" "in_outcome ?c ?r c1" "client_ok c1" "active c1"
    "c_dealer c1 = dealer [] (message_parts k)" "message_of k = Some (Hello (take 255 (cstring (cstring nick))))" "codec_ok k"
    using command_leaves [OF qc _ r] by auto
  have "s_client_handle_cmdpipe f (tpq_client_say_hello nick address) c = Inr (0, c1)"
    using c1(1,4) by (simp add: s_client_handle_cmdpipe_def tpq_client_say_hello_def active_def)
  then show ?thesis using c1 by (intro exI [of _ c1] exI [of _ k]) (simp add: in_outcome_def hello_outcome_def unchanged_def)
qed

lemma query_leaves:
  assumes q: "quiet c" "c_state c = connected_c" "c_seqno c = 0"
  shows "\<exists>c1 k. s_client_handle_cmdpipe f (tpq_client_query qb qs qm qt) c = Inr (0, c1) \<and> client_ok c1 \<and> active c1 \<and>
    c_dealer c1 = dealer [] (message_parts k) \<and> message_of k = Some (Query 1 qb qs qm qt) \<and> codec_ok k \<and>
    c_state c1 = connected_c \<and> c_cmdpipe c1 = c_cmdpipe c"
proof -
  let ?c = "asked qb qs qm qt c"
  let ?r = "(unchanged ?c)\<lparr>o_sent := Some (Query 1 qb qs qm qt), o_seqno := 1\<rparr>"
  have qc: "quiet ?c" using q(1) by (simp add: quiet_def client_ok_def active_def asked_def)
  have r: "contract f ?c query_c = Inr ?r" "o_sent ?r = Some (Query 1 qb qs qm qt)" "\<not> o_stopped ?r"
    using q(2,3) by (simp_all add: contract_def unchanged_def asked_def)
  obtain c1 k where c1: "s_client_execute_c f query_c ?c = Inr c1" "in_outcome ?c ?r c1" "client_ok c1" "active c1"
    "c_dealer c1 = dealer [] (message_parts k)" "message_of k = Some (Query 1 qb qs qm qt)" "codec_ok k"
    using command_leaves [OF qc _ r] by auto
  then show ?thesis using query_asked [OF c1(1) q(2) c1(2)] by blast
qed

lemma coverage_handled:
  assumes c: "client_ok c" "active c" "c_dealer c = dealer [] out" "c_state c = expect_coverage_c"
    and k: "message_of k = Some (Coverage m)" "codec_ok k"
  shows "\<exists>c'. s_client_handle_protocol_c f (c\<lparr>c_dealer := dealer (message_parts k) []\<rparr>) = Inr (0, c') \<and> quiet c' \<and>
    c_state c' = connected_c \<and> c_cmdpipe c' = c_cmdpipe c @ [Connected 0 m] \<and> c_seqno c' = c_seqno c"
proof -
  let ?h = "\<lambda>m1. holding m1 (c\<lparr>c_dealer := dealer [] []\<rparr>)"
  obtain m1 where m1: "message_of m1 = Some (Coverage m)" and run: "\<And>r. contract f (?h m1) coverage_c = Inr r \<Longrightarrow>
      o_sent r = None \<Longrightarrow> \<not> o_stopped r \<Longrightarrow>
      \<exists>c'. s_client_handle_protocol_c f (c\<lparr>c_dealer := dealer (message_parts k) []\<rparr>) = Inr (0, c') \<and> quiet c' \<and> in_outcome (?h m1) r c'"
    using reply_handled [OF c(1-3) k, of f] by auto
  have "detmask m1 = m" using m1 by (auto simp: message_of_def split: if_splits)
  then have "contract f (?h m1) coverage_c = Inr ((alive_outcome connected_c (?h m1))\<lparr>o_cmd := [Connected 0 m]\<rparr>)"
    using c(4) by (simp add: contract_def holding_def)
  from run [OF this] show ?thesis by (auto simp: in_outcome_def alive_outcome_def unchanged_def holding_def)
qed

lemma result_handled:
  assumes c: "client_ok c" "active c" "c_dealer c = dealer [] out" "c_state c = connected_c"
    and k: "message_of k = Some (Result n st fs)" "codec_ok k"
  shows "\<exists>c'. s_client_handle_protocol_c f (c\<lparr>c_dealer := dealer (message_parts k) []\<rparr>) = Inr (0, c') \<and> quiet c' \<and>
    c_cmdpipe c' = c_cmdpipe c @ [ResultReply n st fs]"
proof -
  let ?h = "\<lambda>m1. holding m1 (c\<lparr>c_dealer := dealer [] []\<rparr>)"
  obtain m1 where m1: "message_of m1 = Some (Result n st fs)" "payload m1 = Some fs" and run: "\<And>r. contract f (?h m1) result_c = Inr r \<Longrightarrow>
      o_sent r = None \<Longrightarrow> \<not> o_stopped r \<Longrightarrow>
      \<exists>c'. s_client_handle_protocol_c f (c\<lparr>c_dealer := dealer (message_parts k) []\<rparr>) = Inr (0, c') \<and> quiet c' \<and> in_outcome (?h m1) r c'"
    using reply_handled [OF c(1-3) k, of f] by auto
  have "seqno m1 = n" "status m1 = st" using m1(1) by (auto simp: message_of_def split: if_splits)
  then have "contract f (?h m1) result_c = Inr ((unchanged (?h m1))\<lparr>o_cmd := [ResultReply n st fs]\<rparr>)"
    using m1(2) c(4) by (simp add: contract_def holding_def)
  from run [OF this] show ?thesis by (auto simp: in_outcome_def unchanged_def holding_def)
qed

section \<open>The server\<close>

text \<open>The fourth set answers a query for \<open>[4000, 4100)\<close>, whatever has arrived besides.\<close>

lemma fourth_set:
  assumes l: "server_test_library x lib" and h: "holds_sets purged n (iq s)" "4 \<le> n" "n < 10"
    and p: "payloads s = map (\<lambda>i. new_payload x (nth_set lib i)) [0..<n]" and q: "query_beg m = 4000" "query_end m = 4100"
  shows "matching_frames x m s = [encode_msg x (nth_set lib 3)]"
proof -
  have "i < n \<and> (\<exists>t. 4000 \<le> t \<and> t < 4100 \<and> in_set i t \<and> (purged \<longrightarrow> 4000 \<le> t)) \<longleftrightarrow> i = 3" for i
  proof -
    have "max 4000 (1000 * (int i + 1)) < min 4100 (1000 * (int i + 1) + 100) \<longleftrightarrow> i = 3" by (simp add: max_def min_def) arith
    then show ?thesis unfolding meets_set using h(2) by auto
  qed
  then have "set [3] = {i. i < n \<and> (\<exists>t. query_beg m \<le> t \<and> t < query_end m \<and> in_set i t \<and> (purged \<longrightarrow> 4000 \<le> t))}"
    unfolding q by auto
  from matching_sets [OF l h(1) p h(3) _ this] show ?thesis by simp
qed

text \<open>The call of the ingest handler that answers a waiting request.\<close>

lemma ingest_due_sets:
  assumes l: "server_test_library x lib" and a: "arrived x lib n s" and n: "n + j \<le> 6" "4 \<le> n + j"
    and p: "pending s = [(4100, [req])]" "request_alive s req" and m: "query_beg (message s) = 4000" "query_end (message s) = 4100"
  shows "\<exists>s'. s_server_handle_ingest x (map (nth_set lib) [n..<n + j]) s = Inr s' \<and> arrived x lib (n + j) s' \<and> pending s' = [] \<and>
    sent_to (rid_of s (rq_client req)) (Some (Result (rq_seqno req) 200 [encode_msg x (nth_set lib 3)])) s s' \<and>
    inbound (router s') = inbound (router s)"
proof -
  let ?N = "n + j" and ?msgs = "map (nth_set lib) [n..<n + j]"
  have s: "system_inv x s" "server_inv x s" "queue_inv (iq s)" "pending_inv s" "pending_sorted s"
    "own_detmask s = test_detmask" "iq_lwm s = 2100" "iq_hwm s = 4100"
    using a by (simp_all add: arrived_def system_inv_def pending_inv_def)
  obtain s1 where s1: "slurp x ?msgs s = Inr s1" and h: "holds_sets (6 \<le> n) ?N (iq s1)"
    and pl: "payloads s1 = map (\<lambda>i. new_payload x (nth_set lib i)) [0..<?N]"
    using slurp_sets [OF l a, of j] n by auto
  note F = slurp_frame [OF s1] and Q = slurp_queue [OF s1 s(3)]
  have "?N \<noteq> 0" using n(2) by linarith
  then have u: "4100 \<le> upper_map (iq s1)" using sets_span(2) [OF h n(1)] n(2) by (simp split: if_splits)
  have d: "due_requests (upper_map (iq s1)) (pending s) = [req]" using u by (simp add: p(1) due_requests_def)
  have "matching_frames x (message s1) s1 = [encode_msg x (nth_set lib 3)]"
    using fourth_set [OF l h n(2) _ pl] n(1) m F by simp
  then have re: "request_reply x s1 req = (rid_of s (rq_client req), Result (rq_seqno req) 200 [encode_msg x (nth_set lib 3)])"
    using F by (simp add: request_reply_def rid_of_def)
  have al: "\<forall>r\<in>set (due_requests (upper_map (iq s1)) (pending s)). request_alive s r" using p(2) d by simp
  obtain s' where s': "s_server_handle_ingest x ?msgs s = Inr s'" "payloads s' = payloads s @ incoming x ?msgs s"
    "inbound (router s') = inbound (router s)"
    "replies_sent [(rid_of s (rq_client req), Result (rq_seqno req) 200 [encode_msg x (nth_set lib 3)])] s s'"
    "pending s' = filter (\<lambda>(k, _). upper_map (iq s1) < k) (pending s)"
    "iq s' = (if of_i64 (upper_map (iq s1) - lower_map (iq s1)) > iq_hwm s
             then queue_cut (iq s1) 0 (to_i64 (of_i64 (upper_map (iq s1)) - iq_lwm s)) else iq s1)"
    using ingest_run [OF s(2,3,5) s1 al sets_span(1) [OF h n(1)]] unfolding d by (auto simp: re)
  have "iq s' = purged_queue (iq s1)" by (simp add: s'(6) purged_queue_def Let_def s(7,8))
  then have "holds_sets (6 \<le> ?N) ?N (iq s')" using sets_purged [OF h n(1)] by simp
  moreover have "payloads s' = map (\<lambda>i. new_payload x (nth_set lib i)) [0..<?N]" using Q pl s'(2) by simp
  ultimately have "arrived x lib ?N s'"
    using ingest_system_inv [OF s(1) s'(1)] ingest_settings [OF s(2,4) s'(1)] s(6-8) by (simp add: arrived_def)
  moreover have "pending s' = []" using s'(5) u p(1) by simp
  ultimately show ?thesis using s'(1,3) one_reply_sent [OF s'(4)] by blast
qed

lemma arrived_sent_all: "arrived x lib n s \<Longrightarrow> arrived x lib n (sent_all s)"
  using sent_all_inv [of x s] by (simp add: arrived_def sent_all_same) (simp add: sent_all_def)

lemma waits_for_fourth:
  assumes l: "server_test_library x lib"
    and "arrived x lib n s" "n < 4" "pending s = [(4100, [req])]" "request_alive s req" "outbound (router s) = []"
    "query_beg (message s) = 4000" "query_end (message s) = 4100" "concat batches = map (nth_set lib) [n..<6]"
  shows "\<exists>k s'. ingest_turns x batches (dealer [] [], s) = Inr (dealer (message_parts k) [], s') \<and> codec_ok k \<and>
    message_of k = Some (Result (rq_seqno req) 200 [encode_msg x (nth_set lib 3)])"
  using assms(2-)
proof (induction batches arbitrary: n s)
  case Nil
  then show ?case by simp
next
  case (Cons b bs)
  let ?N = "n + length b"
  have n6: "n \<le> 6" using Cons.prems(2) by simp
  have sp: "?N \<le> 6" "b = map (nth_set lib) [n..<?N]" "concat bs = map (nth_set lib) [?N..<6]"
    using split_batches [of b bs lib n 6] Cons.prems(8) n6 by simp_all
  show ?case
  proof (cases "?N < 4")
    case True
    have "\<forall>(k, rs)\<in>set (pending s). 1000 * int ?N + 100 < k" using True by (simp add: Cons.prems(3))
    from ingest_sets [OF l Cons.prems(1) sp(1) this]
    obtain s1 where s1: "s_server_handle_ingest x b s = Inr s1" "arrived x lib ?N s1" "same_sessions s s1"
      using sp(2) by auto
    then have o: "outbound (router s1) = []" using Cons.prems(5) by (simp add: same_sessions_def)
    have "request_alive s1 req" using s1(3) Cons.prems(4) by (simp add: same_sessions_def request_alive_def)
    then show ?thesis
      using Cons.IH [OF s1(2) True _ _ o _ _ sp(3)] s1(1,3) o Cons.prems(3,6,7)
      by (simp add: no_replies_arrive same_sessions_def)
  next
    case False
    then have "4 \<le> ?N" by simp
    from ingest_due_sets [OF l Cons.prems(1) sp(1) this Cons.prems(3,4,6,7)]
    obtain s1 where s1: "s_server_handle_ingest x b s = Inr s1" "arrived x lib ?N s1" "pending s1 = []"
      "sent_to (rid_of s (rq_client req)) (Some (Result (rq_seqno req) 200 [encode_msg x (nth_set lib 3)])) s s1"
      using sp(2) by auto
    obtain k where k: "replies_arrive (dealer [] []) s1 = (dealer (message_parts k) [], sent_all s1)"
      "message_of k = Some (Result (rq_seqno req) 200 [encode_msg x (nth_set lib 3)])" "codec_ok k"
      using reply_arrives [OF s1(4) Cons.prems(5)] by auto
    from ingest_turns_sets [OF l arrived_sent_all [OF s1(2)] sp(3,1)]
    obtain s2 where "ingest_turns x bs (dealer (message_parts k) [], sent_all s1) = Inr (dealer (message_parts k) [], s2)"
      using s1(3) by (auto simp: sent_all_same)
    then show ?thesis using s1(1) k by auto
  qed
qed

text \<open>A query for the fourth set, at any time.\<close>

lemma query_arrives:
  assumes l: "server_test_library x lib" and t: "test_server x lib n s" "sender_state x rid s = connected_state" and n: "n \<le> 6"
    and k: "message_of k = Some (Query i 4000 100 test_detmask qt)" "codec_ok k" and b: "concat batches = map (nth_set lib) [n..<6]"
  shows "\<exists>st r s'. router_turn x rid (dealer [] (message_parts k), s) = Inr st \<and>
    ingest_turns x batches st = Inr (dealer (message_parts r) [], s') \<and> codec_ok r \<and>
    message_of r = Some (Result i 200 [encode_msg x (nth_set lib 3)])"
proof -
  have s: "arrived x lib n s" "system_inv x s" "server_inv x s" "pending_inv s" "inj (strhex x)" "inbound (router s) = []"
    "outbound (router s) = []" "pending s = []" "holds_sets (6 \<le> n) n (iq s)" "queue_inv (iq s)"
    "payloads s = map (\<lambda>i. new_payload x (nth_set lib i)) [0..<n]"
    using t(1) l by (simp_all add: test_server_def arrived_def system_inv_def server_test_library_def)
  have qk: "query_beg m = 4000" "query_end m = 4100" "detmask m = test_detmask"
    if "message_of m = Some (Query i 4000 100 test_detmask qt)" for m
    using query_fields [OF that] by (simp_all add: to_i64_def)
  note K = qk [OF k(1)]
  show ?thesis
  proof (cases "4 \<le> n")
    case True
    then have n0: "0 < n" by simp
    have "lower_map (iq s) \<le> 4000" "4100 \<le> upper_map (iq s)"
      using set_bounds [OF s(9) n0] True n by (auto split: if_splits)
    then have v: "verdict k s = Satisfied" by (simp add: verdict_def K query_is_bogus_def test_detmask_def)
    have f: "matching_frames x k s = [encode_msg x (nth_set lib 3)]" using fourth_set [OF l s(9) True _ s(11) K(1,2)] n by simp
    obtain r s1 where r: "s_server_handle_protocol x (deliver ((rid, True) # message_parts k) s) = Inr (0, s1)"
      "replies_arrive (dealer [] []) s1 = (dealer (message_parts r) [], sent_all s1)" "codec_ok r"
      "message_of r = Some (Result i 200 [encode_msg x (nth_set lib 3)])" "test_server x lib n (sent_all s1)"
      using query_reply_arrives [OF l t k] v f by auto
    from ingest_turns_sets [OF l _ b n, of "sent_all s1"] r(5)
    obtain s2 where "ingest_turns x batches (dealer (message_parts r) [], sent_all s1) = Inr (dealer (message_parts r) [], s2)"
      by (auto simp: test_server_def)
    then show ?thesis using router_turn_run [OF r(1), of "[]"] r(2-4) by auto
  next
    case False
    have "lower_map (iq s) < 4100 \<and> upper_map (iq s) < 4100"
      using sets_span(2) [of n 0 "iq s"] s(9) False by (auto split: if_splits)
    then have v: "verdict k s = Waiting" by (simp add: verdict_def K query_is_bogus_def test_detmask_def)
    from waiting_stored [OF s(3-6) k t(2) v]
    obtain s1 p where s1: "s_server_handle_protocol x (deliver ((rid, True) # message_parts k) s) = Inr (0, s1)"
        "outbound (router s1) = outbound (router s)"
      and m: "message_of (message s1) = Some (Query i 4000 100 test_detmask qt)"
      and r: "request_alive s1 (waiting_request p (message s1))"
        "pending s1 = push_request (query_end (message s1)) (waiting_request p (message s1)) (pending s)"
      by blast
    note M = qk [OF m]
    have "seqno (message s1) = i" using m by (auto simp: message_of_def split: if_splits)
    then have rs: "rq_seqno (waiting_request p (message s1)) = i" by (simp add: waiting_request_def)
    have o: "outbound (router s1) = []" using s1(2) s(7) by simp
    have "system_inv x s1" using protocol_system_inv [OF deliver_inv [OF s(2)] s1(1)] .
    then have ar: "arrived x lib n s1"
      using message_keeps [OF s(3,6) k s1(1)] s(1) by (simp add: arrived_def same_settings_def)
    have "pending s1 = [(4100, [waiting_request p (message s1)])]" using r(2) s(8) M(2) by simp
    from waits_for_fourth [OF l ar _ this r(1) o M(1,2) b] False rs
    obtain z s' where "ingest_turns x batches (dealer [] [], s1) = Inr (dealer (message_parts z) [], s')" "codec_ok z"
      "message_of z = Some (Result i 200 [encode_msg x (nth_set lib 3)])"
      by auto
    moreover have "router_turn x rid (dealer [] (message_parts k), s) = Inr (dealer [] [], s1)"
      using router_turn_run [OF s1(1), of "[]"] no_replies_arrive [OF o] by simp
    ultimately show ?thesis by blast
  qed
qed

section \<open>The whole test\<close>

lemma client_turn_run:
  assumes "s_client_handle_cmdpipe f cmd c = Inr (rc, c1)" "c_dealer c1 = dealer [] (message_parts k)"
    "router_turn x rid (dealer [] (message_parts k), s) = Inr st" "ingest_turns x batches st = Inr (dealer ps [], s')"
    "s_client_handle_protocol_c f (c1\<lparr>c_dealer := dealer ps []\<rparr>) = Inr (rc', c2)"
  shows "client_turn f x rid cmd batches (c, s) = Inr (c2, s')"
  using assms by (simp add: client_turn_def)

lemma hello_asserted:
  assumes l: "server_test_library x lib" and t: "test_server x lib n s" "clients s (strhex x rid) = None"
    and b: "concat batches = map (nth_set lib) [n..<N]" "n \<le> N" "N \<le> 6"
    and c: "quiet c" "c_state c = start_c" "c_cmdpipe c = []" "\<not> f (Some (cstring address))"
  shows "\<exists>c' s'. asserted_call f x rid (tpq_client_say_hello nick address) say_hello_returns batches (a, c, s) =
      Inr (Some (a\<lparr>a_status := 0, a_detmask := test_detmask\<rparr>, c', s')) \<and>
    quiet c' \<and> c_state c' = connected_c \<and> c_cmdpipe c' = [] \<and> c_seqno c' = c_seqno c \<and>
    test_server x lib N s' \<and> sender_state x rid s' = connected_state"
proof -
  obtain c1 k where c1: "s_client_handle_cmdpipe f (tpq_client_say_hello nick address) c = Inr (0, c1)" "client_ok c1" "active c1"
    "c_dealer c1 = dealer [] (message_parts k)" "message_of k = Some (Hello (take 255 (cstring (cstring nick))))" "codec_ok k"
    "c_state c1 = expect_coverage_c" "c_cmdpipe c1 = []" "c_seqno c1 = c_seqno c"
    using hello_leaves [where f = f and nick = nick, OF c(1,2,4)] c(3) by auto
  obtain r s1 where r: "s_server_handle_protocol x (deliver ((rid, True) # message_parts k) s) = Inr (0, s1)"
    "replies_arrive (dealer [] []) s1 = (dealer (message_parts r) [], sent_all s1)" "codec_ok r"
    "message_of r = Some (Coverage test_detmask)" "test_server x lib n (sent_all s1)" "sender_state x rid (sent_all s1) = connected_state"
    using hello_reply_arrives [OF l t c1(5,6)] by blast
  from ingest_turns_sets [OF l _ b, of "sent_all s1" "dealer (message_parts r) []"] r(5)
  obtain s2 where s2: "ingest_turns x batches (dealer (message_parts r) [], sent_all s1) = Inr (dealer (message_parts r) [], s2)"
    "arrived x lib N s2" "same_sessions (sent_all s1) s2"
    by (auto simp: test_server_def)
  obtain c2 where c2: "s_client_handle_protocol_c f (c1\<lparr>c_dealer := dealer (message_parts r) []\<rparr>) = Inr (0, c2)" "quiet c2"
    "c_state c2 = connected_c" "c_cmdpipe c2 = [Connected 0 test_detmask]" "c_seqno c2 = c_seqno c"
    using coverage_handled [OF c1(2-4,7) r(4,3), of f] c1(8,9) by auto
  have "router_turn x rid (dealer [] (message_parts k), s) = Inr (dealer (message_parts r) [], sent_all s1)"
    using router_turn_run [OF r(1), of "[]"] r(2) by simp
  note T = client_turn_run [OF c1(1,4) this s2(1) c2(1)]
  have "test_server x lib N s2" "sender_state x rid s2 = connected_state"
    using r(5,6) s2(2,3) same_sessions_sender [OF s2(3)] by (simp_all add: test_server_def same_sessions_def)
  moreover have "quiet (c2\<lparr>c_cmdpipe := []\<rparr>)" using c2(2) by (simp add: quiet_def client_ok_def active_def)
  ultimately show ?thesis using c2 say_hello_returns_connected [of test_detmask "[]" a]
    by (intro exI [of _ "c2\<lparr>c_cmdpipe := []\<rparr>"] exI [of _ s2]) (simp add: asserted_call_def T)
qed

lemma query_asserted:
  assumes l: "server_test_library x lib" and t: "test_server x lib n s" "sender_state x rid s = connected_state"
    and b: "concat batches = map (nth_set lib) [n..<6]" "n \<le> 6"
    and c: "quiet c" "c_state c = connected_c" "c_cmdpipe c = []" "c_seqno c = 0" and a: "a_status a = 0"
  shows "\<exists>c' s'. asserted_call f x rid (tpq_client_query 4000 100 test_detmask qt) query_returns batches (a, c, s) =
      Inr (Some (a\<lparr>a_payload := Some [encode_msg x (nth_set lib 3)], a_seqno := 1, a_status := 200\<rparr>, c', s'))"
proof -
  obtain c1 k where c1: "s_client_handle_cmdpipe f (tpq_client_query 4000 100 test_detmask qt) c = Inr (0, c1)" "client_ok c1" "active c1"
    "c_dealer c1 = dealer [] (message_parts k)" "message_of k = Some (Query 1 4000 100 test_detmask qt)" "codec_ok k"
    "c_state c1 = connected_c" "c_cmdpipe c1 = []"
    using query_leaves [OF c(1,2,4), of f 4000 100 test_detmask qt] c(3) by auto
  obtain st r s1 where r: "router_turn x rid (dealer [] (message_parts k), s) = Inr st"
    "ingest_turns x batches st = Inr (dealer (message_parts r) [], s1)" "codec_ok r"
    "message_of r = Some (Result 1 200 [encode_msg x (nth_set lib 3)])"
    using query_arrives [OF l t b(2) c1(5,6) b(1)] by blast
  obtain c2 where c2: "s_client_handle_protocol_c f (c1\<lparr>c_dealer := dealer (message_parts r) []\<rparr>) = Inr (0, c2)"
    "c_cmdpipe c2 = [ResultReply 1 200 [encode_msg x (nth_set lib 3)]]"
    using result_handled [OF c1(2-4,7) r(4,3), of f] c1(8) by auto
  note T = client_turn_run [OF c1(1,4) r(1,2) c2(1)]
  have "a_status a < 2 ^ 16" using a by simp
  from query_returns_result [OF this, of 1 200 _ "[]"]
  show ?thesis using c2(2) a by (simp add: asserted_call_def T)
qed



end
