(* ===== verification/ReplyProps.thy ===== *)
theory ReplyProps
  imports ServerTestProps
begin

text \<open>
  What reaches a client of the server over several messages: the frames of a result, from any
  reachable state, and the effect of a truncated frame after a complete message, which depends on
  what the shared codec holds then.
\<close>

section \<open>Results\<close>

text \<open>C21: in every reachable state, the reply to a query of a connected client that the server can answer,
  in full or in part, is one result with the number of the query and its status. It carries every
  payload that the queue holds for a time of the interval asked for and no other, each once, in
  the order of the start times, and the own interval of each meets the one asked for.\<close>

theorem result_sound:
  assumes "server_reachable x px s" "inj (strhex x)" "inbound (router s) = []" "sender_state x rid s = connected_state"
    "message_of k = Some (Query n qb qs qm qt)" "codec_ok k" "verdict k s = Satisfied \<or> verdict k s = Partial"
  shows "\<exists>s' is. s_server_handle_protocol x (deliver ((rid, True) # message_parts k) s) = Inr (0, s') \<and>
    sent_to rid (Some (Result n (result_status (verdict k s)) (map (\<lambda>i. payload_encode x (payloads s ! i)) is))) s s' \<and>
    distinct is \<and> sorted (map (\<lambda>i. pl_tstart (payloads s ! i)) is) \<and>
    (\<forall>i. i \<in> set is \<longleftrightarrow> (\<exists>t. to_i64 qb \<le> t \<and> t < to_i64 (qb + qs) \<and> i |\<in>| queue_at (iq s) t)) \<and>
    (\<forall>i\<in>set is. i < length (payloads s) \<and> (\<exists>t. to_i64 qb \<le> t \<and> t < to_i64 (qb + qs) \<and> in_payload t (payloads s ! i)))"
proof -
  have s: "server_inv x s" "queue_inv (iq s)" "stored_ok s" using reachable_inv [OF assms(1)] by (simp_all add: system_inv_def)
  note K = query_fields [OF assms(5)]
  obtain js where js: "matching_frames x k s = map (\<lambda>i. payload_encode x (payloads s ! i)) js" "distinct js"
    "sorted (map (\<lambda>i. pl_tstart (payloads s ! i)) js)"
    "set js = {i. \<exists>t. to_i64 qb \<le> t \<and> t < to_i64 (qb + qs) \<and> i |\<in>| queue_at (iq s) t}"
    using matching_indices [OF s(2), of x k] by (auto simp: K)
  have re: "fst (reaction x (s\<lparr>message := m\<rparr>) connected_state (s_protocol_event m)) =
      Some (Result n (result_status (verdict k s)) (matching_frames x k s))"
    if m: "message_of m = Some (Query n qb qs qm qt)" for m
  proof -
    have "verdict m s = verdict k s" "matching_frames x m s = matching_frames x k s"
      using query_fields [OF m] K by (simp_all add: verdict_def matching_frames_def)
    then show ?thesis using assms(7) unfolding query_reaction [OF m] result_frames_def by auto
  qed
  from server_receives [OF s(1) assms(2,3,5,6), of rid] obtain s' where
    "s_server_handle_protocol x (deliver ((rid, True) # message_parts k) s) = Inr (0, s')"
    "sent_to rid (Some (Result n (result_status (verdict k s)) (matching_frames x k s))) s s'"
    using re by (auto simp: assms(4))
  moreover have "\<forall>i\<in>set js. i < length (payloads s) \<and> (\<exists>t. to_i64 qb \<le> t \<and> t < to_i64 (qb + qs) \<and> in_payload t (payloads s ! i))"
    using s(3) unfolding js(4) stored_ok_def by blast
  ultimately show ?thesis using js by (intro exI [of _ s'] exI [of _ js]) auto
qed

text \<open>A server that is configured over the pipe, has read the six sets and was greeted, for the witnesses.\<close>

lemma pipe_command_step:
  assumes "pipe_command x px msg a s = Inr s'" "fst (zmsg_popstr msg) \<noteq> Some (bytes ''$TERM'')"
  shows "server_step x px s s'"
proof -
  obtain rc replies where r: "s_server_handle_pipe x px msg s = Inr (rc, s', replies)"
    using assms(1) by (auto simp: pipe_command_def assert_or_def elim!: bind_fault_InrE split: if_splits)
  then have "rc = 0" using assms(2)
    by (auto simp: s_server_handle_pipe_def bind_fault_Inr_iff Let_def split: prod.splits option.splits if_splits)
  then show ?thesis using r server_step.pipe_input by simp
qed

lemma pipe_command_reachable:
  assumes "server_reachable x px s" "pipe_command x px (bytes m # args) a s = Inr s'"
    "m \<in> set [''BIND'', ''INGEST'', ''DETMASK'', ''QUEUE'']"
  shows "server_reachable x px s'"
proof -
  have "\<forall>m\<in>set [''BIND'', ''INGEST'', ''DETMASK'', ''QUEUE'']. cstring (bytes m) \<noteq> bytes ''$TERM''" by code_simp
  then have "fst (zmsg_popstr (bytes m # args)) \<noteq> Some (bytes ''$TERM'')" using assms(3) by (auto simp: zmsg_popstr_def)
  from pipe_command_step [OF assms(2) this] show ?thesis by (rule server_reachable.stepped [OF assms(1)])
qed

lemma setup_reachable:
  assumes "s_setup_server x px lib address dmask False s = Inr s'" "server_reachable x px s"
  shows "server_reachable x px s'"
proof -
  obtain s1 s2 s3 where "pipe_command x px [bytes ''BIND'', address] None s = Inr s1"
    "pipe_command x px [bytes ''INGEST'', tp_config lib] (Some ''INGEST OK'') s1 = Inr s2"
    "pipe_command x px [bytes ''DETMASK'', in_base 10 (unat dmask)] (Some ''DETMASK OK'') s2 = Inr s3"
    "pipe_command x px [bytes ''QUEUE'', in_base 10 2100, in_base 10 4100] (Some ''QUEUE OK'') s3 = Inr s'"
    using assms(1) unfolding s_setup_server_def if_False bind_fault.simps by (elim bind_fault_InrE) blast
  note c = this [THEN pipe_command_reachable [rotated]]
  have "server_reachable x px s3" using c(1-3) assms(2) by simp
  then show ?thesis using c(4) by simp
qed

lemma sample_reachable:
  "\<exists>s. server_reachable sample_test_extern sample_pipe_extern s \<and> inbound (router s) = [] \<and>
     sender_state sample_test_extern [9] s = connected_state \<and> pending s = [] \<and>
     holds_sets True 6 (iq s) \<and> own_detmask s = test_detmask"
proof -
  let ?x = sample_test_extern and ?px = sample_pipe_extern and ?lib = sample_test_lib
  obtain s0 where s0: "s_setup_server ?x ?px ?lib [105, 0] test_detmask False (s_server_new 17) = Inr s0"
    "arrived ?x ?lib 0 s0" "same_sessions (s_server_new 17) s0" "ingest s0"
    using setup_runs [OF sample_test_library] by blast
  have e: "pending s0 = []" "router s0 = idle ROUTER" "clients s0 = Map.empty"
    using s0(3) by (simp_all add: same_sessions_def s_server_new_def server_initialize_def s_server_config_global_def Let_def)
  obtain s1 where s1: "s_server_handle_ingest ?x (map (nth_set ?lib) [0..<6]) s0 = Inr s1" "arrived ?x ?lib 6 s1"
    "same_sessions s0 s1"
    using ingest_sets [OF sample_test_library s0(2), of 6] e(1) by auto
  have t: "test_server ?x ?lib 6 s1" "clients s1 (strhex ?x [9]) = None"
    using s1 e by (simp_all add: test_server_def same_sessions_def idle_def)
  let ?h = "tpq_codec_set_nickname (tpq_codec_new\<lparr>codec_id := 1\<rparr>) (bytes ''tpq_server_test'')"
  obtain m where k: "message_of ?h = Some (Hello m)" "codec_ok ?h"
    using codec_ok_new strncpy_ok(1) by (simp add: message_of_def codec_ids tpq_codec_set_nickname_def codec_ok_def buf_ok_def)
  obtain s2 where s2: "s_server_handle_protocol ?x (deliver (([9], True) # message_parts ?h) s1) = Inr (0, s2)"
    "test_server ?x ?lib 6 (sent_all s2)" "sender_state ?x [9] (sent_all s2) = connected_state"
    using hello_reply_arrives [OF sample_test_library t k] by blast
  have "server_reachable ?x ?px s2"
    using setup_reachable [OF s0(1) server_reachable.created] server_step.ingest_input [OF s0(4) s1(1)]
      server_step.router_input [OF s2(1)] server_reachable.stepped by blast
  then show ?thesis using s2(2,3)
    by (intro exI [of _ s2], simp add: test_server_def arrived_def sent_all_same) (simp add: sent_all_def)
qed

lemma result_sound_witness:
  "\<exists>s k s' is. server_reachable sample_test_extern sample_pipe_extern s \<and>
     message_of k = Some (Query 1 0 5001 test_detmask 0) \<and>
     s_server_handle_protocol sample_test_extern (deliver (([9], True) # message_parts k) s) = Inr (0, s') \<and>
     sent_to [9] (Some (Result 1 206 (map (\<lambda>i. payload_encode sample_test_extern (payloads s ! i)) is))) s s' \<and>
     distinct is \<and> set is = {3, 4}"
proof -
  let ?x = sample_test_extern
  obtain s where s: "server_reachable ?x sample_pipe_extern s" "inbound (router s) = []"
    "sender_state ?x [9] s = connected_state" "holds_sets True 6 (iq s)" "own_detmask s = test_detmask"
    using sample_reachable by blast
  define k where "k = query_request 1 0 5001 tpq_codec_new"
  have K: "message_of k = Some (Query 1 0 5001 test_detmask 0)" "codec_ok k"
    using query_request_sent [OF codec_ok_new, of 1 0 5001] by (simp_all add: k_def tpq_codec_new_def)
  have b: "to_i64 0 = 0" "to_i64 (0 + 5001) = 5001" by (simp_all add: to_i64_def)
  have v: "verdict k s = Partial"
    using set_bounds [OF s(4)] query_fields [OF K(1)]
    by (simp add: verdict_def query_is_bogus_def test_detmask_def to_i64_def)
  have inj: "inj (strhex ?x)" using sample_test_library by (simp add: server_test_library_def)
  obtain s' js where r: "s_server_handle_protocol ?x (deliver (([9], True) # message_parts k) s) = Inr (0, s')"
    "sent_to [9] (Some (Result 1 (result_status (verdict k s)) (map (\<lambda>i. payload_encode ?x (payloads s ! i)) js))) s s'"
    "distinct js" "\<forall>i. i \<in> set js \<longleftrightarrow> (\<exists>t. to_i64 0 \<le> t \<and> t < to_i64 (0 + 5001) \<and> i |\<in>| queue_at (iq s) t)"
    using result_sound [OF s(1) inj s(2,3) K] v by blast
  have "i < 6 \<and> (\<exists>t. 0 \<le> t \<and> t < 5001 \<and> in_set i t \<and> (True \<longrightarrow> 4000 \<le> t)) \<longleftrightarrow> i = 3 \<or> i = 4" for i
    unfolding meets_set by auto
  then have "i \<in> set js \<longleftrightarrow> i = 3 \<or> i = 4" for i
    using s(4) unfolding r(4) [rule_format] b holds_sets_def by blast
  then have "set js = {3, 4}" by blast
  then show ?thesis using s(1) K(1) r v by (intro exI [of _ s] exI [of _ k] exI [of _ s'] exI [of _ js]) simp
qed

section \<open>What the shared codec holds afterwards\<close>

text \<open>A reply leaves its own id in the codec, and no reply is a message of a client.\<close>

definition quiet_or_replied :: "part list \<Rightarrow> server \<Rightarrow> bool" where
  "quiet_or_replied ps s \<longleftrightarrow> outbound (router s) = ps \<or> s_protocol_event (message s) = terminate_event"

lemma pass_replied: "quiet_or_replied ps s \<Longrightarrow> quiet_or_replied ps (pass x p c s)"
proof -
  have r: "s_protocol_event (message (reply d i t)) = terminate_event"
    if "i \<in> {TPQ_CODEC_COVERAGE, TPQ_CODEC_RESULT, TPQ_CODEC_PONG, TPQ_CODEC_GOODBYE_OK, TPQ_CODEC_ERROR}" for d i t
    using that by (auto simp: reply_def Let_def s_protocol_event_def codec_ids)
  have e: "s_protocol_event (m\<lparr>status := st\<rparr>) = s_protocol_event m" for m st by (simp add: s_protocol_event_def)
  let ?c = "begin_event c"
  let ?t = "put_client p ?c s"
  have "quiet_or_replied ps ?t \<Longrightarrow> quiet_or_replied ps (react x p ?c ?t)"
    by (cases "cl_state ?c"; cases "verdict (message ?t) ?t";
      simp add: react_def Let_def quiet_or_replied_def r e after_query_def frame_simps)
  then show "quiet_or_replied ps s \<Longrightarrow> quiet_or_replied ps (pass x p c s)"
    by (simp add: pass_def quiet_or_replied_def frame_simps)
qed

lemma execute_replied:
  assumes "client_inv s" "heap s p = Some c" "s_client_execute x p e s = Inr s'"
  shows "quiet_or_replied (outbound (router s)) s'"
proof (rule execute_keeps [of "quiet_or_replied (outbound (router s))", OF pass_replied _ _ assms(1,2) _ assms(3)])
  show "quiet_or_replied (outbound (router s)) s" by (simp add: quiet_or_replied_def)
qed (auto simp: quiet_or_replied_def frame_simps)

lemma iteration_replied:
  assumes i: "server_inv x s" and r: "tpq_codec_recv (message s) (router s) = (0, m, sk)" "outbound sk = outbound (router s)"
    and s': "protocol_iteration x s = Inr (s', True)"
  shows "quiet_or_replied (outbound (router s)) s'"
proof -
  let ?s1 = "s\<lparr>message := m, router := sk\<rparr>"
  obtain rid where m: "routing_id m = Some rid" using r(1) s' by (auto simp: protocol_iteration_def Let_def split: option.splits)
  obtain p s2 where p: "client_of_sender x rid ?s1 = (p, s2)" by fastforce
  have st: "sock_type (router s) = ROUTER" "codec_ok (message s)" using i by (simp_all add: server_inv_def)
  have ok: "codec_ok m" "sock_type sk = ROUTER"
    using recv_codec_ok [OF st(2), of "router s"] recv_socket [OF r(1)] r(1) st(1) by simp_all
  have "server_inv x ?s1" using i ok by (auto simp: server_inv_def keys_inv_def client_inv_def table_inv_def next_of_def)
  note S = client_of_sender_inv [OF this p]
  obtain c where "heap s2 p = Some c" using S(4) by blast
  moreover have "client_inv s2" using S(1) by (simp add: server_inv_def)
  moreover have "s_client_execute x p (s_protocol_event m) s2 = Inr s'"
    using s' r(1) m p by (auto simp: protocol_iteration_def Let_def bind_fault_Inr_iff)
  ultimately show ?thesis using execute_replied [of s2 p c x] S(3) r(2) by simp
qed

text \<open>One part is read as a message in one pass, and what was delivered before was read.\<close>

lemma handler_one_pass:
  assumes "protocol_iteration x s = Inr (s', True)" "inbound (router s) \<noteq> []" "inbound (router s') = []"
  shows "s_server_handle_protocol x s = Inr (0, s')"
  using assms by (subst s_server_handle_protocol.simps) (simp, simp add: s_server_handle_protocol.simps)

lemma answered_codec:
  assumes s: "server_inv x s" "inbound (router s) = []" "inj (strhex x)" and k: "message_of k = Some m" "codec_ok k"
    and h: "s_server_handle_protocol x (deliver ((rid, True) # message_parts k) s) = Inr (0, s')"
    and o: "outbound (router s') \<noteq> outbound (router s)"
  shows "s_protocol_event (message s') = terminate_event"
proof -
  let ?s0 = "deliver ((rid, True) # message_parts k) s"
  have i: "server_inv x ?s0" "inbound (router ?s0) = (rid, True) # message_parts k @ []"
    using s by (simp add: deliver_server_inv, simp add: deliver_def)
  obtain m1 where m1: "tpq_codec_recv (message ?s0) (router ?s0) = (0, m1, (router ?s0)\<lparr>inbound := []\<rparr>)"
    using message_received [OF i(1) k i(2)] by blast
  obtain t where t: "protocol_iteration x ?s0 = Inr (t, True)" "inbound (router t) = []"
    using protocol_message [OF i(1) s(3) k i(2)] by blast
  then have "s' = t" using handler_one_pass [of x ?s0 t] i(2) h by simp
  then show ?thesis
    using iteration_replied [OF i(1) m1 _ t(1)] o by (simp add: quiet_or_replied_def deliver_def)
qed

text \<open>A message is left without a reply only when it is a query that has to wait.\<close>

lemma reaction_answers:
  "fst (reaction x s st (s_protocol_event m)) = None \<longleftrightarrow>
     st = connected_state \<and> s_protocol_event m = query_event \<and> verdict (message s) s = Waiting"
  by (cases "verdict (message s) s")
    (auto simp: reaction_def reaction_rest_def s_protocol_event_def verdict_reaction_def Let_def)

section \<open>A truncated frame\<close>

lemma verdict_cong:
  "query_beg m = query_beg k \<Longrightarrow> query_end m = query_end k \<Longrightarrow> detmask m = detmask k \<Longrightarrow> iq t = iq s \<Longrightarrow>
     own_detmask t = own_detmask s \<Longrightarrow> verdict m t = verdict k s"
  by (simp only: verdict_def)

lemma deliver_queue:
  "iq (deliver ps s) = iq s" "own_detmask (deliver ps s) = own_detmask s" "pending (deliver ps s) = pending s"
  "rid_of (deliver ps s) q = rid_of s q"
  by (simp_all add: deliver_def rid_of_def)

lemma routing_irrelevant:
  "s_protocol_event (m\<lparr>routing_id := r\<rparr>) = s_protocol_event m" "query_beg (m\<lparr>routing_id := r\<rparr>) = query_beg m"
  "query_end (m\<lparr>routing_id := r\<rparr>) = query_end m" "waiting_request p (m\<lparr>routing_id := r\<rparr>) = waiting_request p m"
  by (simp_all add: s_protocol_event_def query_beg_def query_end_def waiting_request_def)

text \<open>A data frame of less than two bytes leaves the codec as it was, but for the routing id.\<close>

definition truncated_parts :: "frame \<Rightarrow> frame \<Rightarrow> part list" where
  "truncated_parts rid f = [(rid, True), (f, False)]"

lemma truncated_recv:
  assumes "sock_type (router s) = ROUTER" "inbound (router s) = []" "length f < 2"
  shows "tpq_codec_recv (message (deliver (truncated_parts rid f) s)) (router (deliver (truncated_parts rid f) s)) =
    (0, (message s)\<lparr>routing_id := Some rid\<rparr>, (router s)\<lparr>inbound := []\<rparr>)"
  using assms
  by (simp add: truncated_parts_def deliver_def tpq_codec_recv_def recv_frame_def recv_part_def get_number2_None [THEN iffD2])

lemma truncated_reaction:
  assumes s: "server_inv x s" "inj (strhex x)" "inbound (router s) = []" and f: "length f < 2"
  shows "\<exists>s'. s_server_handle_protocol x (deliver (truncated_parts rid f) s) = Inr (0, s') \<and>
    sent_to rid (fst (reaction x s (sender_state x rid s) (s_protocol_event (message s)))) s s' \<and>
    (snd (reaction x s (sender_state x rid s) (s_protocol_event (message s))) = None \<longrightarrow> clients s' (strhex x rid) = None)"
proof -
  let ?s0 = "deliver (truncated_parts rid f) s" and ?m = "(message s)\<lparr>routing_id := Some rid\<rparr>"
  have i: "server_inv x ?s0" "sock_type (router s) = ROUTER" "inbound (router ?s0) \<noteq> []" "outbound (router ?s0) = outbound (router s)"
    using s by (simp add: deliver_server_inv, simp add: server_inv_def, simp_all add: deliver_def truncated_parts_def)
  have rx: "reaction x (?s0\<lparr>message := ?m\<rparr>) st ev = reaction x s st ev" for st ev
    by (simp add: reaction_deliver) (simp add: reaction_def reaction_rest_def verdict_reaction_def verdict_def
        matching_frames_def query_beg_def query_end_def Let_def)
  have o: "sent_to rid q ?s0 t = sent_to rid q s t" for q t using i(4) by (simp add: sent_to_def split: option.splits)
  obtain s' where s': "protocol_iteration x ?s0 = Inr (s', True)" "inbound (router s') = []"
    "sent_to rid (fst (reaction x s (sender_state x rid s) (s_protocol_event (message s)))) s s'"
    "case snd (reaction x s (sender_state x rid s) (s_protocol_event (message s))) of None \<Rightarrow> clients s' (strhex x rid) = None
     | Some st \<Rightarrow> sender_state x rid s' = st"
    using received_reaction [OF i(1) s(2) truncated_recv [OF i(2) s(3) f, where rid = rid], where rid = rid]
    by (auto simp: routing_irrelevant rx o sender_state_deliver i(4))
  have "s_server_handle_protocol x ?s0 = Inr (0, s')" using handler_one_pass [OF s'(1) i(3) s'(2)] .
  then show ?thesis using s'(3,4) by (intro exI [of _ s']) auto
qed

text \<open>A waiting query executed again.\<close>

lemma waiting_iteration:
  assumes s: "server_inv x s" "inj (strhex x)" and r: "tpq_codec_recv (message s) (router s) = (0, m, sk)" "routing_id m = Some rid"
    and w: "sender_state x rid s = connected_state" "s_protocol_event m = query_event" "verdict m s = Waiting"
  shows "\<exists>t p. protocol_iteration x s = Inr (t, True) \<and> router t = sk \<and> rid_of t p = rid \<and> (\<forall>q. rid_of t q = rid_of s q) \<and>
    pending t = push_request (query_end m) (waiting_request p m) (pending s)"
proof -
  let ?s1 = "s\<lparr>message := m, router := sk\<rparr>"
  obtain p c where p: "clients s (strhex x rid) = Some p" "heap s p = Some c" "cl_state c = connected_state"
    using w(1) by (auto simp: sender_state_def split: option.splits)
  have "table_inv s" "keys_inv x s" using s(1) by (simp_all add: server_inv_def client_inv_def)
  then have "strhex x (cl_routing_id c) = strhex x rid"
    using table_invD(2) [of s "strhex x rid" p] p by (auto simp: keys_inv_def)
  then have rid: "cl_routing_id c = rid" using s(2) by (simp add: inj_eq)
  have h: "heap ?s1 p = Some c" "client_of_sender x rid ?s1 = (p, ?s1)" using p by (simp_all add: client_of_sender_def)
  have "verdict (message ?s1) ?s1 = Waiting" using w(3) verdict_cong [of "message ?s1" m ?s1 s] by simp
  from waiting_execute [OF h(1) p(3) this, of x]
  obtain d where d: "s_client_execute x p query_event ?s1 = Inr ((put_client p d ?s1)\<lparr>pending :=
      push_request (query_end m) (waiting_request p m) (pending ?s1)\<rparr>)" (is "_ = Inr ?t") "cl_routing_id d = cl_routing_id c"
    by auto
  have "protocol_iteration x s = Inr (?t, True)"
    using r h(2) d(1) w(2) by (simp add: protocol_iteration_def Let_def)
  then show ?thesis using d(2) rid p(2)
    by (intro exI [of _ ?t] exI [of _ p]) (simp add: frame_simps rid_of_def put_client_def)
qed

lemma truncated_waits:
  assumes s: "server_inv x s" "inj (strhex x)" "inbound (router s) = []" and f: "length f < 2"
    and w: "sender_state x rid s = connected_state" "s_protocol_event (message s) = query_event" "verdict (message s) s = Waiting"
  shows "\<exists>s' p. s_server_handle_protocol x (deliver (truncated_parts rid f) s) = Inr (0, s') \<and>
    outbound (router s') = outbound (router s) \<and> rid_of s' p = rid \<and> (\<forall>q. rid_of s' q = rid_of s q) \<and>
    pending s' = push_request (query_end (message s)) (waiting_request p (message s)) (pending s)"
proof -
  let ?s0 = "deliver (truncated_parts rid f) s" and ?m = "(message s)\<lparr>routing_id := Some rid\<rparr>"
  have i: "server_inv x ?s0" "sock_type (router s) = ROUTER" "inbound (router ?s0) \<noteq> []"
    using s by (simp add: deliver_server_inv, simp add: server_inv_def, simp add: deliver_def truncated_parts_def)
  have m: "s_protocol_event ?m = query_event" "verdict ?m ?s0 = Waiting" "sender_state x rid ?s0 = connected_state"
    using w verdict_cong [of ?m "message s" ?s0 s] by (simp_all add: routing_irrelevant sender_state_deliver deliver_queue)
  have r: "routing_id ?m = Some rid" by simp
  from waiting_iteration [OF i(1) s(2) truncated_recv [OF i(2) s(3) f] r m(3,1,2)]
  obtain t p where t: "protocol_iteration x ?s0 = Inr (t, True)" "router t = (router s)\<lparr>inbound := []\<rparr>" "rid_of t p = rid"
    "\<forall>q. rid_of t q = rid_of ?s0 q" "pending t = push_request (query_end ?m) (waiting_request p ?m) (pending ?s0)"
    by blast
  have "s_server_handle_protocol x ?s0 = Inr (0, t)" using handler_one_pass [OF t(1) i(3)] t(2) by simp
  moreover have "outbound (router t) = outbound (router s)" using t(2) by simp
  moreover have "rid_of t q = rid_of s q" for q using t(4) by (simp only: deliver_queue)
  moreover have "pending t = push_request (query_end (message s)) (waiting_request p (message s)) (pending s)"
    using t(5) by (simp only: deliver_queue routing_irrelevant)
  ultimately show ?thesis using t(3) by blast
qed

text \<open>C36: in every reachable state, a complete message of one peer is followed by a data frame of fewer
  than two bytes from the same or another peer. The codec receives the frame with return code 0 and
  still holds what it held. After a reply that is the reply, which is no message of a client, so that
  the sender of the frame is refused with 500 and dropped. After a query that has to wait it is the
  query, which is then stored a second time, for the sender of the frame when the server has it as
  connected, and refused with 500 when not.\<close>

theorem truncated_frame_after_message:
  assumes "server_reachable x px s" "inj (strhex x)" "inbound (router s) = []" "message_of k = Some m" "codec_ok k" "length f < 2"
  shows "\<exists>s1 s2. s_server_handle_protocol x (deliver ((rid, True) # message_parts k) s) = Inr (0, s1) \<and>
    s_server_handle_protocol x (deliver (truncated_parts rid2 f) s1) = Inr (0, s2) \<and>
    (if sender_state x rid s = connected_state \<and> s_protocol_event k = query_event \<and> verdict k s = Waiting \<and>
        sender_state x rid2 s1 = connected_state
     then outbound (router s2) = outbound (router s) \<and>
       (\<exists>p q. rid_of s2 p = rid \<and> rid_of s2 q = rid2 \<and> pending s2 = push_request (query_end k) (waiting_request q k)
          (push_request (query_end k) (waiting_request p k) (pending s)))
     else sent_to rid2 (Some (Error 500 (cstring (reason (message s1))))) s1 s2 \<and> clients s2 (strhex x rid2) = None)"
proof (cases "sender_state x rid s = connected_state \<and> s_protocol_event k = query_event \<and> verdict k s = Waiting")
  case waits: True
  have i: "server_inv x s" "pending_inv s" using reachable_inv [OF assms(1)] by (simp_all add: system_inv_def)
  obtain n qb qs qm qt where m: "message_of k = Some (Query n qb qs qm qt)"
    using waits assms(4) message_of_id [OF assms(4)] by (cases m) (auto simp: s_protocol_event_def codec_ids)
  from waiting_stored [OF i assms(2,3) m assms(5)] waits
  obtain s1 p where s1: "s_server_handle_protocol x (deliver ((rid, True) # message_parts k) s) = Inr (0, s1)" "server_inv x s1"
      "outbound (router s1) = outbound (router s)" "rid_of s1 p = rid"
      "pending s1 = push_request (query_end (message s1)) (waiting_request p (message s1)) (pending s)"
      "iq s1 = iq s" "own_detmask s1 = own_detmask s"
    and m1: "message_of (message s1) = Some (Query n qb qs qm qt)"
    by blast
  have f: "query_beg (message s1) = query_beg k" "query_end (message s1) = query_end k" "detmask (message s1) = detmask k"
    "s_protocol_event (message s1) = query_event" "waiting_request q (message s1) = waiting_request q k" for q
    using query_fields [OF m] query_fields [OF m1] m m1
    by (auto simp: waiting_request_def message_of_def split: if_splits)
  have v: "verdict (message s1) s1 = Waiting" using waits verdict_cong [OF f(1-3) s1(6,7)] by simp
  have ib: "inbound (router s1) = []" using server_receives [OF i(1) assms(2-5), of rid] s1(1) by auto
  show ?thesis
  proof (cases "sender_state x rid2 s1 = connected_state")
    case True
    obtain s2 q where "s_server_handle_protocol x (deliver (truncated_parts rid2 f) s1) = Inr (0, s2)"
      "outbound (router s2) = outbound (router s1)" "rid_of s2 q = rid2" "\<forall>q. rid_of s2 q = rid_of s1 q"
      "pending s2 = push_request (query_end (message s1)) (waiting_request q (message s1)) (pending s1)"
      using truncated_waits [OF s1(2) assms(2) ib assms(6) True f(4) v] by blast
    then show ?thesis using True waits s1 f by (intro exI [of _ s1] exI [of _ s2]) auto
  next
    case False
    then have "reaction x s1 (sender_state x rid2 s1) (s_protocol_event (message s1)) =
        (Some (Error 500 (cstring (reason (message s1)))), None)"
      by (simp add: f(4) reaction_def reaction_rest_def Let_def)
    then show ?thesis using truncated_reaction [OF s1(2) assms(2) ib assms(6), of rid2] s1(1) False by fastforce
  qed
next
  case answered: False
  have i: "server_inv x s" using reachable_inv [OF assms(1)] by (simp add: system_inv_def)
  obtain m1 s1 where s1: "s_server_handle_protocol x (deliver ((rid, True) # message_parts k) s) = Inr (0, s1)" "server_inv x s1"
    "inbound (router s1) = []" "message_of m1 = Some m"
    "sent_to rid (fst (reaction x (s\<lparr>message := m1\<rparr>) (sender_state x rid s) (s_protocol_event m1))) s s1"
    using server_receives [OF i assms(2-5), of rid] by blast
  have "s_protocol_event m1 = s_protocol_event k" "s_protocol_event k = query_event \<Longrightarrow> verdict m1 s = verdict k s"
    using message_of_id [OF s1(4)] message_of_id [OF assms(4)] s1(4) assms(4)
    by (auto simp: s_protocol_event_def message_of_def verdict_def query_beg_def query_end_def codec_ids split: if_splits)
  then have "fst (reaction x (s\<lparr>message := m1\<rparr>) (sender_state x rid s) (s_protocol_event m1)) \<noteq> None"
    using answered by (auto simp: reaction_answers verdict_def)
  then have "outbound (router s1) \<noteq> outbound (router s)" using s1(5) by (auto simp: sent_to_def)
  then have "s_protocol_event (message s1) = terminate_event"
    using answered_codec [OF i assms(3,2,4,5) s1(1)] by blast
  then have "reaction x s1 (sender_state x rid2 s1) (s_protocol_event (message s1)) =
      (Some (Error 500 (cstring (reason (message s1)))), None)"
    by (simp add: reaction_def reaction_rest_def Let_def)
  then show ?thesis using truncated_reaction [OF s1(2) assms(2) s1(3) assms(6), of rid2] s1(1) answered by fastforce
qed

lemma truncated_frame_after_message_witness:
  "(\<exists>s k s1 s2 p q. server_reachable sample_test_extern sample_pipe_extern s \<and> pending s = [] \<and>
     s_server_handle_protocol sample_test_extern (deliver (([9], True) # message_parts k) s) = Inr (0, s1) \<and>
     s_server_handle_protocol sample_test_extern (deliver (truncated_parts [9] [0]) s1) = Inr (0, s2) \<and>
     pending s2 = push_request 7000 (waiting_request q k) (push_request 7000 (waiting_request p k) [])) \<and>
   (\<exists>s k s1 s2 t. server_reachable sample_test_extern sample_pipe_extern s \<and> message_of k = Some Ping \<and>
     s_server_handle_protocol sample_test_extern (deliver (([9], True) # message_parts k) s) = Inr (0, s1) \<and>
     s_server_handle_protocol sample_test_extern (deliver (truncated_parts [9] []) s1) = Inr (0, s2) \<and>
     sent_to [9] (Some (Error 500 t)) s1 s2)"
proof -
  let ?x = sample_test_extern
  obtain s where s: "server_reachable ?x sample_pipe_extern s" "inbound (router s) = []"
    "sender_state ?x [9] s = connected_state" "pending s = []" "holds_sets True 6 (iq s)" "own_detmask s = test_detmask"
    using sample_reachable by blast
  have inj: "inj (strhex ?x)" using sample_test_library by (simp add: server_test_library_def)
  note T = truncated_frame_after_message [OF s(1) inj s(2)]
  define k where "k = query_request 2 4000 3000 tpq_codec_new"
  have K: "message_of k = Some (Query 2 4000 3000 test_detmask 0)" "codec_ok k"
    using query_request_sent [OF codec_ok_new, of 2 4000 3000] by (simp_all add: k_def tpq_codec_new_def)
  note F = query_fields [OF K(1)]
  have e: "query_end k = 7000" by (simp add: F to_i64_def)
  have v: "verdict k s = Waiting"
    using set_bounds [OF s(5)] by (simp add: verdict_def F query_is_bogus_def test_detmask_def to_i64_def)
  have inv: "server_inv ?x s" "pending_inv s" using reachable_inv [OF s(1)] by (simp_all add: system_inv_def)
  have "sender_state ?x [9] s1 = connected_state"
    if "s_server_handle_protocol ?x (deliver (([9], True) # message_parts k) s) = Inr (0, s1)" for s1
    using server_receives [OF inv(1) inj s(2) K, of "[9]"] query_reaction [of _ 2 4000 3000 test_detmask 0 ?x s] that by (auto simp: s(3))
  then have "\<exists>s k s1 s2 p q. server_reachable ?x sample_pipe_extern s \<and> pending s = [] \<and>
     s_server_handle_protocol ?x (deliver (([9], True) # message_parts k) s) = Inr (0, s1) \<and>
     s_server_handle_protocol ?x (deliver (truncated_parts [9] [0]) s1) = Inr (0, s2) \<and>
     pending s2 = push_request 7000 (waiting_request q k) (push_request 7000 (waiting_request p k) [])"
    using T [OF K, of "[0]" "[9]" "[9]"] s(1,3,4) F(4) v e by fastforce
  note waits = this
  have P: "message_of (tpq_codec_new\<lparr>codec_id := TPQ_CODEC_PING\<rparr>) = Some Ping" "codec_ok (tpq_codec_new\<lparr>codec_id := TPQ_CODEC_PING\<rparr>)"
    "s_protocol_event (tpq_codec_new\<lparr>codec_id := TPQ_CODEC_PING\<rparr>) \<noteq> query_event"
    using codec_ok_new by (simp_all add: message_of_def codec_ids s_protocol_event_def codec_ok_def)
  obtain s1 s2 where "s_server_handle_protocol ?x (deliver (([9], True) # message_parts (tpq_codec_new\<lparr>codec_id := TPQ_CODEC_PING\<rparr>)) s) =
      Inr (0, s1)" "s_server_handle_protocol ?x (deliver (truncated_parts [9] []) s1) = Inr (0, s2)"
    "sent_to [9] (Some (Error 500 (cstring (reason (message s1))))) s1 s2"
    using T [OF P(1,2), of "[]" "[9]" "[9]"] P(3) by auto
  with P(1) s(1) have "\<exists>s k s1 s2 t. server_reachable ?x sample_pipe_extern s \<and> message_of k = Some Ping \<and>
     s_server_handle_protocol ?x (deliver (([9], True) # message_parts k) s) = Inr (0, s1) \<and>
     s_server_handle_protocol ?x (deliver (truncated_parts [9] []) s1) = Inr (0, s2) \<and>
     sent_to [9] (Some (Error 500 t)) s1 s2"
    by blast
  with waits show ?thesis by blast
qed

end
