(* ===== verification/CDouble.thy ===== *)
theory CDouble
  imports Prelude "HOL-Library.Log_Nat"
begin

text \<open>
  The arithmetic of \<open>double\<close> that the client agent needs (\<open>count * minbias < 1\<close> of
  \<open>src/tpqclt.cpp\<close>): a finite double is the rational number it stands for, and an operation rounds the
  exact result to the nearest double, to the one with an even significand when two are as near.
  A result above the largest double is not replaced by infinity, which does not change a comparison.
\<close>

section \<open>Rounding\<close>

definition pow2 :: "int \<Rightarrow> rat" where
  "pow2 k = (if 0 \<le> k then 2 ^ nat k else 1 / 2 ^ nat (- k))"

definition round_even :: "rat \<Rightarrow> int" where
  "round_even x = (let f = \<lfloor>x\<rfloor>; r = x - of_int f in
     if r < 1 / 2 \<or> r = 1 / 2 \<and> even f then f else f + 1)"

text \<open>The exponent of the leading bit of a positive number.\<close>

definition floor_log2 :: "rat \<Rightarrow> int" where
  "floor_log2 x = (case quotient_of x of (a, b) \<Rightarrow> let k = bitlen a - bitlen b in if pow2 k \<le> x then k else k - 1)"

text \<open>53 bits of significand; the last bit of the smallest doubles has the exponent -1074.\<close>

definition double_of :: "rat \<Rightarrow> rat" where
  "double_of x = (if x = 0 then 0 else
     let q = pow2 (max (floor_log2 \<bar>x\<bar> - 52) (- 1074)) in of_int (round_even (x / q)) * q)"

definition double_times :: "rat \<Rightarrow> rat \<Rightarrow> rat" where
  "double_times x y = double_of (x * y)"

section \<open>Powers of two\<close>

lemma pow2_powi: "pow2 k = power_int 2 k"
  unfolding pow2_def power_int_def by (auto simp only: power_one_over inverse_eq_divide not_False_eq_True split: if_split)

lemma pow2_pos [simp]: "0 < pow2 k"
  by (simp add: pow2_powi)

lemma pow2_add: "pow2 (i + j) = pow2 i * pow2 j"
  by (simp add: pow2_powi power_int_add)

lemma pow2_mono: "i \<le> j \<Longrightarrow> pow2 i \<le> pow2 j"
  by (simp add: pow2_powi power_int_increasing)

lemma pow2_less_iff [simp]: "pow2 i < pow2 j \<longleftrightarrow> i < j"
  using pow2_mono [of j i] power_int_strict_increasing [of i j "2 :: rat"]
  by (cases "i < j") (simp_all add: pow2_powi not_less)

lemma pow2_0 [simp]: "pow2 0 = 1"
  by (simp add: pow2_def)

lemma pow2_int: "0 \<le> k \<Longrightarrow> pow2 k = of_int (2 ^ nat k)"
  by (simp add: pow2_def)

lemma bitlen_pow2:
  assumes "0 < a"
  shows "pow2 (bitlen a - 1) \<le> of_int a" "of_int a < pow2 (bitlen a)"
proof -
  have b: "2 ^ nat (bitlen a - 1) \<le> a" "a < 2 ^ nat (bitlen a)" "0 < bitlen a"
    using bitlen_bounds [OF assms] assms by (simp_all add: bitlen_def compute_floorlog)
  have "of_int (2 ^ nat (bitlen a - 1)) \<le> (of_int a :: rat)" using b(1) by (simp only: of_int_le_iff)
  then show "pow2 (bitlen a - 1) \<le> of_int a" using b(3) by (simp add: pow2_int)
  have "(of_int a :: rat) < of_int (2 ^ nat (bitlen a))" using b(2) by (simp only: of_int_less_iff)
  then show "of_int a < pow2 (bitlen a)" using b(3) by (simp add: pow2_int)
qed

lemma floor_log2_bounds:
  assumes "0 < x"
  shows "pow2 (floor_log2 x) \<le> x" "x < pow2 (floor_log2 x + 1)"
proof -
  obtain a b where q: "quotient_of x = (a, b)" by fastforce
  have b: "0 < b" using quotient_of_denom_pos [OF q] .
  have x: "x = of_int a / of_int b" using quotient_of_div [OF q] .
  have a: "0 < a" using assms b by (simp add: x zero_less_divide_iff)
  let ?k = "bitlen a - bitlen b"
  note A = bitlen_pow2 [OF a] and B = bitlen_pow2 [OF b]
  have "x < pow2 (bitlen a) / pow2 (bitlen b - 1)"
    unfolding x using A B a by (intro frac_less) auto
  also have "\<dots> = pow2 (?k + 1)"
    using pow2_add [of "?k + 1" "bitlen b - 1"] by (simp add: divide_eq_eq less_imp_neq [symmetric])
  finally have u: "x < pow2 (?k + 1)" .
  have "pow2 (bitlen a - 1) / pow2 (bitlen b) < x"
    unfolding x using A B b by (intro frac_less2) auto
  moreover have "pow2 (bitlen a - 1) / pow2 (bitlen b) = pow2 (?k - 1)"
    using pow2_add [of "?k - 1" "bitlen b"] by (simp add: divide_eq_eq less_imp_neq [symmetric])
  ultimately have l: "pow2 (?k - 1) \<le> x" by simp
  show "pow2 (floor_log2 x) \<le> x" "x < pow2 (floor_log2 x + 1)"
    using u l by (simp_all add: floor_log2_def q Let_def)
qed

lemma floor_log2_unique:
  assumes "pow2 k \<le> x" "x < pow2 (k + 1)"
  shows "floor_log2 x = k"
proof -
  have "0 < x" using assms(1) pow2_pos [of k] by linarith
  note F = floor_log2_bounds [OF this]
  have "pow2 k < pow2 (floor_log2 x + 1)" "pow2 (floor_log2 x) < pow2 (k + 1)" using F assms by linarith+
  then show ?thesis by simp
qed

section \<open>Rounding to a whole number\<close>

lemma round_even_of_int [simp]: "round_even (of_int n) = n"
  by (simp add: round_even_def)

lemma round_even_cases:
  "round_even x = \<lfloor>x\<rfloor> \<and> x - of_int \<lfloor>x\<rfloor> \<le> 1 / 2 \<or> round_even x = \<lfloor>x\<rfloor> + 1 \<and> 1 / 2 \<le> x - of_int \<lfloor>x\<rfloor>"
proof (cases "x - of_int \<lfloor>x\<rfloor> < 1 / 2 \<or> x - of_int \<lfloor>x\<rfloor> = 1 / 2 \<and> even \<lfloor>x\<rfloor>")
  case True
  then have "round_even x = \<lfloor>x\<rfloor>" unfolding round_even_def Let_def by (rule if_P)
  then show ?thesis using True by linarith
next
  case False
  then have "round_even x = \<lfloor>x\<rfloor> + 1" unfolding round_even_def Let_def by (rule if_not_P)
  then show ?thesis using False by linarith
qed

lemma round_even_near: "of_int (round_even x) \<le> x + 1 / 2" "x - 1 / 2 \<le> of_int (round_even x)"
  using round_even_cases [of x] floor_correct [of x] by (auto simp only: of_int_add of_int_1; linarith)+

lemma round_even_ge: "of_int n \<le> x \<Longrightarrow> n \<le> round_even x"
proof -
  assume "of_int n \<le> x"
  then have "n \<le> \<lfloor>x\<rfloor>" by (simp add: le_floor_iff)
  then show ?thesis by (simp add: round_even_def Let_def)
qed

lemma round_even_le: "x \<le> of_int n \<Longrightarrow> round_even x \<le> n"
proof (cases "x = of_int n")
  case False
  moreover assume "x \<le> of_int n"
  ultimately have "\<lfloor>x\<rfloor> < n" by (simp add: floor_less_iff)
  then show ?thesis by (simp add: round_even_def Let_def)
qed simp

lemma round_even_less_iff:
  assumes "even n"
  shows "round_even x < n \<longleftrightarrow> x < of_int n - 1 / 2"
proof
  assume l: "x < of_int n - 1 / 2"
  then have "of_int (round_even x) < (of_int n :: rat)" using round_even_near(1) [of x] by linarith
  then show "round_even x < n" by simp
next
  assume r: "round_even x < n"
  show "x < of_int n - 1 / 2"
  proof (rule ccontr)
    assume "\<not> x < of_int n - 1 / 2"
    then have g: "of_int n - 1 / 2 \<le> x" by simp
    have "x < of_int n" using r round_even_ge [of n x] by force
    then have f: "\<lfloor>x\<rfloor> = n - 1" using g by (simp add: floor_eq_iff)
    have "1 / 2 \<le> x - of_int (n - 1)" using g by simp
    then have "round_even x = n" using assms by (simp add: round_even_def f)
    then show False using r by simp
  qed
qed

section \<open>Doubles below one\<close>

lemma double_of_run:
  assumes "x \<noteq> 0"
  obtains q where "q = pow2 (max (floor_log2 \<bar>x\<bar> - 52) (- 1074))" "double_of x = of_int (round_even (x / q)) * q" "0 < q"
  using assms by (simp add: double_of_def Let_def)

text \<open>A result is below one when the exact value is less than half a step away from the greatest double
  below one.\<close>

lemma double_below_one: "double_of p < 1 \<longleftrightarrow> p < 1 - 1 / 2 ^ 54"
proof (cases "p = 0")
  case False
  then obtain q where q: "q = pow2 (max (floor_log2 \<bar>p\<bar> - 52) (- 1074))" "double_of p = of_int (round_even (p / q)) * q" "0 < q"
    by (rule double_of_run)
  consider "p < 0" | "0 < p" "p < 1 / 2" | "1 / 2 \<le> p" "p < 1" | "1 \<le> p" using False by linarith
  then show ?thesis
  proof cases
    assume p: "p < 0"
    then have "round_even (p / q) \<le> 0" using q(3) by (intro round_even_le) (simp add: divide_le_0_iff)
    then have "double_of p \<le> 0" unfolding q(2) using q(3) by (intro mult_nonpos_nonneg) simp_all
    then show ?thesis using p by simp
  next
    assume p: "0 < p" "p < 1 / 2"
    have "pow2 (floor_log2 p) < pow2 (- 1)" using floor_log2_bounds(1) [OF p(1)] p(2) by (simp add: pow2_def)
    then have "q \<le> pow2 (- 1)" unfolding q(1) using p(1) by (intro pow2_mono) simp
    moreover have "of_int (round_even (p / q)) * q \<le> (p / q + 1 / 2) * q"
      using round_even_near(1) q(3) by (intro mult_right_mono) auto
    ultimately have "double_of p < 1" using q(2,3) p(2) by (simp add: distrib_right pow2_def)
    moreover have "(1 :: rat) / 2 < 1 - 1 / 2 ^ 54" by simp
    ultimately show ?thesis using p(2) by linarith
  next
    assume p: "1 / 2 \<le> p" "p < 1"
    then have "floor_log2 \<bar>p\<bar> = - 1" by (intro floor_log2_unique) (simp_all add: pow2_def)
    then have q53: "q = 1 / 2 ^ 53" by (simp add: q(1) pow2_def)
    have "double_of p < 1 \<longleftrightarrow> round_even (p * 2 ^ 53) < 2 ^ 53"
    proof -
      have "double_of p = of_int (round_even (p * 2 ^ 53)) / 2 ^ 53" by (simp add: q(2) q53)
      also have "\<dots> < 1 \<longleftrightarrow> of_int (round_even (p * 2 ^ 53)) < (of_int (2 ^ 53) :: rat)" by (simp add: divide_less_eq del: of_int_less_iff)
      finally show ?thesis by (simp only: of_int_less_iff)
    qed
    also have "\<dots> \<longleftrightarrow> p * 2 ^ 53 < of_int (2 ^ 53) - 1 / 2" by (rule round_even_less_iff) simp
    also have "\<dots> \<longleftrightarrow> p < 1 - 1 / 2 ^ 54" by (simp add: mult.commute)
    finally show ?thesis .
  next
    assume p: "1 \<le> p"
    then have p0: "0 < p" "\<bar>p\<bar> = p" by simp_all
    note F = floor_log2_bounds [OF p0(1)]
    have "pow2 0 < pow2 (floor_log2 p + 1)" using F(2) p by (simp del: pow2_less_iff)
    then have e: "0 \<le> floor_log2 p" unfolding pow2_less_iff by simp
    then have q52: "q * 2 ^ 52 = pow2 (floor_log2 p)"
      using pow2_add [of "floor_log2 p - 52" 52] by (simp add: q(1) p0(2) pow2_def [of 52])
    then have "of_int (2 ^ 52) \<le> p / q" using F(1) q(3) by (simp add: le_divide_eq mult.commute)
    then have "2 ^ 52 \<le> round_even (p / q)" by (rule round_even_ge)
    then have "of_int (2 ^ 52) \<le> (of_int (round_even (p / q)) :: rat)" by (simp only: of_int_le_iff)
    then have "of_int (2 ^ 52) * q \<le> of_int (round_even (p / q)) * q" using q(3) by (intro mult_right_mono) simp_all
    then have "pow2 (floor_log2 p) \<le> double_of p" using q52 by (simp add: q(2) mult.commute)
    moreover have "pow2 0 \<le> pow2 (floor_log2 p)" using e by (rule pow2_mono)
    ultimately have "1 \<le> double_of p" by simp
    moreover have "\<not> p < 1 - 1 / 2 ^ 54" using p by (simp add: not_less) 
    ultimately show ?thesis by simp
  qed
qed (simp add: double_of_def)

text \<open>Whole numbers of up to 53 bits are doubles.\<close>

lemma double_of_nat:
  assumes "n < 2 ^ 53"
  shows "double_of (of_nat n) = of_nat n"
proof (cases "n = 0")
  case False
  let ?x = "of_nat n :: rat"
  have x: "0 < ?x" "\<bar>?x\<bar> = ?x" using False by simp_all
  note F = floor_log2_bounds [OF x(1)]
  have "?x < pow2 53" using assms by (simp add: pow2_def of_nat_less_numeral_power_cancel_iff)
  then have "pow2 (floor_log2 ?x) < pow2 53" using F(1) by linarith
  then have e: "floor_log2 ?x \<le> 52" by simp
  have "1 \<le> ?x" using False by (simp add: Suc_leI)
  then have "pow2 0 < pow2 (floor_log2 ?x + 1)" using F(2) by (simp del: pow2_less_iff)
  then have e0: "0 \<le> floor_log2 ?x" unfolding pow2_less_iff by simp
  define j where "j = 52 - floor_log2 ?x"
  have j: "0 \<le> j" "pow2 (floor_log2 ?x - 52) = 1 / pow2 j"
    using e pow2_add [of "floor_log2 ?x - 52" j] by (simp_all add: j_def eq_divide_eq less_imp_neq [symmetric])
  have "?x * pow2 j = of_int (int n * 2 ^ nat j)" using j(1) by (simp add: pow2_int)
  then have "round_even (?x * pow2 j) = int n * 2 ^ nat j" by (simp only: round_even_of_int)
  moreover have "max (floor_log2 ?x - 52) (- 1074) = floor_log2 ?x - 52" using e0 by simp
  ultimately show ?thesis using False j by (simp add: double_of_def x(2) Let_def pow2_int)
qed (simp add: double_of_def)

end
