(* ===== verification/Agents.thy ===== *)
theory Agents
  imports ServerPipe ClientApi CDouble
begin

text \<open>
  The two agents that embed the server and the client into a \<open>ptmp\<close> application: \<open>TPQService\<close>
  (\<open>src/tpqsvc.cpp\<close>), which starts a server and configures it over the pipe, and the actor of
  \<open>TPQClient\<close> (\<open>src/tpqclt.cpp\<close>), which asks a server about some of the messages it receives.

  The JSON library is the argument \<open>jl\<close>: how a text is parsed, what \<open>operator []\<close> gives, and how a value
  converts to a string, a \<open>uint64_t\<close> or a \<open>double\<close> (the finite number it stands for); each of them may
  throw. The service talks to the server of \<open>ServerPipe\<close>: each command is handled before
  the next is sent, since the service waits for the answers. The client agent's calls of the
  class interface are the arguments \<open>hello\<close> and \<open>ask\<close>, which give what \<open>tpq_client_query\<close> returned and
  the object after the call, or nothing when the call does not return.
\<close>

section \<open>Configuration values\<close>

record 'j json_extern =
  j_parse :: "byte list \<Rightarrow> 'j option"
  j_at :: "string \<Rightarrow> 'j \<Rightarrow> 'j option"
  j_is_null :: "'j \<Rightarrow> bool"
  j_is_string :: "'j \<Rightarrow> bool"
  j_is_number :: "'j \<Rightarrow> bool"
  j_positive :: "'j \<Rightarrow> bool"
  j_string :: "'j \<Rightarrow> byte list option"
  j_u64 :: "'j \<Rightarrow> u64 option"
  j_double :: "'j \<Rightarrow> rat option"

datatype agent_error = Fault fault | JsonError

definition bind_agent :: "agent_error + 'a \<Rightarrow> ('a \<Rightarrow> agent_error + 'b) \<Rightarrow> agent_error + 'b" where
  "bind_agent r f = (case r of Inl e \<Rightarrow> Inl e | Inr a \<Rightarrow> f a)"

text \<open>A call of the library that threw ends the caller.\<close>

definition or_throw :: "'a option \<Rightarrow> agent_error + 'a" where
  "or_throw r = (case r of None \<Rightarrow> Inl JsonError | Some a \<Rightarrow> Inr a)"

definition json_name :: "'j json_extern \<Rightarrow> 'j \<Rightarrow> agent_error + byte list" where
  "json_name jl v = (if j_is_string jl v then or_throw (j_string jl v) else Inr (bytes ''tpqsvc''))"

section \<open>The service\<close>

text \<open>Send a command to the actor, and wait for the answer that it must give.\<close>

definition tell :: "extern \<Rightarrow> pipe_extern \<Rightarrow> zmsg \<Rightarrow> server \<Rightarrow> agent_error + server" where
  "tell x px msg s = (case s_server_handle_pipe x px msg s of Inl e \<Rightarrow> Inl (Fault e)
     | Inr (_, s', _) \<Rightarrow> Inr s')"

definition tell_expect :: "extern \<Rightarrow> pipe_extern \<Rightarrow> zmsg \<Rightarrow> string \<Rightarrow> server \<Rightarrow> agent_error + server" where
  "tell_expect x px msg ok s = (case s_server_handle_pipe x px msg s of Inl e \<Rightarrow> Inl (Fault e)
     | Inr (_, s', replies) \<Rightarrow>
        (case replies of (f # _) # _ \<Rightarrow> if cstring f = bytes ok then Inr s' else Inl (Fault AssertFailed)
         | _ \<Rightarrow> Inl (Fault NullPointer)))"

definition service_detmask :: "'j json_extern \<Rightarrow> 'j \<Rightarrow> agent_error + u64" where
  "service_detmask jl v = bind_agent (if j_is_null jl v then Inr (bytes ''0xFFFFFFFFFFFFFFFF'') else or_throw (j_string jl v))
     (\<lambda>s. Inr (case readint (cstring s) of Some m \<Rightarrow> m | None \<Rightarrow> - 1))"

definition service_marks :: "'j json_extern \<Rightarrow> 'j \<Rightarrow> agent_error + u64 \<times> u64" where
  "service_marks jl v = (if j_is_null jl v then Inr (500000000, 1000000000)
     else bind_agent (or_throw (j_at jl ''lwm'' v)) (\<lambda>l. bind_agent (or_throw (j_u64 jl l)) (\<lambda>lwm.
          bind_agent (or_throw (j_at jl ''hwm'' v)) (\<lambda>h. bind_agent (or_throw (j_u64 jl h)) (\<lambda>hwm. Inr (lwm, hwm))))))"

text \<open>The constructor: the text of the configuration, and the random number of the new server.\<close>

definition tpq_service :: "extern \<Rightarrow> pipe_extern \<Rightarrow> 'j json_extern \<Rightarrow> byte list \<Rightarrow> u32 \<Rightarrow> agent_error + server" where
  "tpq_service x px jl cfg rnd =
     bind_agent (or_throw (j_parse jl cfg)) (\<lambda>j.
     bind_agent (or_throw (j_at jl ''name'' j)) (\<lambda>n.
     bind_agent (json_name jl n) (\<lambda>_.
     bind_agent (or_throw (j_at jl ''verbose'' j)) (\<lambda>v.
     bind_agent (if j_is_number jl v \<and> j_positive jl v then tell x px [bytes ''VERBOSE''] (s_server_new rnd)
       else Inr (s_server_new rnd)) (\<lambda>s.
     bind_agent (tell_expect x px [bytes ''INGEST'', cfg] ''INGEST OK'' s) (\<lambda>s.
     bind_agent (bind_agent (or_throw (j_at jl ''service'' j)) (\<lambda>v. or_throw (j_string jl v))) (\<lambda>address.
     bind_agent (tell x px [bytes ''BIND'', cstring address] s) (\<lambda>s.
     bind_agent (bind_agent (or_throw (j_at jl ''detmask'' j)) (service_detmask jl)) (\<lambda>dm.
     bind_agent (tell_expect x px [bytes ''DETMASK'', in_base 10 (unat dm)] ''DETMASK OK'' s) (\<lambda>s.
     bind_agent (bind_agent (or_throw (j_at jl ''queue'' j)) (service_marks jl)) (\<lambda>(lwm, hwm).
     tell_expect x px [bytes ''QUEUE'', in_base 10 (unat lwm), in_base 10 (unat hwm)] ''QUEUE OK'' s)))))))))))"

text \<open>The destructor puts a signal on the pipe: one frame of eight bytes, the first of them the status.\<close>

definition signal_frame :: frame where
  "signal_frame = [0x00, 0x11, 0x22, 0x33, 0x44, 0x55, 0x66, 0x77]"

definition tpq_service_destroy :: "extern \<Rightarrow> pipe_extern \<Rightarrow> server \<Rightarrow> agent_error + server" where
  "tpq_service_destroy x px s = tell x px [signal_frame] s"

section \<open>The client agent\<close>

text \<open>What the poller reports: the pipe, a message on the input socket, or that it was terminated.\<close>

datatype clt_event = PipeInput | Input zmsg | PollerTerminated

record clt =
  ct_first_seen :: int
  ct_count :: u64
  ct_nrecv :: u64

record clt_report =
  rp_count :: u64
  rp_seqno :: u32
  rp_nrecv :: u64
  rp_status :: int
  rp_nframes :: nat
  rp_tpset :: tpset
  rp_since :: int

definition clt_start :: clt where
  "clt_start = \<lparr>ct_first_seen = 0, ct_count = 0, ct_nrecv = 0\<rparr>"

text \<open>One message: skipped, or asked about. The number of messages since the last query is converted to a
  \<open>double\<close> and multiplied as one. The query names the detector by its id.\<close>

definition clt_input :: "extern \<Rightarrow> rat \<Rightarrow> (u64 \<Rightarrow> u64 \<Rightarrow> u64 \<Rightarrow> u32 \<Rightarrow> 's \<Rightarrow> (int \<times> tpq_client \<times> 's) option) \<Rightarrow>
    zmsg \<Rightarrow> clt \<times> 's \<Rightarrow> fault + ((clt \<times> 's) \<times> clt_report option) option" where
  "clt_input x minbias ask msg cs = (case cs of (c, q) \<Rightarrow>
     let n = ct_count c + 1 in
     if double_times (double_of (of_nat (unat n))) minbias < 1 then Inr (Some ((c\<lparr>ct_count := n\<rparr>, q), None))
     else let t = tpset_of x msg;
              first = (if ct_first_seen c = 0 then ts_tstart t else ct_first_seen c)
          in (case ask (word_of_int (ts_tstart t)) (word_of_int (ts_tspan t)) (ts_detid t) 1000 q of
                None \<Rightarrow> Inr None
              | Some (rc, a, q') \<Rightarrow>
                  if rc < 0 then Inl AssertFailed
                  else (case a_payload a of None \<Rightarrow> Inl NullPointer
                        | Some m \<Rightarrow> Inr (Some ((\<lparr>ct_first_seen = first, ct_count = 0, ct_nrecv = ct_nrecv c + 1\<rparr>, q'),
                            Some \<lparr>rp_count = n, rp_seqno = a_seqno a, rp_nrecv = ct_nrecv c + 1,
                              rp_status = sint (a_status a), rp_nframes = length m, rp_tpset = t,
                              rp_since = ts_tstart t - first\<rparr>)))))"

text \<open>The loop: its result tells whether the quit command ended it (nothing while it still waits) and
  holds the reports; there is no result when a query does not return.\<close>

fun tpqclt_loop :: "extern \<Rightarrow> rat \<Rightarrow> (u64 \<Rightarrow> u64 \<Rightarrow> u64 \<Rightarrow> u32 \<Rightarrow> 's \<Rightarrow> (int \<times> tpq_client \<times> 's) option) \<Rightarrow>
    clt_event list \<Rightarrow> clt \<times> 's \<Rightarrow> fault + (bool option \<times> clt_report list) option" where
  "tpqclt_loop x minbias ask [] cs = Inr (Some (None, []))"
| "tpqclt_loop x minbias ask (PipeInput # es) cs = Inr (Some (Some True, []))"
| "tpqclt_loop x minbias ask (PollerTerminated # es) cs = Inr (Some (Some False, []))"
| "tpqclt_loop x minbias ask (Input msg # es) cs = bind_fault (clt_input x minbias ask msg cs) (\<lambda>r. case r of
      None \<Rightarrow> Inr None
    | Some (cs', rep) \<Rightarrow> bind_fault (tpqclt_loop x minbias ask es cs') (\<lambda>v.
        Inr (map_option (\<lambda>(q, reps). (q, (case rep of None \<Rightarrow> [] | Some p \<Rightarrow> [p]) @ reps)) v)))"

text \<open>The actor: it reads its configuration, says hello to the server, and runs the loop.\<close>

definition tpqclt_actor :: "extern \<Rightarrow> 'j json_extern \<Rightarrow> (api_command \<Rightarrow> 's \<Rightarrow> 's option) \<Rightarrow>
    (u64 \<Rightarrow> u64 \<Rightarrow> u64 \<Rightarrow> u32 \<Rightarrow> 's \<Rightarrow> (int \<times> tpq_client \<times> 's) option) \<Rightarrow> byte list \<Rightarrow> clt_event list \<Rightarrow> 's \<Rightarrow>
    agent_error + (bool option \<times> clt_report list) option" where
  "tpqclt_actor x jl hello ask cfg es q =
     bind_agent (or_throw (j_parse jl (cstring cfg))) (\<lambda>j.
     bind_agent (or_throw (j_at jl ''name'' j)) (\<lambda>n.
     bind_agent (json_name jl n) (\<lambda>name.
     bind_agent (or_throw (j_at jl ''verbose'' j)) (\<lambda>_.
     bind_agent (bind_agent (or_throw (j_at jl ''minbias'' j)) (\<lambda>v. or_throw (j_double jl v))) (\<lambda>minbias.
     bind_agent (bind_agent (or_throw (j_at jl ''service'' j)) (\<lambda>v. or_throw (j_string jl v))) (\<lambda>address.
     bind_agent (or_throw (j_at jl ''input'' j)) (\<lambda>_.
       (case hello (tpq_client_say_hello name address) q of None \<Rightarrow> Inr None
        | Some q' \<Rightarrow> (case tpqclt_loop x minbias ask es (clt_start, q') of Inl e \<Rightarrow> Inl (Fault e) | Inr r \<Rightarrow> Inr r)))))))))"

section \<open>Starting the service\<close>

lemma bind_agent_simps [simp]: "bind_agent (Inr a) f = f a" "bind_agent (Inl e) f = Inl e"
  by (simp_all add: bind_agent_def)

lemma handle_pipe_ingest:
  assumes "endpoint_made x (cstring cfg)"
  shows "s_server_handle_pipe x px [bytes ''INGEST'', cfg] s = Inr (0, s\<lparr>ingest := True\<rparr>, [[bytes ''INGEST OK'']])"
proof -
  have "cstring (bytes ''INGEST'') = bytes ''INGEST''" by code_simp
  moreover have "\<forall>m\<in>set [''VERBOSE'', ''$TERM'', ''BIND'', ''PORT'', ''LOAD'', ''CONFIGURE'', ''SET'', ''SAVE''].
      bytes ''INGEST'' \<noteq> bytes m" by code_simp
  ultimately show ?thesis using assms by (simp add: s_server_handle_pipe_def zmsg_popstr_def server_method_def)
qed

lemma handle_pipe_ingest_fails:
  assumes "\<not> endpoint_made x (cstring cfg)"
  shows "s_server_handle_pipe x px [bytes ''INGEST'', cfg] s = Inl AssertFailed"
proof -
  have "cstring (bytes ''INGEST'') = bytes ''INGEST''" by code_simp
  moreover have "\<forall>m\<in>set [''VERBOSE'', ''$TERM'', ''BIND'', ''PORT'', ''LOAD'', ''CONFIGURE'', ''SET'', ''SAVE''].
      bytes ''INGEST'' \<noteq> bytes m" by code_simp
  ultimately show ?thesis using assms by (simp add: s_server_handle_pipe_def zmsg_popstr_def server_method_def)
qed

lemma handle_pipe_bind:
  "s_server_handle_pipe x px [bytes ''BIND'', a] s = Inr (0, s\<lparr>port := bind_socket px (Some (cstring a))\<rparr>, [])"
  "s_server_handle_pipe x px [bytes ''VERBOSE''] s = Inr (0, s\<lparr>verbose := True\<rparr>, [])"
proof -
  have "cstring (bytes ''BIND'') = bytes ''BIND''" "cstring (bytes ''VERBOSE'') = bytes ''VERBOSE''"
    "bytes ''BIND'' \<noteq> bytes ''VERBOSE''" "bytes ''BIND'' \<noteq> bytes ''$TERM''" by code_simp+
  then show "s_server_handle_pipe x px [bytes ''BIND'', a] s = Inr (0, s\<lparr>port := bind_socket px (Some (cstring a))\<rparr>, [])"
    "s_server_handle_pipe x px [bytes ''VERBOSE''] s = Inr (0, s\<lparr>verbose := True\<rparr>, [])"
    by (simp_all add: s_server_handle_pipe_def zmsg_popstr_def)
qed

lemma answers_match: "cstring (bytes ''INGEST OK'') = bytes ''INGEST OK''"
  "cstring (bytes ''DETMASK OK'') = bytes ''DETMASK OK''" "cstring (bytes ''QUEUE OK'') = bytes ''QUEUE OK''"
  by code_simp+

lemma or_throw_simps [simp]: "or_throw (Some a) = Inr a" "or_throw None = Inl JsonError"
  by (simp_all add: or_throw_def)

lemma tell_answers:
  "tell x px [bytes ''VERBOSE''] s = Inr (s\<lparr>verbose := True\<rparr>)"
  "tell x px [bytes ''BIND'', a] s = Inr (s\<lparr>port := bind_socket px (Some (cstring a))\<rparr>)"
  "endpoint_made x (cstring cfg) \<Longrightarrow> tell_expect x px [bytes ''INGEST'', cfg] ''INGEST OK'' s = Inr (s\<lparr>ingest := True\<rparr>)"
  "\<not> endpoint_made x (cstring cfg) \<Longrightarrow> \<exists>e. tell_expect x px [bytes ''INGEST'', cfg] ''INGEST OK'' s = Inl e"
  "dm \<noteq> 0 \<Longrightarrow> tell_expect x px [bytes ''DETMASK'', in_base 10 (unat dm)] ''DETMASK OK'' s = Inr (s\<lparr>own_detmask := dm\<rparr>)"
  "tell_expect x px [bytes ''QUEUE'', in_base 10 (unat lwm), in_base 10 (unat hwm)] ''QUEUE OK'' s =
     Inr (s\<lparr>iq_lwm := lwm, iq_hwm := hwm\<rparr>)"
proof -
  have n: "unat w < 2 ^ 64" for w :: u64 using unsigned_less [of w, where 'a = nat] by simp
  note P = handle_pipe_numbers [OF n n, of x px _ s]
  show "tell x px [bytes ''VERBOSE''] s = Inr (s\<lparr>verbose := True\<rparr>)"
    "tell x px [bytes ''BIND'', a] s = Inr (s\<lparr>port := bind_socket px (Some (cstring a))\<rparr>)"
    "endpoint_made x (cstring cfg) \<Longrightarrow> tell_expect x px [bytes ''INGEST'', cfg] ''INGEST OK'' s = Inr (s\<lparr>ingest := True\<rparr>)"
    by (simp_all add: tell_def tell_expect_def handle_pipe_bind handle_pipe_ingest answers_match)
  show "\<not> endpoint_made x (cstring cfg) \<Longrightarrow> \<exists>e. tell_expect x px [bytes ''INGEST'', cfg] ''INGEST OK'' s = Inl e"
    using handle_pipe_ingest_fails [of x cfg px s] by (auto simp: tell_expect_def)
  show "dm \<noteq> 0 \<Longrightarrow> tell_expect x px [bytes ''DETMASK'', in_base 10 (unat dm)] ''DETMASK OK'' s = Inr (s\<lparr>own_detmask := dm\<rparr>)"
    using P [of dm dm] by (simp add: tell_expect_def answers_match unat_eq_zero)
  show "tell_expect x px [bytes ''QUEUE'', in_base 10 (unat lwm), in_base 10 (unat hwm)] ''QUEUE OK'' s =
     Inr (s\<lparr>iq_lwm := lwm, iq_hwm := hwm\<rparr>)"
    using P [of lwm hwm] by (simp add: tell_expect_def answers_match)
qed

lemma refused_mask:
  "\<exists>e. \<forall>s. tell_expect x px [bytes ''DETMASK'', in_base 10 (unat (0 :: u64))] ''DETMASK OK'' s = Inl e"
  using handle_pipe_numbers [of 0 0 x px] by (simp add: tell_expect_def)

lemma default_mask: "readint (cstring (bytes ''0xFFFFFFFFFFFFFFFF'')) = Some 0xFFFFFFFFFFFFFFFF"
proof -
  have "cstring (bytes ''0xFFFFFFFFFFFFFFFF'') = [48, 120, 70, 70, 70, 70, 70, 70, 70, 70, 70, 70, 70, 70, 70, 70, 70, 70]"
    by code_simp
  then show ?thesis by (simp add: scan_defs)
qed

lemma service_detmask_read:
  "service_detmask jl v = or_throw (if j_is_null jl v then Some 0xFFFFFFFFFFFFFFFF
     else map_option (\<lambda>t. case readint (cstring t) of Some m \<Rightarrow> m | None \<Rightarrow> 0xFFFFFFFFFFFFFFFF) (j_string jl v))"
  by (cases "j_string jl v") (simp_all add: service_detmask_def default_mask split: option.split)

lemma service_marks_read:
  "service_marks jl v = bind_agent (or_throw (if j_is_null jl v then Some 500000000 else Option.bind (j_at jl ''lwm'' v) (j_u64 jl)))
     (\<lambda>lwm. bind_agent (or_throw (if j_is_null jl v then Some 1000000000 else Option.bind (j_at jl ''hwm'' v) (j_u64 jl)))
     (\<lambda>hwm. Inr (lwm, hwm)))"
  by (cases "j_at jl ''lwm'' v"; cases "j_at jl ''hwm'' v") (simp_all add: service_marks_def)

text \<open>The service once its server listens for input.\<close>

lemma service_configured:
  "bind_agent (or_throw a) (\<lambda>address. bind_agent (tell x px [bytes ''BIND'', cstring address] s) (\<lambda>s.
     bind_agent (or_throw dmask) (\<lambda>dm. bind_agent (tell_expect x px [bytes ''DETMASK'', in_base 10 (unat dm)] ''DETMASK OK'' s) (\<lambda>s.
     bind_agent (bind_agent (or_throw lwm) (\<lambda>l. bind_agent (or_throw hwm) (\<lambda>h. Inr (l, h)))) (\<lambda>(l, h).
     tell_expect x px [bytes ''QUEUE'', in_base 10 (unat l), in_base 10 (unat h)] ''QUEUE OK'' s))))) =
   (case (a, dmask, lwm, hwm) of (Some address, Some dm, Some l, Some h) \<Rightarrow>
        if dm = 0 then tell_expect x px [bytes ''DETMASK'', in_base 10 (unat (0 :: u64))] ''DETMASK OK''
          (s\<lparr>port := bind_socket px (Some (cstring address))\<rparr>)
        else Inr (s\<lparr>port := bind_socket px (Some (cstring address)), own_detmask := dm, iq_lwm := l, iq_hwm := h\<rparr>)
      | (Some address, Some dm, _, _) \<Rightarrow>
        if dm = 0 then tell_expect x px [bytes ''DETMASK'', in_base 10 (unat (0 :: u64))] ''DETMASK OK''
          (s\<lparr>port := bind_socket px (Some (cstring address))\<rparr>)
        else Inl JsonError
      | _ \<Rightarrow> Inl JsonError)"
proof -
  have c: "cstring (cstring b) = cstring b" for b by (simp add: cstring_ident cstring_no_zero)
  obtain e where e: "tell_expect x px [bytes ''DETMASK'', in_base 10 (unat (0 :: u64))] ''DETMASK OK'' t = Inl e" for t
    using refused_mask by blast
  show ?thesis
    by (cases a; cases dmask; cases lwm; cases hwm; cases "dmask = Some 0")
      (simp_all add: tell_answers c e del: unsigned_0)
qed

text \<open>C38: a configuration that parses and has the members the service looks up starts the service unless
  its input cannot be made, its address is no string, its detector mask is neither null nor a string
  or reads as zero, or its queue is not null and a water mark does not convert to an unsigned number.
  The server then listens for input and has the mask and the water marks of the configuration, or
  their defaults: every bit, and 500000000 and 1000000000 ticks.\<close>

theorem service_starts:
  assumes "j_parse jl cfg = Some j" "j_at jl ''name'' j = Some nv" "j_is_string jl nv \<longrightarrow> j_string jl nv \<noteq> None"
    "j_at jl ''verbose'' j = Some vv" "j_at jl ''service'' j = Some sv"
    "j_at jl ''detmask'' j = Some dv" "dmask = (if j_is_null jl dv then Some 0xFFFFFFFFFFFFFFFF
       else map_option (\<lambda>t. case readint (cstring t) of Some m \<Rightarrow> m | None \<Rightarrow> 0xFFFFFFFFFFFFFFFF) (j_string jl dv))"
    "j_at jl ''queue'' j = Some qv"
    "lwm = (if j_is_null jl qv then Some 500000000 else Option.bind (j_at jl ''lwm'' qv) (j_u64 jl))"
    "hwm = (if j_is_null jl qv then Some 1000000000 else Option.bind (j_at jl ''hwm'' qv) (j_u64 jl))"
  shows "if \<not> endpoint_made x (cstring cfg) \<or> j_string jl sv = None \<or> dmask = None \<or> dmask = Some 0 \<or> lwm = None \<or> hwm = None
    then \<exists>e. tpq_service x px jl cfg rnd = Inl e
    else \<exists>s address. tpq_service x px jl cfg rnd = Inr s \<and> ingest s \<and> j_string jl sv = Some address \<and>
      port s = bind_socket px (Some (cstring address)) \<and> dmask = Some (own_detmask s) \<and>
      lwm = Some (iq_lwm s) \<and> hwm = Some (iq_hwm s) \<and> clients s = Map.empty \<and> iq s = []"
proof -
  obtain name where n: "json_name jl nv = Inr name" using assms(3) by (cases "j_is_string jl nv") (auto simp: json_name_def)
  define s where "s = (if j_is_number jl vv \<and> j_positive jl vv then (s_server_new rnd)\<lparr>verbose := True\<rparr> else s_server_new rnd)"
  have f: "clients s = Map.empty" "iq s = []"
    by (simp_all add: s_def s_server_new_def s_server_config_global_def Let_def server_initialize_def)
  have start: "tpq_service x px jl cfg rnd = bind_agent (tell_expect x px [bytes ''INGEST'', cfg] ''INGEST OK'' s) (\<lambda>s.
     (case (j_string jl sv, dmask, lwm, hwm) of (Some address, Some dm, Some l, Some h) \<Rightarrow>
        if dm = 0 then tell_expect x px [bytes ''DETMASK'', in_base 10 (unat (0 :: u64))] ''DETMASK OK''
          (s\<lparr>port := bind_socket px (Some (cstring address))\<rparr>)
        else Inr (s\<lparr>port := bind_socket px (Some (cstring address)), own_detmask := dm, iq_lwm := l, iq_hwm := h\<rparr>)
      | (Some address, Some dm, _, _) \<Rightarrow>
        if dm = 0 then tell_expect x px [bytes ''DETMASK'', in_base 10 (unat (0 :: u64))] ''DETMASK OK''
          (s\<lparr>port := bind_socket px (Some (cstring address))\<rparr>)
        else Inl JsonError
      | _ \<Rightarrow> Inl JsonError))"
    unfolding tpq_service_def assms(1,2,4-6,8) or_throw_simps bind_agent_simps n service_detmask_read service_marks_read
      assms(7,9,10) [symmetric] service_configured
    by (simp add: s_def tell_answers(1))
  show ?thesis
  proof (cases "endpoint_made x (cstring cfg)")
    case False
    then obtain e where "tell_expect x px [bytes ''INGEST'', cfg] ''INGEST OK'' s = Inl e" using tell_answers(4) by blast
    then show ?thesis using False by (simp add: start)
  next
    case True
    obtain e where e: "tell_expect x px [bytes ''DETMASK'', in_base 10 (unat (0 :: u64))] ''DETMASK OK'' t = Inl e" for t
      using refused_mask by blast
    show ?thesis using True f
      by (cases "j_string jl sv"; cases dmask; cases lwm; cases hwm) (simp_all add: start tell_answers(3) e del: unsigned_0)
  qed
qed

text \<open>A library for the witnesses. Its parser knows one text; booleans convert to no number.\<close>

datatype sample_value = JNull | JBool bool | JInt int | JFloat rat | JString "byte list" | JObject "(string \<times> sample_value) list"

definition sample_json :: "sample_value \<Rightarrow> sample_value json_extern" where
  "sample_json v = \<lparr>j_parse = (\<lambda>t. if t = bytes ''{}'' then Some v else None),
     j_at = (\<lambda>n v. case v of JObject ms \<Rightarrow> Some (case map_of ms n of None \<Rightarrow> JNull | Some w \<Rightarrow> w) | JNull \<Rightarrow> Some JNull | _ \<Rightarrow> None),
     j_is_null = (\<lambda>v. v = JNull), j_is_string = (\<lambda>v. case v of JString s \<Rightarrow> True | _ \<Rightarrow> False),
     j_is_number = (\<lambda>v. case v of JInt i \<Rightarrow> True | JFloat r \<Rightarrow> True | _ \<Rightarrow> False),
     j_positive = (\<lambda>v. case v of JInt i \<Rightarrow> i > 0 | JFloat r \<Rightarrow> r > 0 | _ \<Rightarrow> False),
     j_string = (\<lambda>v. case v of JString s \<Rightarrow> Some s | _ \<Rightarrow> None),
     j_u64 = (\<lambda>v. case v of JInt i \<Rightarrow> Some (word_of_int i) | _ \<Rightarrow> None),
     j_double = (\<lambda>v. case v of JInt i \<Rightarrow> Some (double_of (of_int i)) | JFloat r \<Rightarrow> Some r | _ \<Rightarrow> None)\<rparr>"

definition sample_agent_extern :: extern where
  "sample_agent_extern = \<lparr>strhex = (\<lambda>f. []), encode_msg = concat,
     tpset_of = (\<lambda>m. \<lparr>ts_tstart = 7, ts_tspan = 2, ts_detid = 1, ts_count = 0\<rparr>), endpoint_made = (\<lambda>f. True)\<rparr>"

definition sample_agent_pipe :: pipe_extern where
  "sample_agent_pipe = \<lparr>bind_socket = (\<lambda>e. 5555), load_config = (\<lambda>f. None), put_config = (\<lambda>c p v. c)\<rparr>"

text \<open>A queue with two numbers starts the service, one with a boolean does not.\<close>

definition sample_service :: "sample_value \<Rightarrow> sample_value" where
  "sample_service lwm = JObject [(''service'', JString [105]), (''queue'', JObject [(''lwm'', lwm), (''hwm'', JInt 10)])]"

lemma service_starts_witness:
  "(\<exists>s. tpq_service sample_agent_extern sample_agent_pipe (sample_json (sample_service (JInt 5))) (bytes ''{}'') 17 = Inr s \<and>
      own_detmask s = 0xFFFFFFFFFFFFFFFF \<and> iq_lwm s = 5 \<and> iq_hwm s = 10 \<and> port s = 5555) \<and>
   (\<exists>e. tpq_service sample_agent_extern sample_agent_pipe (sample_json (sample_service (JBool True))) (bytes ''{}'') 17 = Inl e)"
proof -
  let ?jl = "\<lambda>l. sample_json (sample_service l)" and ?q = "\<lambda>l. JObject [(''lwm'', l), (''hwm'', JInt 10)]"
  have j: "j_parse (?jl l) (bytes ''{}'') = Some (sample_service l)" "j_at (?jl l) ''name'' (sample_service l) = Some JNull"
    "j_is_string (?jl l) JNull \<longrightarrow> j_string (?jl l) JNull \<noteq> None" "j_at (?jl l) ''verbose'' (sample_service l) = Some JNull"
    "j_at (?jl l) ''service'' (sample_service l) = Some (JString [105])" "j_at (?jl l) ''detmask'' (sample_service l) = Some JNull"
    "j_at (?jl l) ''queue'' (sample_service l) = Some (?q l)" for l
    by (simp_all add: sample_json_def sample_service_def)
  have v: "j_is_null (?jl l) JNull" "\<not> j_is_null (?jl l) (?q l)" "j_string (?jl l) (JString [105]) = Some [105]"
    "endpoint_made sample_agent_extern f" "bind_socket sample_agent_pipe a = 5555"
    "Option.bind (j_at (?jl l) ''hwm'' (?q l)) (j_u64 (?jl l)) = Some 10"
    "Option.bind (j_at (?jl (JInt 5)) ''lwm'' (?q (JInt 5))) (j_u64 (?jl (JInt 5))) = Some 5"
    "Option.bind (j_at (?jl (JBool True)) ''lwm'' (?q (JBool True))) (j_u64 (?jl (JBool True))) = None" for l f a
    by (simp_all add: sample_json_def sample_agent_extern_def sample_agent_pipe_def)
  show ?thesis
    using service_starts [where x = sample_agent_extern and px = sample_agent_pipe and rnd = 17, OF j(1-6) [of "JInt 5"] refl j(7) refl refl]
      service_starts [where x = sample_agent_extern and px = sample_agent_pipe and rnd = 17, OF j(1-6) [of "JBool True"] refl j(7) refl refl]
    by (auto simp: v)
qed

text \<open>The signal of the destructor is no command that the server knows: its assertion fails.\<close>

lemma service_destructor_aborts: "tpq_service_destroy x px s = Inl (Fault AssertFailed)"
proof -
  have "cstring signal_frame = []" by (simp add: cstring_def signal_frame_def)
  moreover have "\<forall>m\<in>set [''VERBOSE'', ''$TERM'', ''BIND'', ''PORT'', ''LOAD'', ''CONFIGURE'', ''SET'', ''SAVE'', ''INGEST'',
      ''DETMASK'', ''QUEUE'']. [] \<noteq> bytes m" by code_simp
  ultimately show ?thesis
    by (simp add: tpq_service_destroy_def tell_def s_server_handle_pipe_def zmsg_popstr_def server_method_def)
qed

section \<open>The pace of the client agent\<close>

text \<open>A report about a message: what was asked for it, and what the answer was.\<close>

definition asked_about :: "extern \<Rightarrow> (u64 \<Rightarrow> u64 \<Rightarrow> u64 \<Rightarrow> u32 \<Rightarrow> 's \<Rightarrow> (int \<times> tpq_client \<times> 's) option) \<Rightarrow> zmsg \<Rightarrow> nat \<Rightarrow> u64 \<Rightarrow>
    's \<Rightarrow> 's \<Rightarrow> clt_report \<Rightarrow> bool" where
  "asked_about x ask msg N nrecv q q' p \<longleftrightarrow> (\<exists>rc a m. let t = tpset_of x msg in
     ask (word_of_int (ts_tstart t)) (word_of_int (ts_tspan t)) (ts_detid t) 1000 q = Some (rc, a, q') \<and>
     a_payload a = Some m \<and> rp_count p = of_nat N \<and> rp_seqno p = a_seqno a \<and> rp_nrecv p = nrecv \<and>
     rp_status p = sint (a_status a) \<and> rp_nframes p = length m \<and> rp_tpset p = t)"

text \<open>Every query is answered: the call returns a status and there is a payload.\<close>

definition answers :: "(u64 \<Rightarrow> u64 \<Rightarrow> u64 \<Rightarrow> u32 \<Rightarrow> 's \<Rightarrow> (int \<times> tpq_client \<times> 's) option) \<Rightarrow> bool" where
  "answers ask \<longleftrightarrow> (\<forall>a b m t q. \<exists>rc c pl q'. ask a b m t q = Some (rc, c, q') \<and> 0 \<le> rc \<and> a_payload c = Some pl)"

text \<open>The number of messages from one query to the next: the first whose product with the share is one
  after rounding. The greatest double below one is half a step of 2^-54 below what rounds to one.\<close>

definition paced :: "rat \<Rightarrow> nat \<Rightarrow> bool" where
  "paced d N \<longleftrightarrow> 0 < N \<and> N < 2 ^ 53 \<and> of_nat (N - 1) * d < 1 - 1 / 2 ^ 54 \<and> 1 - 1 / 2 ^ 54 \<le> of_nat N * d"

lemma count_below:
  assumes "n < 2 ^ 53"
  shows "unat (of_nat n :: u64) = n" "double_times (double_of (of_nat n)) d < 1 \<longleftrightarrow> of_nat n * d < 1 - 1 / 2 ^ 54"
proof -
  have "n < 2 ^ LENGTH(64)" using assms by simp
  then show "unat (of_nat n :: u64) = n" by (simp add: unsigned_of_nat take_bit_nat_eq_self)
  show "double_times (double_of (of_nat n)) d < 1 \<longleftrightarrow> of_nat n * d < 1 - 1 / 2 ^ 54"
    unfolding double_times_def double_of_nat [OF assms] by (rule double_below_one)
qed

lemma paced_below:
  assumes "paced d N" "n < N"
  shows "n < 2 ^ 53" "of_nat n * d < 1 - 1 / 2 ^ 54"
proof -
  show "n < 2 ^ 53" using assms by (simp add: paced_def)
  have "0 < of_nat N * d" using assms(1) by (simp add: paced_def)
  then have "0 < d" by (simp add: zero_less_mult_iff)
  moreover have "(of_nat n :: rat) \<le> of_nat (N - 1)" using assms(2) by (simp only: of_nat_le_iff)
  ultimately have "of_nat n * d \<le> of_nat (N - 1) * d" by (intro mult_right_mono) simp_all
  moreover have "of_nat (N - 1) * d < 1 - 1 / 2 ^ 54" using assms(1) unfolding paced_def by blast
  ultimately show "of_nat n * d < 1 - 1 / 2 ^ 54" by (rule le_less_trans)
qed

text \<open>The messages before the one that is asked about.\<close>

lemma skipped_messages:
  assumes "paced d N" "length ms + n < N" "ct_count c = of_nat n"
  shows "tpqclt_loop x d ask (map Input ms @ es) (c, q) = tpqclt_loop x d ask es (c\<lparr>ct_count := of_nat (n + length ms)\<rparr>, q)"
  using assms(2,3)
proof (induction ms arbitrary: c n)
  case (Cons msg ms)
  let ?c = "c\<lparr>ct_count := of_nat (Suc n)\<rparr>"
  have "Suc n < N" using Cons.prems(1) by simp
  note P = paced_below [OF assms(1) this]
  have e: "ct_count c + 1 = (of_nat (Suc n) :: u64)" using Cons.prems(2) by simp
  have "clt_input x d ask msg (c, q) = Inr (Some ((?c, q), None))"
    unfolding clt_input_def prod.case e Let_def count_below(1) [OF P(1)] count_below(2) [OF P(1)] using P(2) by simp
  then have "tpqclt_loop x d ask (map Input (msg # ms) @ es) (c, q) = tpqclt_loop x d ask (map Input ms @ es) (?c, q)"
    by (simp add: option.map_id case_prod_eta bind_fault_def split: sum.split)
  then show ?case using Cons.IH [of "Suc n" ?c] Cons.prems by (simp del: of_nat_Suc)
next
  case Nil
  then have "c\<lparr>ct_count := of_nat n\<rparr> = c" by (cases c) simp
  then show ?case by simp
qed

lemma asked_message:
  assumes "paced d N" "answers ask" "ct_count c = of_nat (N - 1)"
  shows "\<exists>c' q' p. clt_input x d ask msg (c, q) = Inr (Some ((c', q'), Some p)) \<and>
    ct_count c' = 0 \<and> ct_nrecv c' = ct_nrecv c + 1 \<and> asked_about x ask msg N (ct_nrecv c + 1) q q' p"
proof -
  have N: "0 < N" "N < 2 ^ 53" "\<not> of_nat N * d < 1 - 1 / 2 ^ 54" using assms(1) by (simp_all add: paced_def)
  have e: "ct_count c + 1 = (of_nat N :: u64)" using assms(3) N(1) by (simp add: of_nat_diff)
  have g: "\<not> double_times (double_of (of_nat (unat (of_nat N :: u64)))) d < 1" using count_below [OF N(2)] N(3) by simp
  obtain rc a m q' where "ask (word_of_int (ts_tstart (tpset_of x msg))) (word_of_int (ts_tspan (tpset_of x msg)))
      (ts_detid (tpset_of x msg)) 1000 q = Some (rc, a, q')" "0 \<le> rc" "a_payload a = Some m"
    using assms(2) unfolding answers_def by blast
  then show ?thesis unfolding clt_input_def prod.case e Let_def if_not_P [OF g] by (simp add: asked_about_def)
qed

lemma paced_loop:
  assumes "paced d N" "answers ask" "ct_count c = 0"
  shows "\<exists>reps qs. tpqclt_loop x d ask (map Input msgs @ PipeInput # es) (c, q) = Inr (Some (Some True, reps)) \<and>
    length reps = length msgs div N \<and> qs 0 = q \<and>
    (\<forall>i<length reps. asked_about x ask (msgs ! (N * (i + 1) - 1)) N (ct_nrecv c + of_nat (i + 1)) (qs i) (qs (Suc i)) (reps ! i))"
  using assms(3)
proof (induction "length msgs" arbitrary: msgs c q rule: less_induct)
  case less
  have N: "0 < N" using assms(1) by (simp add: paced_def)
  show ?case
  proof (cases "length msgs < N")
    case True
    then show ?thesis
      using skipped_messages [OF assms(1), of msgs 0 c x ask "PipeInput # es" q] less.prems
      by (intro exI [of _ "[]"] exI [of _ "\<lambda>_. q"]) simp
  next
    case False
    let ?ms = "take (N - 1) msgs" and ?m = "msgs ! (N - 1)" and ?r = "drop N msgs"
    have s: "msgs = ?ms @ ?m # ?r" using False N id_take_nth_drop [of "N - 1" msgs] by simp
    let ?c = "c\<lparr>ct_count := of_nat (N - 1)\<rparr>"
    obtain c' q' p where a: "clt_input x d ask ?m (?c, q) = Inr (Some ((c', q'), Some p))" "ct_count c' = 0"
      "ct_nrecv c' = ct_nrecv c + 1" "asked_about x ask ?m N (ct_nrecv c + 1) q q' p"
      using asked_message [OF assms(1,2), of ?c x ?m q] by auto
    have "length ?r < length msgs" using N False by simp
    from less.hyps [OF this a(2), of q'] obtain reps qs where r:
      "tpqclt_loop x d ask (map Input ?r @ PipeInput # es) (c', q') = Inr (Some (Some True, reps))"
      "length reps = length ?r div N" "qs 0 = q'" "\<forall>i<length reps. asked_about x ask (?r ! (N * (i + 1) - 1)) N
         (ct_nrecv c' + of_nat (i + 1)) (qs i) (qs (Suc i)) (reps ! i)" by blast
    have step: "tpqclt_loop x d ask (map Input (?ms @ ?m # ?r) @ PipeInput # es) (c, q) =
        tpqclt_loop x d ask (Input ?m # map Input ?r @ PipeInput # es) (?c, q)"
    proof -
      have l: "length ?ms = N - 1" "N - 1 + 0 < N" "ct_count c = of_nat 0" using N False less.prems by simp_all
      show ?thesis
        using skipped_messages [OF assms(1), of ?ms 0 c x ask "Input ?m # map Input ?r @ PipeInput # es" q] l
        by (simp only: l(1) map_append list.map append_assoc append_Cons add_0)
    qed
    have "tpqclt_loop x d ask (map Input (?ms @ ?m # ?r) @ PipeInput # es) (c, q) = Inr (Some (Some True, p # reps))"
      using a(1) r(1) unfolding step by simp
    then have run: "tpqclt_loop x d ask (map Input msgs @ PipeInput # es) (c, q) = Inr (Some (Some True, p # reps))"
      unfolding s [symmetric] .
    have len: "length (p # reps) = length msgs div N" using r(2) N False by (simp add: le_div_geq)
    have at: "asked_about x ask (msgs ! (N * (i + 1) - 1)) N (ct_nrecv c + of_nat (i + 1))
        (case_nat q qs i) (case_nat q qs (Suc i)) ((p # reps) ! i)" if "i < length (p # reps)" for i
    proof (cases i)
      case 0
      then show ?thesis using a(4) r(3) by simp
    next
      case (Suc j)
      have "N + (N * (j + 1) - 1) = N * (Suc j + 1) - 1" using N by (cases N) simp_all
      then have "?r ! (N * (j + 1) - 1) = msgs ! (N * (Suc j + 1) - 1)" using False by (simp add: nth_drop)
      then show ?thesis using r(4) that a(3) by (auto simp: Suc add.commute add.left_commute)
    qed
    show ?thesis by (intro exI [of _ "p # reps"] exI [of _ "case_nat q qs"]) (use run len at in simp)
  qed
qed


text \<open>The double nearest to 1/3 has three messages from one query to the next, although three times its
  value is less than one.\<close>

definition third :: rat where
  "third = 6004799503160661 / 2 ^ 54"

lemma third_paced: "double_of (1 / 3) = third" "3 * third < 1" "paced third 3"
proof -
  show "double_of (1 / 3) = third" by code_simp
qed (simp_all add: third_def paced_def)

definition sample_client :: "sample_value" where
  "sample_client = JObject [(''minbias'', JFloat third), (''service'', JString [105])]"


end
