(* ===== verification/IclMapSub.thy ===== *)
theory IclMapSub
  imports IclMapOps
begin

text \<open>
  Subtraction of a segment from an interval map and erasure of a segment, which takes away only
  the pairs with its value (\<open>interval_base_map.hpp\<close>). Both keep the invariant \<open>wf_imap\<close>
  and are described by the pairs of the result.
\<close>

section \<open>Subtraction\<close>

definition subtract_front :: "discrete_interval \<Rightarrow> 'c cursor \<Rightarrow> 'c cursor" where
  "subtract_front inter_val z =
     (case z of (pre, cur, suf) \<Rightarrow>
        let left_resid = right_subtract (fst cur) inter_val
        in if \<not> is_empty_ivl left_resid
           then ((left_resid, snd cur) # pre, (left_subtract (fst cur) left_resid, snd cur), suf)
           else z)"

fun subtract_main :: "('c \<Rightarrow> 'c \<Rightarrow> 'c) \<Rightarrow> 'c \<Rightarrow> 'c \<Rightarrow> 'c segment list \<Rightarrow> 'c segment \<Rightarrow> 'c segment list
     \<Rightarrow> 'c segment list \<times> 'c segment" where
  "subtract_main comb idel co_val pre cur [] = (pre, cur)"
| "subtract_main comb idel co_val pre cur (nxt # mid) =
     subtract_main comb idel co_val (handle_left_combined idel pre (fst cur, comb (snd cur) co_val)) nxt mid"

text \<open>\<open>handle_combined(it_)\<close> and \<open>handle_succeeded_combined(it_, next_)\<close>: the whole map afterwards.\<close>

definition handle_combined :: "'c \<Rightarrow> 'c cursor \<Rightarrow> 'c imap" where
  "handle_combined idel z =
     (case z of (pre, cur, suf) \<Rightarrow>
        if is_absorbable idel (snd cur) then rev pre @ suf else flatten (join_neighbours z))"

definition handle_succeeded_combined :: "'c \<Rightarrow> 'c segment list \<Rightarrow> 'c segment \<Rightarrow> 'c segment \<Rightarrow> 'c segment list \<Rightarrow> 'c imap" where
  "handle_succeeded_combined idel pre cur nxt suf =
     (if is_absorbable idel (snd cur) then flatten (join_right (pre, nxt, suf))
      else (case join_left (pre, cur, nxt # suf) of (pre', cur', _) \<Rightarrow>
              flatten (join_neighbours (cur' # pre', nxt, suf))))"

definition subtract_rear ::
  "('c \<Rightarrow> 'c \<Rightarrow> 'c) \<Rightarrow> 'c \<Rightarrow> discrete_interval \<Rightarrow> 'c \<Rightarrow> 'c cursor \<Rightarrow> 'c imap" where
  "subtract_rear comb idel inter_val co_val z =
     (case z of (pre, cur, suf) \<Rightarrow>
        let right_resid = left_subtract (fst cur) inter_val
        in if is_empty_ivl right_resid
           then handle_combined idel (pre, (fst cur, comb (snd cur) co_val), suf)
           else handle_succeeded_combined idel pre
                  (right_subtract (fst cur) right_resid, comb (snd cur) co_val) (right_resid, snd cur) suf)"

definition subtract_seg :: "('c \<Rightarrow> 'c \<Rightarrow> 'c) \<Rightarrow> 'c \<Rightarrow> 'c segment \<Rightarrow> 'c imap \<Rightarrow> 'c imap" where
  "subtract_seg comb idel minuend m =
     (let inter_val = fst minuend; co_val = snd minuend
      in if is_empty_ivl inter_val then m
         else if is_absorbable idel co_val then m
         else (case equal_range inter_val m of
                 [] \<Rightarrow> m
               | cur # mid \<Rightarrow>
                   (case subtract_front inter_val (rev (before_range inter_val m), cur, []) of (pre1, first, _) \<Rightarrow>
                    case subtract_main comb idel co_val pre1 first mid of (pre2, lst) \<Rightarrow>
                      subtract_rear comb idel inter_val co_val (pre2, lst, from_upper_bound inter_val m))))"

text \<open>The pairs of a set inside and outside an interval, and with \<open>co\<close> combined into each.\<close>

definition inside :: "discrete_interval \<Rightarrow> (int \<times> 'c) set \<Rightarrow> (int \<times> 'c) set" where
  "inside i D = {(x, v) \<in> D. x \<in> iset i}"

definition outside :: "discrete_interval \<Rightarrow> (int \<times> 'c) set \<Rightarrow> (int \<times> 'c) set" where
  "outside i D = {(x, v) \<in> D. x \<notin> iset i}"

definition combined :: "('c \<Rightarrow> 'c \<Rightarrow> 'c) \<Rightarrow> 'c \<Rightarrow> 'c \<Rightarrow> (int \<times> 'c) set \<Rightarrow> (int \<times> 'c) set" where
  "combined comb idel co D = {(x, v). \<exists>w. (x, w) \<in> D \<and> v = comb w co \<and> v \<noteq> idel}"

lemma split_Un [simp]:
  "inside i (A \<union> B) = inside i A \<union> inside i B" "outside i (A \<union> B) = outside i A \<union> outside i B"
  "combined comb idel co (A \<union> B) = combined comb idel co A \<union> combined comb idel co B"
  "inside i {} = {}" "outside i {} = {}" "combined comb idel co {} = {}"
  by (auto simp: inside_def outside_def combined_def)

lemma inside_all: "\<forall>(x, v)\<in>D. first_ivl i \<le> x \<and> x \<le> last_ivl i \<Longrightarrow> inside i D = D \<and> outside i D = {}"
  by (auto simp: inside_def outside_def iset_def)

lemma outside_all: "\<forall>(x, v)\<in>D. x < first_ivl i \<or> last_ivl i < x \<Longrightarrow> inside i D = {} \<and> outside i D = D"
  by (fastforce simp: inside_def outside_def iset_def)

lemma combined_sden:
  "combined comb idel co (sden s) = (if comb (snd s) co = idel then {} else sden (fst s, comb (snd s) co))"
  by (auto simp: combined_def)

lemma subtract_front_add: "subtract_front i z = add_front i z"
  by (simp add: subtract_front_def add_front_def)

lemma subtract_main_ok:
  assumes "lwf idel pre (first_ivl (fst c))" "seg_ok idel c" "rwf idel mid (last_ivl (fst c))"
    "subtract_main comb idel co pre c mid = (pre', c')"
  shows "lwf idel pre' (first_ivl (fst c')) \<and> c' = last (c # mid) \<and> seg_ok idel c' \<and>
    first_ivl (fst c) \<le> first_ivl (fst c') \<and>
    (\<forall>(x, w)\<in>den (butlast (c # mid)). first_ivl (fst c) \<le> x \<and> x < first_ivl (fst c')) \<and>
    den pre' = den pre \<union> combined comb idel co (den (butlast (c # mid)))"
  using assms
proof (induction mid arbitrary: pre c)
  case (Cons n mid)
  let ?p = "handle_left_combined idel pre (fst c, comb (snd c) co)"
  have n: "seg_ok idel n" "last_ivl (fst c) < first_ivl (fst n)" "rwf idel mid (last_ivl (fst n))"
    using Cons.prems(3) by simp_all
  have le: "first_ivl (fst c) \<le> last_ivl (fst c)" using Cons.prems(2) by (rule seg_ok_ends)
  have "valid_ivl (fst c)" "\<not> is_empty_ivl (fst c)" using Cons.prems(2) by (simp_all add: seg_ok_def)
  from handle_left_combined_ok [OF Cons.prems(1) this n(2)]
  have P: "lwf idel ?p (first_ivl (fst n))" "den ?p = den pre \<union> combined comb idel co (sden c)"
    by (simp_all add: combined_sden)
  have s: "subtract_main comb idel co ?p n mid = (pre', c')" using Cons.prems(4) by simp
  show ?case using Cons.IH [OF P(1) n(1,3) s] P(2) n(2) le by (fastforce simp: Un_assoc)
qed auto

lemma handle_combined_preceeded: "handle_combined idel z = handle_preceeded_combined idel z"
  by (simp add: handle_combined_def handle_preceeded_combined_def)

lemma handle_succeeded_gap:
  "handle_succeeded_combined idel pre (i, v) (e, co) suf = gap_insert_at idel (pre, (i, v), suf) e co"
  by (cases pre) (simp_all add: handle_succeeded_combined_def gap_insert_at_def)

lemma subtract_rear_ok:
  assumes "lwf idel pre (first_ivl (fst c))" "valid_ivl i" "seg_ok idel c"
    "first_ivl i \<le> first_ivl (fst c)" "first_ivl (fst c) \<le> last_ivl i" "rwf idel suf (last_ivl (fst c))"
  shows "wf_imap idel (subtract_rear comb idel i co (pre, c, suf)) \<and>
    den (subtract_rear comb idel i co (pre, c, suf)) =
      den pre \<union> combined comb idel co (inside i (sden c)) \<union> outside i (sden c) \<union> den suf"
proof -
  let ?r = "left_subtract (fst c) i" and ?v = "comb (snd c) co"
  have c: "valid_ivl (fst c)" "\<not> is_empty_ivl (fst c)" "first_ivl (fst c) \<le> last_ivl (fst c)"
    using assms(3) seg_ok_ends [OF assms(3)] by (auto simp: seg_ok_def)
  have ii: "seg_ok idel (i, snd c)" using assms by (simp add: seg_ok_def is_empty_iff)
  have R: "valid_ivl ?r" "first_ivl ?r = last_ivl i + 1" "last_ivl ?r = last_ivl (fst c)"
    "is_empty_ivl ?r \<longleftrightarrow> last_ivl (fst c) \<le> last_ivl i"
    using left_subtract_overlap [OF c(1) ii] assms(5) c by simp_all
  show ?thesis
  proof (cases "is_empty_ivl ?r")
    case True
    then have "inside i (sden c) = sden c \<and> outside i (sden c) = {}"
      using R(4) assms(4) by (intro inside_all) auto
    then show ?thesis using True c assms(1,6) handle_preceeded_combined_ok [of idel pre "fst c" suf ?v]
      by (simp add: subtract_rear_def handle_combined_preceeded combined_sden)
  next
    case False
    let ?m = "right_subtract (fst c) ?r"
    have ok: "seg_ok idel (?r, snd c)" using R False assms(3) by (simp add: seg_ok_def)
    have M: "valid_ivl ?m" "first_ivl ?m = first_ivl (fst c)" "last_ivl ?m = last_ivl i" "\<not> is_empty_ivl ?m"
      using right_subtract_overlap [OF c(1) ok] R c assms(5) False by simp_all
    have "sden c = sden (?m, snd c) \<union> sden (?r, snd c)"
      using M R False assms(5) by (auto simp: sden_def iset_def)
    moreover have "inside i (sden (?m, snd c)) = sden (?m, snd c) \<and> outside i (sden (?m, snd c)) = {}"
      using M assms(4) by (intro inside_all) auto
    moreover have "inside i (sden (?r, snd c)) = {} \<and> outside i (sden (?r, snd c)) = sden (?r, snd c)"
      using R by (intro outside_all) auto
    ultimately show ?thesis using False gap_insert_at_ok [of idel pre ?m ?r "snd c" suf ?v] M R ok assms(1,6)
      by (simp add: subtract_rear_def handle_succeeded_gap combined_sden Let_def)
  qed
qed

lemma subtract_seg_ok:
  assumes wf: "wf_imap idel m" and i: "valid_ivl i"
  shows "wf_imap idel (subtract_seg comb idel (i, co) m) \<and> den (subtract_seg comb idel (i, co) m) =
    (if co = idel then den m else combined comb idel co (inside i (den m)) \<union> outside i (den m))"
proof (cases "is_empty_ivl i \<or> co = idel")
  case True
  have "iset i = {} \<Longrightarrow> inside i (den m) = {} \<and> outside i (den m) = den m"
    by (auto simp: inside_def outside_def)
  then show ?thesis using True wf i by (auto simp: subtract_seg_def is_absorbable_def iset_empty_iff)
next
  case False
  let ?b = "before_range i m" and ?u = "from_upper_bound i m"
  note R = range_split [OF wf, of i]
  have le: "first_ivl i \<le> last_ivl i" using False i by (simp add: is_empty_iff)
  have B: "inside i (den ?b) = {} \<and> outside i (den ?b) = den ?b"
    using den_below [OF R(1)] by (intro outside_all) auto
  have U: "inside i (den ?u) = {} \<and> outside i (den ?u) = den ?u"
    using den_above [OF R(2)] by (intro outside_all) auto
  show ?thesis
  proof (cases "equal_range i m")
    case Nil
    then have "den m = den ?b \<union> den ?u" using range_parts [of m i] den_simps(3) by (metis append_Nil)
    then show ?thesis using B U Nil False wf by (simp add: subtract_seg_def is_absorbable_def)
  next
    case (Cons cur mid)
    obtain pre1 c1 z where f: "add_front i (rev ?b, cur, []) = (pre1, c1, z)" by (metis prod_cases3)
    obtain pre2 c2 where s: "subtract_main comb idel co pre1 c1 mid = (pre2, c2)" by (metis surj_pair)
    have eq: "subtract_seg comb idel (i, co) m = subtract_rear comb idel i co (pre2, c2, ?u)"
      using False f s by (simp add: subtract_seg_def Cons subtract_front_add is_absorbable_def Let_def)
    have m: "m = ?b @ cur # mid @ ?u" using range_parts [of m i] Cons by simp
    have P: "lwf idel (rev ?b) (first_ivl (fst cur))" "seg_ok idel cur" "rwf idel (mid @ ?u) (last_ivl (fst cur))"
      "?b = [] \<or> \<not> joinable (last ?b) cur"
      using lwf_part [of idel ?b cur "mid @ ?u"] wf m by auto
    have ov: "\<forall>t\<in>set (cur # mid). first_ivl i \<le> last_ivl (fst t) \<and> first_ivl (fst t) \<le> last_ivl i"
      using R(3) Cons by simp
    have F: "lwf idel pre1 (first_ivl i)" "seg_ok idel c1" "first_ivl i \<le> first_ivl (fst c1)"
      "first_ivl (fst c1) \<le> last_ivl i" "last_ivl (fst c1) = last_ivl (fst cur)"
      "den pre1 \<union> sden c1 = den ?b \<union> sden cur"
      using add_front_ok [OF P(1) R(1) _ P(2) i le _ _ f] P(4) ov by (auto simp: hd_rev)
    have mid: "rwf idel mid (last_ivl (fst c1))" using P(3) F(5) by (auto simp: rwf_iff wf_append)
    have l1: "lwf idel pre1 (first_ivl (fst c1))" using F(1,3) by (rule lwf_mono)
    note S = subtract_main_ok [OF l1 F(2) mid s]
    have "rwf idel ?u (last_ivl (fst (last (c1 # mid))))"
    proof (cases mid rule: rev_cases)
      case Nil
      then show ?thesis using P(3) F(5) by simp
    next
      case (snoc ms t)
      then show ?thesis using lwf_part(3) [of idel "?b @ cur # ms" t ?u] wf m by simp
    qed
    moreover have "first_ivl (fst (last (c1 # mid))) \<le> last_ivl i" using ov F(4) by auto
    ultimately have A: "wf_imap idel (subtract_rear comb idel i co (pre2, c2, ?u))"
      "den (subtract_rear comb idel i co (pre2, c2, ?u)) =
        den pre2 \<union> combined comb idel co (inside i (sden c2)) \<union> outside i (sden c2) \<union> den ?u"
      using subtract_rear_ok [of idel pre2 c2 i ?u comb co] S F(3) i by auto
    let ?D = "den (butlast (c1 # mid))"
    have "first_ivl (fst c2) \<le> last_ivl i" using S ov F(4) by auto
    then have D: "inside i ?D = ?D \<and> outside i ?D = {}"
      using S F(3) by (intro inside_all) fastforce
    have E: "inside i (den pre1) = {} \<and> outside i (den pre1) = den pre1"
      using den_below [OF F(1)] by (intro outside_all) auto
    have "den m = (den pre1 \<union> den ?u) \<union> (?D \<union> sden c2)"
    proof -
      have "den (c1 # mid) = ?D \<union> sden c2" using S den_last [of "c1 # mid"] by (metis list.distinct(1))
      moreover have "den m = (den ?b \<union> sden cur) \<union> den mid \<union> den ?u" by (subst m) auto
      ultimately show ?thesis using F(6) by auto
    qed
    then have "combined comb idel co (inside i (den m)) \<union> outside i (den m) =
      den pre1 \<union> den ?u \<union> combined comb idel co ?D \<union> combined comb idel co (inside i (sden c2)) \<union> outside i (sden c2)"
      using D E U by (simp add: Un_ac)
    then show ?thesis using A S eq False by (simp add: Un_ac)
  qed
qed

section \<open>Erasure of a segment\<close>

fun erase_rest :: "discrete_interval \<Rightarrow> 'c \<Rightarrow> 'c segment \<Rightarrow> 'c segment list \<Rightarrow> 'c segment list" where
  "erase_rest inter_val co_val cur [] =
     (if snd cur = co_val
      then (let right_resid = left_subtract (fst cur) inter_val
            in if is_empty_ivl right_resid then [] else [(right_resid, snd cur)])
      else [cur])"
| "erase_rest inter_val co_val cur (nxt # mid) =
     (if snd cur = co_val then erase_rest inter_val co_val nxt mid
      else cur # erase_rest inter_val co_val nxt mid)"

definition erase_one :: "discrete_interval \<Rightarrow> 'c \<Rightarrow> 'c segment \<Rightarrow> 'c segment list" where
  "erase_one inter_val co_val s =
     (let right_resid = left_subtract (fst s) inter_val
      in if snd s = co_val
         then (let left_resid = right_subtract (fst s) inter_val
               in if \<not> is_empty_ivl left_resid
                  then (if \<not> is_empty_ivl right_resid then [(left_resid, snd s), (right_resid, co_val)]
                        else [(left_resid, snd s)])
                  else if \<not> is_empty_ivl right_resid then [(right_resid, snd s)]
                  else [])
         else [s])"

definition erase_first :: "discrete_interval \<Rightarrow> 'c \<Rightarrow> 'c segment \<Rightarrow> 'c segment list" where
  "erase_first inter_val co_val s =
     (if snd s = co_val
      then (let left_resid = right_subtract (fst s) inter_val
            in if is_empty_ivl left_resid then [] else [(left_resid, snd s)])
      else [s])"

definition erase_seg :: "'c \<Rightarrow> 'c segment \<Rightarrow> 'c imap \<Rightarrow> 'c imap" where
  "erase_seg idel minuend m =
     (let inter_val = fst minuend; co_val = snd minuend
      in if is_empty_ivl inter_val then m
         else if is_absorbable idel co_val then m
         else case equal_range inter_val m of
                [] \<Rightarrow> m
              | [s] \<Rightarrow> before_range inter_val m @ erase_one inter_val co_val s @ from_upper_bound inter_val m
              | s # t # ts \<Rightarrow> before_range inter_val m
                   @ (erase_first inter_val co_val s @ erase_rest inter_val co_val t ts)
                   @ from_upper_bound inter_val m)"

text \<open>
  The same erasure pair by pair: what is left of a pair with the value are its parts before and
  behind the interval.
\<close>

definition cut_seg :: "discrete_interval \<Rightarrow> 'c \<Rightarrow> 'c segment \<Rightarrow> 'c segment list" where
  "cut_seg i co s = (if snd s = co then filter (\<lambda>t. \<not> is_empty_ivl (fst t))
     [(right_subtract (fst s) i, snd s), (left_subtract (fst s) i, snd s)] else [s])"

definition pieces :: "'c \<Rightarrow> 'c segment \<Rightarrow> 'c segment list \<Rightarrow> bool" where
  "pieces idel s p \<longleftrightarrow> wf_imap idel p \<and>
     (\<forall>t\<in>set p. first_ivl (fst s) \<le> first_ivl (fst t) \<and> last_ivl (fst t) \<le> last_ivl (fst s) \<and> snd t = snd s)"

lemma pieces_self: "seg_ok idel s \<Longrightarrow> pieces idel s [s]"
  by (simp add: pieces_def wf_imap_def)

lemma cut_before:
  assumes "seg_ok idel s" "valid_ivl i" "first_ivl i \<le> last_ivl i" "last_ivl (fst s) < first_ivl i"
  shows "cut_seg i co s = [s]"
proof -
  have s: "valid_ivl (fst s)" "\<not> is_empty_ivl (fst s)" "first_ivl (fst s) \<le> last_ivl (fst s)"
    using assms(1) seg_ok_ends [OF assms(1)] by (auto simp: seg_ok_def)
  have "exclusive_less (fst s) i" "\<not> exclusive_less i (fst s)"
    using assms s by (auto simp: exclusive_less_def is_empty_iff)
  then have "right_subtract (fst s) i = fst s" "is_empty_ivl (left_subtract (fst s) i)"
    using right_subtract_same left_subtract_ends [of i "fst s"] s assms by (simp_all add: is_empty_iff)
  then show ?thesis using s by (cases s) (simp add: cut_seg_def)
qed

lemma cut_behind:
  assumes "seg_ok idel s" "valid_ivl i" "first_ivl i \<le> last_ivl i" "last_ivl i < first_ivl (fst s)"
  shows "cut_seg i co s = [s]"
proof -
  have s: "valid_ivl (fst s)" "\<not> is_empty_ivl (fst s)" "first_ivl (fst s) \<le> last_ivl (fst s)"
    using assms(1) seg_ok_ends [OF assms(1)] by (auto simp: seg_ok_def)
  have "exclusive_less i (fst s)" "\<not> exclusive_less (fst s) i"
    using assms s by (auto simp: exclusive_less_def is_empty_iff)
  then have "left_subtract (fst s) i = fst s" "is_empty_ivl (right_subtract (fst s) i)"
    using left_subtract_same right_subtract_ends [of "fst s" i] s assms by (simp_all add: is_empty_iff)
  then show ?thesis using s by (cases s) (simp add: cut_seg_def)
qed

lemma overlap_parts:
  assumes "seg_ok idel s" "valid_ivl i" "first_ivl i \<le> last_ivl i"
    "first_ivl i \<le> last_ivl (fst s)" "first_ivl (fst s) \<le> last_ivl i"
  shows "valid_ivl (right_subtract (fst s) i)" "first_ivl (right_subtract (fst s) i) = first_ivl (fst s)"
    "last_ivl (right_subtract (fst s) i) = first_ivl i - 1"
    "is_empty_ivl (right_subtract (fst s) i) \<longleftrightarrow> first_ivl i \<le> first_ivl (fst s)"
    "valid_ivl (left_subtract (fst s) i)" "first_ivl (left_subtract (fst s) i) = last_ivl i + 1"
    "last_ivl (left_subtract (fst s) i) = last_ivl (fst s)"
    "is_empty_ivl (left_subtract (fst s) i) \<longleftrightarrow> last_ivl (fst s) \<le> last_ivl i"
proof -
  have s: "valid_ivl (fst s)" "first_ivl (fst s) \<le> last_ivl (fst s)"
    using assms(1) seg_ok_ends [OF assms(1)] by (auto simp: seg_ok_def)
  have ii: "seg_ok idel (i, snd s)" using assms by (simp add: seg_ok_def is_empty_iff)
  show "valid_ivl (right_subtract (fst s) i)" "first_ivl (right_subtract (fst s) i) = first_ivl (fst s)"
    "last_ivl (right_subtract (fst s) i) = first_ivl i - 1"
    "is_empty_ivl (right_subtract (fst s) i) \<longleftrightarrow> first_ivl i \<le> first_ivl (fst s)"
    using right_subtract_overlap [OF s(1) ii] assms s by simp_all
  show "valid_ivl (left_subtract (fst s) i)" "first_ivl (left_subtract (fst s) i) = last_ivl i + 1"
    "last_ivl (left_subtract (fst s) i) = last_ivl (fst s)"
    "is_empty_ivl (left_subtract (fst s) i) \<longleftrightarrow> last_ivl (fst s) \<le> last_ivl i"
    using left_subtract_overlap [OF s(1) ii] assms s by simp_all
qed

lemma cut_ok:
  assumes "seg_ok idel s" "valid_ivl i" "first_ivl i \<le> last_ivl i"
  shows "pieces idel s (cut_seg i co s) \<and> den (cut_seg i co s) = {(x, v) \<in> sden s. \<not> (x \<in> iset i \<and> v = co)}"
proof -
  have s: "first_ivl (fst s) \<le> last_ivl (fst s)" "snd s \<noteq> idel"
    using assms(1) seg_ok_ends [OF assms(1)] by (auto simp: seg_ok_def)
  consider "last_ivl (fst s) < first_ivl i" | "last_ivl i < first_ivl (fst s)" | "snd s \<noteq> co"
    | "snd s = co" "first_ivl i \<le> last_ivl (fst s)" "first_ivl (fst s) \<le> last_ivl i" by linarith
  then show ?thesis
  proof cases
    case 1
    then show ?thesis using cut_before [OF assms] pieces_self [OF assms(1)]
      by (auto simp: iset_def simp del: in_sden simp: sden_def)
  next
    case 2
    then show ?thesis using cut_behind [OF assms] pieces_self [OF assms(1)]
      by (auto simp: iset_def simp del: in_sden simp: sden_def)
  next
    case 3
    then show ?thesis using pieces_self [OF assms(1)] by (auto simp: cut_seg_def sden_def)
  next
    case 4
    note O = overlap_parts [OF assms 4(2,3)]
    let ?l = "(right_subtract (fst s) i, snd s)" and ?r = "(left_subtract (fst s) i, snd s)"
    have c: "cut_seg i co s = (if first_ivl (fst s) < first_ivl i then [?l] else []) @ (if last_ivl i < last_ivl (fst s) then [?r] else [])"
      using 4(1) O(4,8) by (auto simp: cut_seg_def)
    have l: "seg_ok idel ?l" if "first_ivl (fst s) < first_ivl i" using O(1,4) s that by (simp add: seg_ok_def)
    have r: "seg_ok idel ?r" if "last_ivl i < last_ivl (fst s)" using O(5,8) s that by (simp add: seg_ok_def)
    have "seg_lt ?l ?r" "\<not> joinable ?l ?r" using O(3,6) assms(3) by (auto simp: seg_lt_def joinable_def dest: touchesD)
    then have "wf_imap idel (cut_seg i co s)" using l r by (auto simp: c wf_imap_def)
    moreover have "first_ivl (fst s) \<le> first_ivl (fst t) \<and> last_ivl (fst t) \<le> last_ivl (fst s) \<and> snd t = snd s"
      if "t \<in> set (cut_seg i co s)" for t
      using that O(2,3,6,7) 4 by (auto simp: c split: if_splits)
    moreover have "den (cut_seg i co s) = {(x, v) \<in> sden s. \<not> (x \<in> iset i \<and> v = co)}"
    proof -
      have "sden ?l = {first_ivl (fst s) ..< first_ivl i} \<times> {co}" "sden ?r = {last_ivl i <.. last_ivl (fst s)} \<times> {co}"
        "sden s = {first_ivl (fst s) .. last_ivl (fst s)} \<times> {co}"
        using O(2,3,6,7) 4(1) by (auto simp: sden_def iset_def)
      then show ?thesis using 4 by (auto simp: c iset_def simp del: in_sden)
    qed
    ultimately show ?thesis unfolding pieces_def by blast
  qed
qed

lemma wf_pieces:
  assumes "wf_imap idel m" "\<forall>s\<in>set m. pieces idel s (f s)"
  shows "wf_imap idel (concat (map f m))"
  using assms
proof (induction m)
  case (Cons s m)
  have R: "rwf idel m (last_ivl (fst s))" "seg_ok idel s" "m = [] \<or> \<not> joinable s (hd m)"
    using lwf_part [of idel "[]" s m] Cons.prems(1) wf_append [of idel "[s]" m] by auto
  have below: "\<exists>u\<in>set m. first_ivl (fst u) \<le> first_ivl (fst t) \<and> snd t = snd u" if "t \<in> set (concat (map f m))" for t
    using that Cons.prems(2) by (auto simp: pieces_def)
  have gt: "last_ivl (fst s) < first_ivl (fst u)" if "u \<in> set m" for u using R(1) that by (simp add: rwf_iff)
  have p: "wf_imap idel (f s)" "\<And>t. t \<in> set (f s) \<Longrightarrow> last_ivl (fst t) \<le> last_ivl (fst s) \<and> snd t = snd s"
    using Cons.prems(2) by (auto simp: pieces_def)
  have "\<not> joinable a b" if a: "a \<in> set (f s)" and b: "b \<in> set (concat (map f m))" for a b
  proof
    assume j: "joinable a b"
    obtain u where u: "u \<in> set m" "first_ivl (fst u) \<le> first_ivl (fst b)" "snd b = snd u" using below [OF b] by blast
    have e: "last_ivl (fst a) + 1 = first_ivl (fst b)" "snd a = snd b" using j touchesD by (auto simp: joinable_def)
    then have t: "first_ivl (fst u) = last_ivl (fst s) + 1" using p(2) [OF a] gt [OF u(1)] u(2) by simp
    have "m \<noteq> []" using u(1) by auto
    have wm: "wf_imap idel m" using R(1) by (simp add: rwf_iff)
    obtain h n where h: "m = h # n" using \<open>m \<noteq> []\<close> by (cases m) auto
    have "seg_ok idel h" using wm h by (simp add: wf_imap_def)
    then have "first_ivl (fst h) \<le> last_ivl (fst h)" by (rule seg_ok_ends)
    then have "u = h" using u(1) h t gt [of h] wm by (auto simp: wf_imap_def seg_lt_def)
    then have "joinable s h" using e t p(2) [OF a] u(3) j
      by (simp add: joinable_def touches_def domain_next_def)
    then show False using R(3) h by simp
  qed
  then have "f s = [] \<or> concat (map f m) = [] \<or> \<not> joinable (last (f s)) (hd (concat (map f m)))"
    using last_in_set hd_in_set by blast
  moreover have "seg_lt a b" if "a \<in> set (f s)" "b \<in> set (concat (map f m))" for a b
    using p(2) [OF that(1)] below [OF that(2)] gt by (fastforce simp: seg_lt_def)
  ultimately show ?case using Cons p(1) R(1) wf_append [of idel "f s" "concat (map f m)"] by (simp add: rwf_iff)
qed simp

lemma erase_one_cut: "erase_one i co s = cut_seg i co s"
  by (simp add: erase_one_def cut_seg_def Let_def)

lemma erase_rest_cut:
  assumes "wf_imap idel (t # ts)" "valid_ivl i" "first_ivl i \<le> last_ivl i"
    "\<forall>s\<in>set (t # ts). first_ivl i \<le> first_ivl (fst s) \<and> first_ivl (fst s) \<le> last_ivl i"
  shows "erase_rest i co t ts = concat (map (cut_seg i co) (t # ts))"
  using assms
proof (induction ts arbitrary: t)
  case Nil
  have t: "seg_ok idel t" using Nil(1) by (simp add: wf_imap_def)
  then have "first_ivl i \<le> last_ivl (fst t)" using Nil(4) seg_ok_ends [OF t] by simp
  then show ?case using overlap_parts [OF t Nil(2,3)] Nil(4) by (simp add: cut_seg_def Let_def)
next
  case (Cons n ts)
  have t: "seg_ok idel t" "last_ivl (fst t) < first_ivl (fst n)" "wf_imap idel (n # ts)"
    using Cons.prems(1) by (auto simp: wf_imap_def seg_lt_def)
  then have "first_ivl i \<le> last_ivl (fst t)" using Cons.prems(4) seg_ok_ends [OF t(1)] by simp
  then have "cut_seg i co t = (if snd t = co then [] else [t])"
    using overlap_parts [OF t(1) Cons.prems(2,3)] Cons.prems(4) t(2) by (simp add: cut_seg_def)
  then show ?case using Cons.IH [OF t(3) Cons.prems(2,3)] Cons.prems(4) by simp
qed

lemma concat_map_self: "\<forall>s\<in>set xs. f s = [s] \<Longrightarrow> concat (map f xs) = xs"
  by (induction xs) simp_all

lemma erase_seg_cut:
  assumes wf: "wf_imap idel m" and i: "valid_ivl i" "\<not> is_empty_ivl i" and co: "co \<noteq> idel"
  shows "erase_seg idel (i, co) m = concat (map (cut_seg i co) m)"
proof -
  let ?b = "before_range i m" and ?e = "equal_range i m" and ?u = "from_upper_bound i m"
  have le: "first_ivl i \<le> last_ivl i" using i by (simp add: is_empty_iff)
  note R = range_split [OF wf, of i]
  have m: "m = ?b @ ?e @ ?u" by (rule range_parts)
  have ok: "seg_ok idel s" if "s \<in> set ?b \<union> set ?u" for s
  proof -
    have "s \<in> set (?b @ ?e @ ?u)" using that by auto
    then show ?thesis using wf_seg_ok [OF wf] range_parts [of m i] by simp
  qed
  have "concat (map (cut_seg i co) ?b) = ?b"
    using R(1) cut_before [OF ok i(1) le] by (intro concat_map_self) (auto simp: lwf_iff)
  moreover have "concat (map (cut_seg i co) ?u) = ?u"
    using R(2) cut_behind [OF ok i(1) le] by (intro concat_map_self) (auto simp: rwf_iff)
  ultimately have M: "concat (map (cut_seg i co) m) = ?b @ concat (map (cut_seg i co) ?e) @ ?u"
    by (subst m) simp
  have we: "wf_imap idel ?e" using wf m wf_append by metis
  consider "?e = []" | s where "?e = [s]" | s t ts where "?e = s # t # ts" by (metis list.exhaust)
  then show ?thesis
  proof cases
    case 1
    then show ?thesis using M m i co by (simp add: erase_seg_def is_absorbable_def)
  next
    case 2
    then show ?thesis using M i co by (simp add: erase_seg_def is_absorbable_def erase_one_cut)
  next
    case (3 s t ts)
    have s: "seg_ok idel s" "wf_imap idel (t # ts)" "\<forall>x\<in>set (t # ts). last_ivl (fst s) < first_ivl (fst x)"
      using we 3 by (auto simp: wf_imap_def seg_lt_def)
    have o: "first_ivl i \<le> last_ivl (fst s)" "first_ivl (fst s) \<le> last_ivl i" "\<forall>x\<in>set (t # ts). first_ivl (fst x) \<le> last_ivl i"
      using R(3) 3 by auto
    have "last_ivl (fst s) \<le> last_ivl i" using s(3) o(3) by auto
    then have "erase_first i co s = cut_seg i co s"
      using overlap_parts [OF s(1) i(1) le o(1,2)] by (simp add: erase_first_def cut_seg_def)
    moreover have "erase_rest i co t ts = concat (map (cut_seg i co) (t # ts))"
      using s(2,3) o le i by (intro erase_rest_cut) auto
    ultimately show ?thesis using M 3 i co by (simp add: erase_seg_def is_absorbable_def)
  qed
qed

lemma erase_seg_ok:
  assumes wf: "wf_imap idel m" and i: "valid_ivl i"
  shows "wf_imap idel (erase_seg idel (i, co) m) \<and>
    den (erase_seg idel (i, co) m) = {(x, v) \<in> den m. \<not> (x \<in> iset i \<and> v = co)}"
proof (cases "is_empty_ivl i \<or> co = idel")
  case True
  have "is_empty_ivl i \<Longrightarrow> iset i = {}" using i by (simp add: iset_empty_iff)
  then show ?thesis using True wf wf_den_not_idel [OF wf] by (auto simp: erase_seg_def is_absorbable_def)
next
  case False
  then have le: "first_ivl i \<le> last_ivl i" using i by (simp add: is_empty_iff)
  have ok: "seg_ok idel s" if "s \<in> set m" for s using wf that by (rule wf_seg_ok)
  note C = cut_ok [OF ok i le, of _ co]
  have "den (concat (map (cut_seg i co) m)) = (\<Union>s\<in>set m. den (cut_seg i co s))" by (auto simp: den_def)
  also have "\<dots> = {(x, v) \<in> den m. \<not> (x \<in> iset i \<and> v = co)}" using C by (auto simp: den_def simp del: in_sden)
  finally show ?thesis using wf_pieces [OF wf, of "cut_seg i co"] C False
    by (simp add: erase_seg_cut [OF wf i])
qed

end
