(* ===== verification/IclMapIns.thy ===== *)
theory IclMapIns
  imports IclMapSub
begin

text \<open>
  Insertion of a segment into an interval map (\<open>interval_base_map.hpp\<close>), which leaves the values
  that are there, with or without a hint.

  The loop of \<open>insert_main\<close> meets a pair a second time after it has inserted a gap in front of it,
  and ends because the gap is empty then. It is a partial function; \<open>insert_seg_ok\<close> shows that it
  returns on every map that satisfies the invariant.
\<close>

section \<open>Insertion\<close>

text \<open>
  The loop of \<open>insert_main\<close>: \<open>pre\<close> ends with \<open>prior_\<close>, \<open>todo\<close> runs from \<open>it_\<close> to \<open>end_\<close>. A gap
  in front of the pair is inserted (it overlaps no pair, so the insertion succeeds) and joined
  with its neighbours; the loop goes on behind the inserted or joined pair.
\<close>

partial_function (option) insert_loop ::
  "'c \<Rightarrow> discrete_interval \<Rightarrow> 'c segment list \<Rightarrow> 'c segment list \<Rightarrow> (discrete_interval \<times> 'c segment list) option" where
  "insert_loop co_val rest pre todo =
     (case todo of [] \<Rightarrow> Some (rest, pre)
      | cur # todo' \<Rightarrow>
          if \<not> is_empty_ivl (right_subtract rest (fst cur))
          then (case handle_inserted (pre, (right_subtract rest (fst cur), co_val), todo) of (pre', ins, suf) \<Rightarrow>
                  insert_loop co_val (left_subtract rest (fst cur)) (ins # pre') suf)
          else insert_loop co_val (left_subtract rest (fst cur)) (cur # pre) todo')"

definition insert_main ::
  "discrete_interval \<Rightarrow> 'c \<Rightarrow> 'c segment list \<Rightarrow> 'c segment list \<Rightarrow> 'c segment list \<Rightarrow> 'c imap option" where
  "insert_main inter_val co_val pre todo suf =
     (let last_interval = fst (last todo)
      in case insert_loop co_val inter_val pre todo of None \<Rightarrow> None
         | Some (rest, pre') \<Rightarrow>
             let end_gap = left_subtract rest last_interval
             in if \<not> is_empty_ivl end_gap then Some (flatten (handle_inserted (pre', (end_gap, co_val), suf)))
                else Some (rev pre' @ suf))"

definition insert_seg :: "'c \<Rightarrow> 'c segment \<Rightarrow> 'c imap \<Rightarrow> 'c imap option" where
  "insert_seg idel addend m =
     (let inter_val = fst addend; co_val = snd addend
      in if is_empty_ivl inter_val then Some m
         else if is_absorbable idel co_val then Some m
         else let pre = rev (before_range inter_val m); suf = from_upper_bound inter_val m
              in case equal_range inter_val m of
                   [] \<Rightarrow> Some (flatten (handle_inserted (pre, addend, suf)))
                 | cur # mid \<Rightarrow> insert_main inter_val co_val pre (cur # mid) suf)"

text \<open>
  With a hint, \<open>insert_at\<close> gives the pair that the implementing map finds, and \<open>true\<close> also when that
  pair has the very interval of the addend, unless it is the hint itself (\<open>at_prior\<close>). A pair with
  that interval is the only one in its range.
\<close>

definition insert_at :: "bool \<Rightarrow> discrete_interval \<Rightarrow> 'c imap \<Rightarrow> bool" where
  "insert_at at_prior inter_val m =
     (case equal_range inter_val m of [] \<Rightarrow> True
      | cur # mid \<Rightarrow> if at_prior then False else mid = [] \<and> eq_ivl (fst cur) inter_val)"

definition insert_seg_hint :: "bool \<Rightarrow> 'c \<Rightarrow> 'c segment \<Rightarrow> 'c imap \<Rightarrow> 'c imap option" where
  "insert_seg_hint at_prior idel addend m =
     (let inter_val = fst addend; co_val = snd addend
      in if is_empty_ivl inter_val then Some m
         else if is_absorbable idel co_val then Some m
         else let pre = rev (before_range inter_val m); suf = from_upper_bound inter_val m
              in case equal_range inter_val m of
                   [] \<Rightarrow> Some (flatten (handle_inserted (pre, addend, suf)))
                 | cur # mid \<Rightarrow>
                     if insert_at at_prior inter_val m then Some (flatten (handle_inserted (pre, cur, suf)))
                     else insert_main inter_val co_val pre (cur # mid) suf)"

text \<open>What inserting \<open>co\<close> on \<open>X\<close> makes of a set of pairs.\<close>

definition inserted :: "int set \<Rightarrow> 'c \<Rightarrow> (int \<times> 'c) set \<Rightarrow> (int \<times> 'c) set" where
  "inserted X co D = D \<union> {x \<in> X. x \<notin> fst ` D} \<times> {co}"

lemma fst_den: "seg_ok idel s \<Longrightarrow> fst ` sden s = {first_ivl (fst s) .. last_ivl (fst s)}"
  by (auto simp: sden_def iset_def)

lemma inserted_sden:
  assumes "seg_ok idel s" "a \<le> first_ivl (fst s)"
  shows "inserted {a .. last_ivl (fst s)} co (sden s) = sden s \<union> {a ..< first_ivl (fst s)} \<times> {co}"
  using assms seg_ok_ends [OF assms(1)] by (auto simp: inserted_def fst_den)

lemma inserted_Un:
  assumes "\<forall>(x, w)\<in>D1. x \<notin> X2" "\<forall>(x, w)\<in>D2. x \<notin> X1"
  shows "inserted (X1 \<union> X2) co (D1 \<union> D2) = inserted X1 co D1 \<union> inserted X2 co D2"
  using assms unfolding inserted_def by (fastforce simp: image_iff)

lemma inserted_above:
  assumes "\<forall>(x, w)\<in>D. x < k" "a \<le> k" "\<And>x. b < x \<Longrightarrow> x < k \<Longrightarrow> x \<in> fst ` D"
  shows "inserted {a .. b} co D = inserted {a ..< k} co D \<union> {k .. b} \<times> {co}"
proof -
  have "x \<in> {a .. b} \<and> x \<notin> fst ` D \<longleftrightarrow> x \<in> {a ..< k} \<and> x \<notin> fst ` D \<or> x \<in> {k .. b}" for x
  proof (cases "x < k")
    case True
    then show ?thesis using assms(2,3) by (cases "b < x") auto
  next
    case False
    then have "x \<notin> fst ` D" using assms(1) by auto
    then show ?thesis using False assms(2) by auto
  qed
  then have "{x \<in> {a .. b}. x \<notin> fst ` D} = {x \<in> {a ..< k}. x \<notin> fst ` D} \<union> {k .. b}" by blast
  then show ?thesis by (simp add: inserted_def Sigma_Un_distrib1 Un_assoc)
qed

lemma handle_inserted_ok:
  assumes "lwf idel pre (first_ivl (fst ins))" "seg_ok idel ins" "rwf idel suf (last_ivl (fst ins))"
  shows "wf_imap idel (flatten (handle_inserted (pre, ins, suf)))"
    "den (flatten (handle_inserted (pre, ins, suf))) = den pre \<union> sden ins \<union> den suf"
  using join_neighbours_ok [OF assms] by (simp_all add: handle_inserted_def)

text \<open>The pair that an inserted gap becomes, beside the pair it was inserted in front of.\<close>

lemma gap_joined:
  assumes "lwf idel pre (first_ivl g)" "seg_ok idel (g, co)" "seg_ok idel cur" "last_ivl g + 1 = first_ivl (fst cur)"
    and j: "handle_inserted (pre, (g, co), cur # todo) = (p, ins, suf)"
  shows "(suf = todo \<and> lwf idel (ins # p) (last_ivl (fst cur) + 1) \<and> last_ivl (fst ins) = last_ivl (fst cur) \<and> snd ins = snd cur
      \<and> den p \<union> sden ins = den pre \<union> sden (g, co) \<union> sden cur) \<or>
    (suf = cur # todo \<and> lwf idel (ins # p) (first_ivl (fst cur)) \<and> \<not> joinable ins cur \<and> den p \<union> sden ins = den pre \<union> sden (g, co))"
proof -
  obtain p1 c1 s1 where l: "join_left (pre, (g, co), cur # todo) = (p1, c1, s1)" by (metis prod_cases3)
  have L: "lwf idel p1 (first_ivl (fst c1))" "seg_ok idel c1" "s1 = cur # todo" "den p1 \<union> sden c1 = den pre \<union> sden (g, co)"
    "last_ivl (fst c1) = last_ivl g" "p1 = [] \<or> \<not> joinable (hd p1) c1"
    using join_left_ok [OF _ assms(2) l] assms(1) by auto
  have r: "join_right (p1, c1, cur # todo) = (p, ins, suf)"
    using j l L(3) by (simp add: handle_inserted_def join_neighbours_def)
  show ?thesis
  proof (cases "joinable c1 cur")
    case True
    then have "p = p1" "ins = join_nodes c1 cur" "suf = todo" using r by auto
    then show ?thesis
      using join_nodes_ok [OF True L(2) assms(3)] joinable_join_nodes [OF True L(2) assms(3)] L by auto
  next
    case False
    then have "p = p1" "ins = c1" "suf = cur # todo" using r by auto
    then show ?thesis using False L assms(4) by auto
  qed
qed

text \<open>Behind a pair, the rest of the interval passes it unchanged.\<close>

lemma passed:
  assumes "valid_ivl r" "seg_ok idel cur" "first_ivl r = last_ivl (fst cur) + 1"
  shows "is_empty_ivl (right_subtract r (fst cur))" "left_subtract r (fst cur) = r"
proof -
  have le: "first_ivl (fst cur) \<le> last_ivl (fst cur)" using assms(2) by (rule seg_ok_ends)
  have "exclusive_less (fst cur) r" using assms by (auto simp: exclusive_less_def)
  then show "left_subtract r (fst cur) = r" by (rule left_subtract_same)
  show "is_empty_ivl (right_subtract r (fst cur))"
  proof (cases "exclusive_less r (fst cur)")
    case True
    then have "is_empty_ivl r"
      using assms le by (auto simp: exclusive_less_def seg_ok_def is_empty_iff)
    then show ?thesis using right_subtract_same [OF True] by simp
  next
    case False
    then show ?thesis using right_subtract_ends [OF False] assms le by (simp add: is_empty_iff)
  qed
qed

lemma insert_loop_eqs:
  "insert_loop co r pre [] = Some (r, pre)"
  "is_empty_ivl (right_subtract r (fst c)) \<Longrightarrow>
     insert_loop co r pre (c # t) = insert_loop co (left_subtract r (fst c)) (c # pre) t"
  "\<not> is_empty_ivl (right_subtract r (fst c)) \<Longrightarrow>
     handle_inserted (pre, (right_subtract r (fst c), co), c # t) = (p, ins, suf) \<Longrightarrow>
     insert_loop co r pre (c # t) = insert_loop co (left_subtract r (fst c)) (ins # p) suf"
  by (subst insert_loop.simps, simp)+

lemma insert_loop_step:
  assumes pre: "lwf idel pre (first_ivl (fst c))" "lwf idel pre (first_ivl r)" "pre = [] \<or> \<not> joinable (hd pre) c"
    and c: "seg_ok idel c" and r: "valid_ivl r" "first_ivl r \<le> last_ivl r" "first_ivl r \<le> last_ivl (fst c)"
    "first_ivl (fst c) \<le> last_ivl r" and co: "co \<noteq> idel"
  shows "\<exists>pre1. insert_loop co r pre (c # t) = insert_loop co (left_subtract r (fst c)) pre1 t \<and>
    lwf idel pre1 (last_ivl (fst c) + 1) \<and> pre1 \<noteq> [] \<and> last_ivl (fst (hd pre1)) = last_ivl (fst c) \<and>
    snd (hd pre1) = snd c \<and> den pre1 = den pre \<union> inserted {first_ivl r .. last_ivl (fst c)} co (sden c)"
proof -
  let ?g = "right_subtract r (fst c)" and ?r = "left_subtract r (fst c)"
  have le: "first_ivl (fst c) \<le> last_ivl (fst c)" using c by (rule seg_ok_ends)
  note G = right_subtract_overlap [OF r(1) c r(4,2)]
  note L = left_subtract_overlap [OF r(1) c r(3,2)]
  show ?thesis
  proof (cases "is_empty_ivl ?g")
    case True
    then have "first_ivl (fst c) \<le> first_ivl r" using G by simp
    then have "inserted {first_ivl r .. last_ivl (fst c)} co (sden c) = sden c"
      using c by (auto simp: inserted_def fst_den)
    moreover have "insert_loop co r pre (c # t) = insert_loop co ?r (c # pre) t"
      using True by (rule insert_loop_eqs(2))
    ultimately show ?thesis using pre c by (intro exI [of _ "c # pre"]) auto
  next
    case False
    then have lt: "first_ivl r < first_ivl (fst c)" using G by simp
    obtain p ins suf where j: "handle_inserted (pre, (?g, co), c # t) = (p, ins, suf)" by (metis prod_cases3)
    have e: "insert_loop co r pre (c # t) = insert_loop co ?r (ins # p) suf"
      using False j by (rule insert_loop_eqs(3))
    have g: "seg_ok idel (?g, co)" using False G co by (simp add: seg_ok_def)
    have d: "sden (?g, co) \<union> sden c = inserted {first_ivl r .. last_ivl (fst c)} co (sden c)"
    proof -
      have "sden (?g, co) = {first_ivl r ..< first_ivl (fst c)} \<times> {co}"
        using G(2,3) by (auto simp: sden_def iset_def)
      then show ?thesis using inserted_sden [OF c, of "first_ivl r" co] lt by (simp add: Un_commute)
    qed
    have "lwf idel pre (first_ivl ?g)" "last_ivl ?g + 1 = first_ivl (fst c)" using pre(2) G by simp_all
    from gap_joined [OF this(1) g c this(2) j] show ?thesis
    proof (elim disjE)
      assume a: "suf = t \<and> lwf idel (ins # p) (last_ivl (fst c) + 1) \<and> last_ivl (fst ins) = last_ivl (fst c) \<and> snd ins = snd c
        \<and> den p \<union> sden ins = den pre \<union> sden (?g, co) \<union> sden c"
      then have "den (ins # p) = den pre \<union> inserted {first_ivl r .. last_ivl (fst c)} co (sden c)"
        using d by (simp add: Un_ac)
      then show ?thesis using a e by (intro exI [of _ "ins # p"]) simp
    next
      assume a: "suf = c # t \<and> lwf idel (ins # p) (first_ivl (fst c)) \<and> \<not> joinable ins c \<and> den p \<union> sden ins = den pre \<union> sden (?g, co)"
      have "insert_loop co ?r (ins # p) (c # t) = insert_loop co ?r (c # ins # p) t"
        using insert_loop_eqs(2) [OF passed(1) [OF L(1) c L(2)]] passed(2) [OF L(1) c L(2)] by simp
      moreover have "den (c # ins # p) = den pre \<union> inserted {first_ivl r .. last_ivl (fst c)} co (sden c)"
        using a d by (simp add: Un_ac)
      ultimately show ?thesis using a e c by (intro exI [of _ "c # ins # p"]) simp
    qed
  qed
qed

lemma insert_loop_ok:
  assumes "lwf idel pre (first_ivl (fst c))" "lwf idel pre (first_ivl r)" "pre = [] \<or> \<not> joinable (hd pre) c"
    and "seg_ok idel c" "rwf idel t (last_ivl (fst c))" "t = [] \<or> \<not> joinable c (hd t)"
    and "valid_ivl r" "first_ivl r \<le> last_ivl r" "first_ivl r \<le> last_ivl (fst c)"
    and "\<forall>s\<in>set (c # t). first_ivl (fst s) \<le> last_ivl r" and "co \<noteq> idel"
  shows "\<exists>r' pre'. insert_loop co r pre (c # t) = Some (r', pre') \<and> valid_ivl r' \<and>
    first_ivl r' = last_ivl (fst (last (c # t))) + 1 \<and> last_ivl r' = last_ivl r \<and>
    lwf idel pre' (first_ivl r') \<and> pre' \<noteq> [] \<and> last_ivl (fst (hd pre')) = last_ivl (fst (last (c # t))) \<and>
    snd (hd pre') = snd (last (c # t)) \<and>
    den pre' = den pre \<union> inserted {first_ivl r ..< first_ivl r'} co (den (c # t)) \<and>
    (\<forall>(x, w)\<in>den (c # t). x < first_ivl r')"
  using assms
proof (induction t arbitrary: pre c r)
  case Nil
  obtain pre1 where P: "insert_loop co r pre [c] = insert_loop co (left_subtract r (fst c)) pre1 []"
    "lwf idel pre1 (last_ivl (fst c) + 1)" "pre1 \<noteq> []" "last_ivl (fst (hd pre1)) = last_ivl (fst c)"
    "snd (hd pre1) = snd c" "den pre1 = den pre \<union> inserted {first_ivl r .. last_ivl (fst c)} co (sden c)"
    using insert_loop_step [OF Nil(1-4,7-9) _ Nil(11), of "[]"] Nil(10) by auto
  have "{first_ivl r .. last_ivl (fst c)} = {first_ivl r ..< last_ivl (fst c) + 1}" by auto
  then show ?case
    using P left_subtract_overlap [OF Nil(7,4,9,8)] by (auto simp: insert_loop_eqs(1) sden_def iset_def)
next
  case (Cons n t)
  let ?r = "left_subtract r (fst c)"
  obtain pre1 where P: "insert_loop co r pre (c # n # t) = insert_loop co ?r pre1 (n # t)"
    "lwf idel pre1 (last_ivl (fst c) + 1)" "pre1 \<noteq> []" "last_ivl (fst (hd pre1)) = last_ivl (fst c)"
    "snd (hd pre1) = snd c" "den pre1 = den pre \<union> inserted {first_ivl r .. last_ivl (fst c)} co (sden c)"
    using insert_loop_step [OF Cons.prems(1-4,7-9) _ Cons.prems(11), of "n # t"] Cons.prems(10) by auto
  note L = left_subtract_overlap [OF Cons.prems(7,4,9,8)]
  have n: "seg_ok idel n" "last_ivl (fst c) < first_ivl (fst n)" "rwf idel t (last_ivl (fst n))" "t = [] \<or> \<not> joinable n (hd t)"
    using Cons.prems(5) by simp_all
  have le: "first_ivl (fst n) \<le> last_ivl (fst n)" using n(1) by (rule seg_ok_ends)
  have "\<not> joinable (hd pre1) n" using Cons.prems(6) P(4,5) joinable_cong(1) by (metis list.distinct(1) list.sel(1))
  moreover have "lwf idel pre1 (first_ivl (fst n))" using P(2) n(2) by (auto intro: lwf_mono)
  ultimately obtain r' pre' where I: "insert_loop co ?r pre1 (n # t) = Some (r', pre')" "valid_ivl r'"
    "first_ivl r' = last_ivl (fst (last (n # t))) + 1" "last_ivl r' = last_ivl r"
    "lwf idel pre' (first_ivl r')" "pre' \<noteq> []" "last_ivl (fst (hd pre')) = last_ivl (fst (last (n # t)))"
    "snd (hd pre') = snd (last (n # t))"
    "den pre' = den pre1 \<union> inserted {first_ivl ?r ..< first_ivl r'} co (den (n # t))"
    "\<forall>(x, w)\<in>den (n # t). x < first_ivl r'"
    using Cons.IH [of pre1 n ?r] P n L le Cons.prems(10,11) by auto
  have gt: "last_ivl (fst c) < first_ivl r'"
    using bspec [OF I(10), of "(first_ivl (fst n), snd n)"] n(2) le by simp
  have rw: "rwf idel (n # t) (last_ivl (fst c))" by fact
  have X: "{first_ivl r ..< first_ivl r'} = {first_ivl r .. last_ivl (fst c)} \<union> {first_ivl ?r ..< first_ivl r'}"
    using gt L Cons.prems(9) by auto
  have "inserted {first_ivl r ..< first_ivl r'} co (sden c \<union> den (n # t)) =
    inserted {first_ivl r .. last_ivl (fst c)} co (sden c) \<union> inserted {first_ivl ?r ..< first_ivl r'} co (den (n # t))"
    unfolding X using L den_above [OF rw] by (intro inserted_Un) fastforce+
  then have D: "den pre' = den pre \<union> inserted {first_ivl r ..< first_ivl r'} co (den (c # n # t))"
    using I(9) P(6) by (simp only: den_simps(2) [of c] Un_assoc)
  have B: "\<forall>(x, w)\<in>den (c # n # t). x < first_ivl r'" using I(10) gt by auto
  have "last (c # n # t) = last (n # t)" by simp
  then show ?case using P(1) I(1-8) D B by (intro exI [of _ r'] exI [of _ pre'] conjI) simp_all
qed

lemma insert_main_ok:
  assumes "lwf idel pre (first_ivl (fst c))" "lwf idel pre (first_ivl i)" "pre = [] \<or> \<not> joinable (hd pre) c"
    and m: "wf_imap idel (c # t @ suf)" and i: "valid_ivl i" "first_ivl i \<le> last_ivl i"
    and ov: "\<forall>s\<in>set (c # t). first_ivl i \<le> last_ivl (fst s) \<and> first_ivl (fst s) \<le> last_ivl i"
    and suf: "rwf idel suf (last_ivl i)" and co: "co \<noteq> idel"
  shows "\<exists>m'. insert_main i co pre (c # t) suf = Some m' \<and> wf_imap idel m' \<and>
    den m' = den pre \<union> inserted (iset i) co (den (c # t)) \<union> den suf"
proof -
  let ?l = "last (c # t)"
  have C: "seg_ok idel c" "rwf idel (t @ suf) (last_ivl (fst c))" using lwf_part [of idel "[]" c "t @ suf"] m by simp_all
  have T: "rwf idel t (last_ivl (fst c))" using C(2) by (auto simp: rwf_iff wf_append)
  have tc: "t = [] \<or> \<not> joinable c (hd t)" using m by (cases t) (simp_all add: wf_imap_def successively_Cons)
  have "c # t @ suf = butlast (c # t) @ ?l # suf" using append_butlast_last_id [of "c # t"] by simp
  with m have "wf_imap idel (butlast (c # t) @ ?l # suf)" by (simp only:)
  note A = lwf_part(2,3) [OF this] and W = this
  have ls: "suf = [] \<or> \<not> joinable ?l (hd suf)"
    using W wf_append [of idel "butlast (c # t) @ [?l]" suf] by auto
  have "first_ivl i \<le> last_ivl (fst c)" "\<forall>s\<in>set (c # t). first_ivl (fst s) \<le> last_ivl i" using ov by auto
  from insert_loop_ok [OF assms(1-3) C(1) T tc i this co]
  obtain r pre' where L: "insert_loop co i pre (c # t) = Some (r, pre')" "valid_ivl r"
    "first_ivl r = last_ivl (fst ?l) + 1" "last_ivl r = last_ivl i" "lwf idel pre' (first_ivl r)" "pre' \<noteq> []"
    "last_ivl (fst (hd pre')) = last_ivl (fst ?l)" "snd (hd pre') = snd ?l"
    "den pre' = den pre \<union> inserted {first_ivl i ..< first_ivl r} co (den (c # t))"
    "\<forall>(x, w)\<in>den (c # t). x < first_ivl r" by blast
  have lin: "?l \<in> set (c # t)" by (rule last_in_set) simp
  then have le: "first_ivl i < first_ivl r" using ov L(3) by force
  have e: "left_subtract r (fst ?l) = r" using passed(2) [OF L(2) A(1) L(3)] .
  have I: "inserted (iset i) co (den (c # t)) =
    inserted {first_ivl i ..< first_ivl r} co (den (c # t)) \<union> {first_ivl r .. last_ivl i} \<times> {co}"
    unfolding iset_def
  proof (rule inserted_above [OF L(10)])
    show "first_ivl i \<le> first_ivl r" using le by simp
    fix x assume "last_ivl i < x" "x < first_ivl r"
    then have "(x, snd ?l) \<in> sden ?l" using L(3) ov lin by force
    then have "(x, snd ?l) \<in> den (c # t)" using lin unfolding den_def by blast
    then show "x \<in> fst ` den (c # t)" by (metis fst_conv image_eqI)
  qed
  show ?thesis
  proof (cases "is_empty_ivl r")
    case True
    have "rwf idel suf (first_ivl r - 1)" using A(2) L(3) by simp
    then have "wf_imap idel (rev pre' @ suf)"
      using L(5) ls joinable_cong(1) [OF L(7,8)] by (intro wf_cursor) auto
    moreover have "{first_ivl r .. last_ivl i} = {}" using True L(2,4) by (simp add: is_empty_iff)
    ultimately show ?thesis using L(1,9) I e True by (simp add: insert_main_def)
  next
    case False
    then have "seg_ok idel (r, co)" using L(2) co by (simp add: seg_ok_def)
    from handle_inserted_ok [OF _ this, of pre' suf] show ?thesis
      using L(1,4,5,9) I e False suf by (simp add: insert_main_def sden_def iset_def Un_ac)
  qed
qed

lemma insert_seg_ok:
  assumes wf: "wf_imap idel m" and i: "valid_ivl i"
  shows "\<exists>m'. insert_seg idel (i, co) m = Some m' \<and> wf_imap idel m' \<and>
    den m' = (if co = idel then den m else inserted (iset i) co (den m))"
proof (cases "is_empty_ivl i \<or> co = idel")
  case True
  have "is_empty_ivl i \<Longrightarrow> iset i = {}" using i by (simp add: iset_empty_iff)
  then show ?thesis using True wf by (auto simp: insert_seg_def is_absorbable_def inserted_def)
next
  case False
  let ?b = "before_range i m" and ?u = "from_upper_bound i m"
  note R = range_split [OF wf, of i]
  have le: "first_ivl i \<le> last_ivl i" using False i by (simp add: is_empty_iff)
  have ok: "seg_ok idel (i, co)" using False i by (simp add: seg_ok_def)
  have X: "inserted (iset i) co ((den ?b \<union> den ?u) \<union> D) = den ?b \<union> inserted (iset i) co D \<union> den ?u" for D
    using den_below [OF R(1)] den_above [OF R(2)] unfolding inserted_def iset_def by (fastforce simp: image_iff)
  show ?thesis
  proof (cases "equal_range i m")
    case Nil
    then have "den m = den ?b \<union> den ?u" using range_parts [of m i] den_simps(3) by (metis append_Nil)
    then have "inserted (iset i) co (den m) = den ?b \<union> iset i \<times> {co} \<union> den ?u"
      using X [of "{}"] by (auto simp: inserted_def)
    then show ?thesis
      using handle_inserted_ok [of idel "rev ?b" "(i, co)" ?u] R ok Nil False
      by (simp add: insert_seg_def is_absorbable_def Let_def sden_def)
  next
    case (Cons c t)
    have m: "m = ?b @ c # t @ ?u" using range_parts [of m i] Cons by simp
    have P: "lwf idel (rev ?b) (first_ivl (fst c))" "?b = [] \<or> \<not> joinable (last ?b) c"
      using lwf_part [of idel ?b c "t @ ?u"] wf m by auto
    have w: "wf_imap idel (c # t @ ?u)" using wf m wf_append by metis
    have "rev ?b = [] \<or> \<not> joinable (hd (rev ?b)) c" "co \<noteq> idel"
      "\<forall>s\<in>set (c # t). first_ivl i \<le> last_ivl (fst s) \<and> first_ivl (fst s) \<le> last_ivl i"
      using P(2) R(3) Cons False by (auto simp: hd_rev)
    from insert_main_ok [OF P(1) R(1) this(1) w i le this(3) R(2) this(2)] obtain m' where
      "insert_main i co (rev ?b) (c # t) ?u = Some m'" "wf_imap idel m'"
      "den m' = den ?b \<union> inserted (iset i) co (den (c # t)) \<union> den ?u" by (auto simp del: den_simps(2))
    moreover have "den m = (den ?b \<union> den ?u) \<union> den (c # t)" by (subst m) auto
    ultimately show ?thesis using False X [of "den (c # t)"]
      by (simp add: insert_seg_def Cons is_absorbable_def Let_def)
  qed
qed

text \<open>A pair whose interval is the interval of the addend keeps its value: the hint changes nothing.\<close>

lemma insert_hint:
  assumes wf: "wf_imap idel m" and i: "valid_ivl i"
  shows "insert_seg_hint at_prior idel (i, co) m = insert_seg idel (i, co) m"
proof (cases "is_empty_ivl i \<or> co = idel \<or> equal_range i m = [] \<or> \<not> insert_at at_prior i m")
  case True
  then show ?thesis
    by (auto simp: insert_seg_hint_def insert_seg_def is_absorbable_def Let_def split: list.splits)
next
  case False
  let ?b = "before_range i m" and ?u = "from_upper_bound i m"
  obtain c where c: "equal_range i m = [c]" "eq_ivl (fst c) i"
    using False by (auto simp: insert_at_def split: list.splits if_splits)
  have m: "m = ?b @ c # ?u" using range_parts [of m i] c by simp
  have P: "seg_ok idel c" "?b = [] \<or> \<not> joinable (last ?b) c" "?u = [] \<or> \<not> joinable c (hd ?u)"
    using lwf_part [of idel ?b c ?u] wf m wf_append [of idel "?b @ [c]" ?u] by auto
  have h: "handle_inserted (rev ?b, c, ?u) = (rev ?b, c, ?u)"
    using P(2,3) by (cases "rev ?b"; cases ?u) (auto simp: handle_inserted_def join_neighbours_def hd_rev [symmetric])
  have "first_ivl (fst c) = first_ivl i" "last_ivl (fst c) = last_ivl i"
    using c(2) False P(1) i by (auto simp: eq_ivl_def seg_ok_def lower_equal_def upper_equal_def)
  moreover have le: "first_ivl i \<le> last_ivl i" using False i by (simp add: is_empty_iff)
  ultimately have G: "is_empty_ivl (right_subtract i (fst c))" and L: "is_empty_ivl (left_subtract i (fst c))"
    "left_subtract (left_subtract i (fst c)) (fst c) = left_subtract i (fst c)"
    using right_subtract_overlap [OF i P(1)] left_subtract_overlap [OF i P(1)] passed(2) [OF _ P(1)] by simp_all
  have "insert_main i co (rev ?b) [c] ?u = Some (flatten (rev ?b, c, ?u))"
    using L by (simp add: insert_main_def insert_loop_eqs(1) insert_loop_eqs(2) [OF G])
  then show ?thesis using False c h
    by (simp add: insert_seg_hint_def insert_seg_def is_absorbable_def Let_def)
qed

end
