(* ===== verification/IclMapAlg.thy ===== *)
theory IclMapAlg
  imports IclMapIns
begin

text \<open>
  What users of an interval map call beside the addition of a segment
  (\<open>concept/interval_map.hpp\<close>, \<open>concept/interval_associator.hpp\<close>, \<open>detail/interval_map_algo.hpp\<close>,
  \<open>detail/interval_set_algo.hpp\<close>): containment of keys, intervals and segments, operations on a single
  element, assignment of a value to an interval, intersection with a segment, the operations of
  one map on another, and those guided by a predicate. The pointwise meaning of each is stated
  with \<open>sem\<close>; the loop of \<open>add_if\<close> does not move on past a pair that its predicate refuses, and
  the lemmas on \<open>add_if\<close> tell when it ends.
\<close>

section \<open>Elements\<close>

definition singleton :: "int \<Rightarrow> discrete_interval" where
  "singleton value = construct value value bounds_closed"

definition make_segment :: "int \<times> 'c \<Rightarrow> 'c segment" where
  "make_segment element = (singleton (fst element), snd element)"

definition add_elem :: "('c \<Rightarrow> 'c \<Rightarrow> 'c) \<Rightarrow> 'c \<Rightarrow> 'c imap \<Rightarrow> int \<times> 'c \<Rightarrow> 'c imap" where
  "add_elem comb idel obj operand = add_seg comb idel (make_segment operand) obj"

definition insert_elem :: "'c \<Rightarrow> 'c imap \<Rightarrow> int \<times> 'c \<Rightarrow> 'c imap option" where
  "insert_elem idel obj operand = insert_seg idel (make_segment operand) obj"

definition erase_key :: "'c imap \<Rightarrow> int \<Rightarrow> 'c imap" where
  "erase_key obj operand = erase_interval (singleton operand) obj"

definition erase_elem :: "'c \<Rightarrow> 'c imap \<Rightarrow> int \<times> 'c \<Rightarrow> 'c imap" where
  "erase_elem idel obj operand = erase_seg idel (make_segment operand) obj"

definition subtract_elem :: "('c \<Rightarrow> 'c \<Rightarrow> 'c) \<Rightarrow> 'c \<Rightarrow> 'c imap \<Rightarrow> int \<times> 'c \<Rightarrow> 'c imap" where
  "subtract_elem comb idel obj operand = subtract_seg comb idel (make_segment operand) obj"

definition set_at :: "'c \<Rightarrow> 'c imap \<Rightarrow> 'c segment \<Rightarrow> 'c imap option" where
  "set_at idel obj operand = insert_seg idel operand (erase_interval (fst operand) obj)"

definition set_at_elem :: "'c \<Rightarrow> 'c imap \<Rightarrow> int \<times> 'c \<Rightarrow> 'c imap option" where
  "set_at_elem idel obj operand = set_at idel obj (make_segment operand)"

text \<open>A singleton interval holds its one value.\<close>

lemma singleton_ivl [simp]: "valid_ivl (singleton x)" "\<not> is_empty_ivl (singleton x)" "iset (singleton x) = {x}"
proof -
  show v: "valid_ivl (singleton x)"
    by (simp add: valid_ivl_def singleton_def construct_def valid_bounds_def bounds_closed_def)
  have e: "first_ivl (singleton x) = x" "last_ivl (singleton x) = x"
    by (simp_all add: singleton_def construct_def ivl_defs bounds_closed_def is_left_closed_def is_right_closed_def
        left_bound_def right_bound_def)
  then show "\<not> is_empty_ivl (singleton x)" "iset (singleton x) = {x}" using v by (auto simp: is_empty_iff iset_def)
qed

section \<open>Containment\<close>

definition contains_elem_map :: "'c imap \<Rightarrow> int \<times> 'c \<Rightarrow> bool" where
  "contains_elem_map super key_value_pair =
     (case find_seg super (fst key_value_pair) of None \<Rightarrow> False | Some s \<Rightarrow> snd s = snd key_value_pair)"

definition contains_key :: "'c imap \<Rightarrow> int \<Rightarrow> bool" where
  "contains_key super key \<longleftrightarrow> find_seg super key \<noteq> None"

text \<open>\<open>is_joinable\<close> of a set and of a map, on the pairs from \<open>first\<close> to \<open>past\<close>.\<close>

fun set_joinable :: "'c segment list \<Rightarrow> bool" where
  "set_joinable (it # nxt # r) = (if \<not> touches (fst it) (fst nxt) then False else set_joinable (nxt # r))"
| "set_joinable _ = True"

fun map_joinable_from :: "'c \<Rightarrow> 'c segment list \<Rightarrow> bool" where
  "map_joinable_from co_value (it # nxt # r) =
     (if snd nxt \<noteq> co_value then False
      else if \<not> touches (fst it) (fst nxt) then False
      else map_joinable_from co_value (nxt # r))"
| "map_joinable_from co_value _ = True"

definition map_joinable :: "'c segment list \<Rightarrow> bool" where
  "map_joinable r = (case r of [] \<Rightarrow> True | s # _ \<Rightarrow> map_joinable_from (snd s) r)"

definition contains_interval :: "'c imap \<Rightarrow> discrete_interval \<Rightarrow> bool" where
  "contains_interval super sub_interval =
     (if is_empty_ivl sub_interval then True
      else case equal_range sub_interval super of [] \<Rightarrow> False
         | s # r \<Rightarrow> contains_ivl (hull_ivl (fst s) (fst (last (s # r)))) sub_interval \<and> set_joinable (s # r))"

definition contains_segment :: "'c imap \<Rightarrow> 'c segment \<Rightarrow> bool" where
  "contains_segment super sub_segment =
     (let sub_interval = fst sub_segment
      in if is_empty_ivl sub_interval then True
         else case equal_range sub_interval super of [] \<Rightarrow> False
            | s # r \<Rightarrow>
                if snd sub_segment \<noteq> snd s then False
                else contains_ivl (hull_ivl (fst s) (fst (last (s # r)))) sub_interval \<and> map_joinable (s # r))"

lemma contains_key_iff:
  assumes "wf_imap idel m"
  shows "contains_key m x \<longleftrightarrow> x \<in> fst ` den m" "contains_elem_map m (x, v) \<longleftrightarrow> (x, v) \<in> den m"
proof -
  have L: "(x, w) \<in> den m \<longleftrightarrow> find_seg m x \<noteq> None \<and> snd (the (find_seg m x)) = w" for w
    using lookup_den [OF assms, of x w] by (auto simp: lookup_map_def)
  show "contains_key m x \<longleftrightarrow> x \<in> fst ` den m" using L by (force simp: contains_key_def image_iff)
  show "contains_elem_map m (x, v) \<longleftrightarrow> (x, v) \<in> den m"
    using L [of v] by (auto simp: contains_elem_map_def split: option.splits)
qed

text \<open>The elements of touching pairs are those of their hull.\<close>

lemma joinable_dom:
  assumes "wf_imap idel (s # r)" "set_joinable (s # r)"
  shows "fst ` den (s # r) = {first_ivl (fst s) .. last_ivl (fst (last (s # r)))}"
  using assms
proof (induction r arbitrary: s)
  case Nil
  then show ?case by (auto simp: wf_imap_def fst_den)
next
  case (Cons n r)
  have s: "seg_ok idel s" "seg_ok idel n" "wf_imap idel (n # r)" using Cons.prems(1) by (auto simp: wf_imap_def)
  have t: "last_ivl (fst s) + 1 = first_ivl (fst n)" "set_joinable (n # r)"
    using Cons.prems(2) touchesD by (auto split: if_splits)
  have l: "last (n # r) \<in> set (n # r)" by (rule last_in_set) simp
  have "first_ivl (fst n) \<le> last_ivl (fst n)" using s(2) by (rule seg_ok_ends)
  also have "last_ivl (fst n) \<le> last_ivl (fst (last (n # r)))" using wf_hd_le(2) [OF s(3) l] by simp
  finally have "{first_ivl (fst s) .. last_ivl (fst s)} \<union> {first_ivl (fst n) .. last_ivl (fst (last (n # r)))} =
    {first_ivl (fst s) .. last_ivl (fst (last (n # r)))}"
    using t(1) seg_ok_ends [OF s(1)] by auto
  then show ?case using Cons.IH [OF s(3) t(2)] by (simp add: image_Un fst_den [OF s(1)])
qed

lemma in_dom: "x \<in> fst ` den m \<longleftrightarrow> (\<exists>t\<in>set m. first_ivl (fst t) \<le> x \<and> x \<le> last_ivl (fst t))"
proof
  assume "x \<in> fst ` den m"
  then obtain v t where "t \<in> set m" "(x, v) \<in> sden t" unfolding den_def by auto
  then show "\<exists>t\<in>set m. first_ivl (fst t) \<le> x \<and> x \<le> last_ivl (fst t)" by auto
next
  assume "\<exists>t\<in>set m. first_ivl (fst t) \<le> x \<and> x \<le> last_ivl (fst t)"
  then obtain t where "t \<in> set m" "(x, snd t) \<in> sden t" by auto
  then have "(x, snd t) \<in> den m" unfolding den_def by blast
  then show "x \<in> fst ` den m" by (metis fst_conv image_eqI)
qed

lemma dom_joinable:
  assumes "wf_imap idel (s # r)" "\<And>x. last_ivl (fst s) < x \<Longrightarrow> x \<le> first_ivl (fst (last (s # r))) \<Longrightarrow> x \<in> fst ` den (s # r)"
  shows "set_joinable (s # r)"
  using assms
proof (induction r arbitrary: s)
  case (Cons n r)
  have s: "seg_ok idel s" "seg_ok idel n" "wf_imap idel (n # r)" "rwf idel (n # r) (last_ivl (fst s))"
    using Cons.prems(1) lwf_part(3) [of idel "[]" s "n # r"] by (auto simp: wf_imap_def)
  have l: "last (n # r) \<in> set (n # r)" by (rule last_in_set) simp
  have lt: "last_ivl (fst s) < first_ivl (fst n)" "first_ivl (fst n) \<le> last_ivl (fst n)"
    using s(4) seg_ok_ends [OF s(2)] by auto
  have le: "first_ivl (fst n) \<le> first_ivl (fst (last (n # r)))" using wf_hd_le(1) [OF s(3) l] by simp
  have D: "x \<in> fst ` den (n # r)" if "last_ivl (fst s) < x" "x \<le> first_ivl (fst (last (n # r)))" for x
    using Cons.prems(2) [of x] that by (auto simp: image_Un fst_den [OF s(1)])
  have "last_ivl (fst s) + 1 \<in> fst ` den (n # r)" using D [of "last_ivl (fst s) + 1"] lt(1) le by simp
  then obtain t where t: "t \<in> set (n # r)" "first_ivl (fst t) \<le> last_ivl (fst s) + 1"
    unfolding in_dom by blast
  then have "first_ivl (fst n) \<le> last_ivl (fst s) + 1" using wf_hd_le(1) [OF s(3) t(1)] by simp
  then have "touches (fst s) (fst n)" using lt(1) by (simp add: touches_def domain_next_def)
  moreover have "set_joinable (n # r)" using D lt by (intro Cons.IH [OF s(3)]) auto
  ultimately show ?case by simp
qed simp

lemma contains_ivl_iff:
  "seg_ok idel (i, v) \<Longrightarrow> seg_ok idel (j, w) \<Longrightarrow>
     contains_ivl i j \<longleftrightarrow> first_ivl i \<le> first_ivl j \<and> last_ivl j \<le> last_ivl i"
  by (auto simp: contains_ivl_def seg_ok_def lower_less_equal_def upper_less_equal_def lower_less_def upper_less_def
      lower_equal_def upper_equal_def)

lemma wf_last_ge:
  assumes "wf_imap idel l" "s \<in> set l"
  shows "last_ivl (fst s) \<le> last_ivl (fst (last l))"
proof -
  have "l = butlast l @ [last l]" using assms(2) by (cases l) auto
  then have "wf_imap idel (butlast l @ [last l])" using assms(1) by simp
  from lwf_part(1,2) [OF this] have "lwf idel (rev (butlast l)) (first_ivl (fst (last l)))" "seg_ok idel (last l)" by simp_all
  moreover have "s \<in> set (butlast l) \<or> s = last l"
    using assms(2) by (metis append_butlast_last_id empty_iff list.set(1) set_ConsD set_rotate1 rotate1.simps(2) in_set_butlastD
        Un_iff set_append list.set(2) insert_iff)
  ultimately show ?thesis using seg_ok_ends by (fastforce simp: lwf_iff)
qed

lemma range_covers:
  assumes wf: "wf_imap idel m" and i: "valid_ivl i" "\<not> is_empty_ivl i" and e: "equal_range i m = s # r"
  shows "contains_ivl (hull_ivl (fst s) (fst (last (s # r)))) i \<and> set_joinable (s # r) \<longleftrightarrow> iset i \<subseteq> fst ` den m"
proof -
  let ?l = "last (s # r)"
  note R = range_split [OF wf, of i]
  have le: "first_ivl i \<le> last_ivl i" using i by (simp add: is_empty_iff)
  have we: "wf_imap idel (s # r)" using wf range_parts [of m i] e wf_append by metis
  have l: "?l \<in> set (s # r)" by (rule last_in_set) simp
  have ok: "seg_ok idel s" "seg_ok idel ?l" using wf_seg_ok [OF we] l by simp_all
  have mono: "first_ivl (fst s) \<le> first_ivl (fst t)" "last_ivl (fst t) \<le> last_ivl (fst ?l)" if "t \<in> set (s # r)" for t
    using wf_hd_le(1) [OF we that] wf_last_ge [OF we that] by simp_all
  have dom: "x \<in> fst ` den m \<longleftrightarrow> x \<in> fst ` den (s # r)" if "x \<in> iset i" for x
  proof -
    have "x \<notin> fst ` den (before_range i m)" "x \<notin> fst ` den (from_upper_bound i m)"
      using den_below [OF R(1)] den_above [OF R(2)] that by (fastforce simp: iset_def)+
    moreover have "den m = den (before_range i m) \<union> den (s # r) \<union> den (from_upper_bound i m)"
      using range_parts [of m i] e den_simps(3) by (metis Un_assoc)
    ultimately show ?thesis by (simp add: image_Un)
  qed
  let ?h = "hull_ivl (fst s) (fst ?l)"
  have ne: "\<not> is_empty_ivl (fst s)" "\<not> is_empty_ivl (fst ?l)" using ok by (simp_all add: seg_ok_def)
  have H: "valid_ivl ?h" "first_ivl ?h = first_ivl (fst s)" "last_ivl ?h = last_ivl (fst ?l)"
    using ok mono [OF l] mono(2) [of s] hull_ends [OF ne] by (simp_all add: seg_ok_def)
  have "seg_ok idel (?h, snd s)" "seg_ok idel (i, snd s)"
    using H i ok(1) mono(2) [of s] seg_ok_ends [OF ok(1)] by (auto simp: seg_ok_def is_empty_iff)
  note C = contains_ivl_iff [OF this, unfolded H]
  show ?thesis
  proof
    assume "contains_ivl ?h i \<and> set_joinable (s # r)"
    then have "iset i \<subseteq> fst ` den (s # r)" using C joinable_dom [OF we] by (auto simp: iset_def simp del: last.simps)
    then show "iset i \<subseteq> fst ` den m" using dom by blast
  next
    assume sub: "iset i \<subseteq> fst ` den m"
    have D: "\<exists>t\<in>set (s # r). first_ivl (fst t) \<le> x \<and> x \<le> last_ivl (fst t)" if "x \<in> iset i" for x
    proof -
      have "x \<in> fst ` den (s # r)" using sub dom [OF that] that by blast
      then show ?thesis unfolding in_dom .
    qed
    have "first_ivl i \<in> iset i" "last_ivl i \<in> iset i" using le by (simp_all add: iset_def)
    from D [OF this(1)] D [OF this(2)] obtain t u where "t \<in> set (s # r)" "first_ivl (fst t) \<le> first_ivl i"
      "u \<in> set (s # r)" "last_ivl i \<le> last_ivl (fst u)" by blast
    then have "first_ivl (fst s) \<le> first_ivl i" "last_ivl i \<le> last_ivl (fst ?l)"
      using mono(1) [of t] mono(2) [of u] by linarith+
    moreover have "set_joinable (s # r)"
    proof (rule dom_joinable [OF we])
      fix x assume "last_ivl (fst s) < x" "x \<le> first_ivl (fst ?l)"
      moreover have "first_ivl i \<le> last_ivl (fst s)" "first_ivl (fst ?l) \<le> last_ivl i" using R(3) e l by auto
      ultimately have "x \<in> iset i" by (simp add: iset_def)
      then show "x \<in> fst ` den (s # r)" using sub dom by blast
    qed
    ultimately show "contains_ivl ?h i \<and> set_joinable (s # r)" using C by blast
  qed
qed

lemma contains_interval_iff:
  assumes "wf_imap idel m" "valid_ivl i"
  shows "contains_interval m i \<longleftrightarrow> iset i \<subseteq> fst ` den m"
proof (cases "is_empty_ivl i")
  case True
  then have "iset i = {}" using assms(2) by (simp add: iset_empty_iff)
  then show ?thesis using True by (simp add: contains_interval_def)
next
  case False
  then have le: "first_ivl i \<le> last_ivl i" using assms(2) by (simp add: is_empty_iff)
  show ?thesis
  proof (cases "equal_range i m")
    case Nil
    note R = range_split [OF assms(1), of i]
    have "m = before_range i m @ from_upper_bound i m" using range_parts [of m i] Nil by simp
    then have "den m = den (before_range i m) \<union> den (from_upper_bound i m)" by (metis den_simps(3))
    then have "first_ivl i \<notin> fst ` den m" using den_below [OF R(1)] den_above [OF R(2)] le by fastforce
    moreover have "first_ivl i \<in> iset i" using le by (simp add: iset_def)
    ultimately show ?thesis using Nil False by (auto simp: contains_interval_def)
  next
    case (Cons s r)
    then show ?thesis using range_covers [OF assms False Cons] False
      by (simp add: contains_interval_def del: last.simps)
  qed
qed

lemma map_joinable_values:
  "map_joinable_from v (s # r) \<longleftrightarrow> set_joinable (s # r) \<and> (\<forall>t\<in>set r. snd t = v)"
  by (induction r arbitrary: s) auto

lemma slice_dom: "X \<times> {v} \<subseteq> D \<Longrightarrow> X \<subseteq> fst ` D"
  by force

lemma contains_segment_iff:
  assumes wf: "wf_imap idel m" and i: "valid_ivl i"
  shows "contains_segment m (i, v) \<longleftrightarrow> iset i \<times> {v} \<subseteq> den m"
proof (cases "is_empty_ivl i \<or> equal_range i m = []")
  case True
  show ?thesis
  proof (cases "is_empty_ivl i")
    case True
    then have "iset i = {}" using i by (simp add: iset_empty_iff)
    then show ?thesis using True by (simp add: contains_segment_def)
  next
    case False
    then have n: "\<not> contains_interval m i" "\<not> contains_segment m (i, v)"
      using True by (simp_all add: contains_interval_def contains_segment_def)
    have "\<not> iset i \<times> {v} \<subseteq> den m"
    proof
      assume "iset i \<times> {v} \<subseteq> den m"
      then have "iset i \<subseteq> fst ` den m" by (rule slice_dom)
      then show False using n(1) contains_interval_iff [OF wf i] by (simp only: simp_thms)
    qed
    then show ?thesis using n(2) by (simp only: simp_thms)
  qed
next
  case False
  then obtain s r where e: "equal_range i m = s # r" by (cases "equal_range i m") auto
  have le: "first_ivl i \<le> last_ivl i" using False i by (simp add: is_empty_iff)
  have sub: "set (s # r) \<subseteq> set m" using range_parts [of m i] e by (metis Un_iff set_append subsetI)
  have vals: "snd t = w" if "(x, w) \<in> den m" "t \<in> set (s # r)" "first_ivl (fst t) \<le> x" "x \<le> last_ivl (fst t)" for x w t
  proof -
    have "t \<in> set m" "(x, snd t) \<in> sden t" using that sub by auto
    then have "(x, snd t) \<in> den m" unfolding den_def by blast
    then show ?thesis using wf_den_unique [OF wf that(1)] by simp
  qed
  have C: "contains_segment m (i, v) \<longleftrightarrow> (\<forall>t\<in>set (s # r). snd t = v) \<and> iset i \<subseteq> fst ` den m"
    using False range_covers [OF wf i _ e]
    by (auto simp: contains_segment_def e map_joinable_def map_joinable_values simp del: last.simps)
  show ?thesis
  proof
    assume a: "contains_segment m (i, v)"
    show "iset i \<times> {v} \<subseteq> den m"
    proof
      fix p assume "p \<in> iset i \<times> {v}"
      then obtain x where x: "p = (x, v)" "x \<in> iset i" by auto
      then have "x \<in> fst ` den m" using a C by blast
      then obtain t where t: "t \<in> set m" "first_ivl (fst t) \<le> x" "x \<le> last_ivl (fst t)" unfolding in_dom by blast
      have "t \<in> set (s # r)"
      proof -
        have "t \<in> set (before_range i m) \<or> t \<in> set (s # r) \<or> t \<in> set (from_upper_bound i m)"
          using t(1) range_parts [of m i] e by (metis Un_iff set_append)
        then show ?thesis using range_split(1,2) [OF wf, of i] t(2,3) x(2) by (auto simp: lwf_iff rwf_iff iset_def)
      qed
      then have "snd t = v" using a C by blast
      then show "p \<in> den m" using t x(1) by (auto simp: den_def sden_def iset_def)
    qed
  next
    assume a: "iset i \<times> {v} \<subseteq> den m"
    have "snd t = v" if t: "t \<in> set (s # r)" for t
    proof -
      have o: "first_ivl i \<le> last_ivl (fst t)" "first_ivl (fst t) \<le> last_ivl i" using range_split(3) [OF wf, of i] t e by auto
      have "seg_ok idel t" using wf_seg_ok [OF wf] sub t by blast
      then have "first_ivl (fst t) \<le> last_ivl (fst t)" by (rule seg_ok_ends)
      then have "max (first_ivl i) (first_ivl (fst t)) \<in> iset i" "max (first_ivl i) (first_ivl (fst t)) \<le> last_ivl (fst t)"
        using o le by (auto simp: iset_def)
      then show ?thesis using vals [of "max (first_ivl i) (first_ivl (fst t))" v t] a t by auto
    qed
    moreover have "iset i \<subseteq> fst ` den m" using a by (rule slice_dom)
    ultimately show "contains_segment m (i, v)" using C by blast
  qed
qed

section \<open>Pointwise meaning\<close>

lemma subtract_sem:
  assumes wf: "wf_imap idel m" and i: "valid_ivl i"
  shows "sem idel (subtract_seg comb idel (i, co) m) x =
    (if x \<in> iset i \<and> co \<noteq> idel \<and> sem idel m x \<noteq> idel then comb (sem idel m x) co else sem idel m x)"
proof -
  have S: "wf_imap idel (subtract_seg comb idel (i, co) m)" "den (subtract_seg comb idel (i, co) m) =
    (if co = idel then den m else combined comb idel co (inside i (den m)) \<union> outside i (den m))"
    using subtract_seg_ok [OF wf i] by blast+
  show ?thesis by (intro sem_eqI [OF S(1)])
      (auto simp: S(2) combined_def inside_def outside_def sem_den [OF wf] split: if_splits)
qed

lemma insert_sem:
  assumes wf: "wf_imap idel m" and i: "valid_ivl i"
  shows "\<exists>m'. insert_seg idel (i, co) m = Some m' \<and> wf_imap idel m' \<and>
    (\<forall>x. sem idel m' x = (if x \<in> iset i \<and> sem idel m x = idel then co else sem idel m x))"
proof -
  obtain m' where I: "insert_seg idel (i, co) m = Some m'" "wf_imap idel m'"
    "den m' = (if co = idel then den m else inserted (iset i) co (den m))"
    using insert_seg_ok [OF wf i] by blast
  have D: "x \<in> fst ` den m \<longleftrightarrow> sem idel m x \<noteq> idel" for x
  proof
    assume "x \<in> fst ` den m"
    then obtain w where "(x, w) \<in> den m" by auto
    then show "sem idel m x \<noteq> idel" by (simp add: sem_den [OF wf])
  next
    assume "sem idel m x \<noteq> idel"
    then have "(x, sem idel m x) \<in> den m" by (simp add: sem_den [OF wf])
    then show "x \<in> fst ` den m" by (metis fst_conv image_eqI)
  qed
  have "sem idel m' x = (if x \<in> iset i \<and> sem idel m x = idel then co else sem idel m x)" for x
    by (intro sem_eqI [OF I(2)]) (auto simp: I(3) inserted_def sem_den [OF wf] D simp del: image_eqI split: if_splits)
  then show ?thesis using I(1,2) by blast
qed

lemma erase_seg_sem:
  assumes wf: "wf_imap idel m" and i: "valid_ivl i"
  shows "sem idel (erase_seg idel (i, co) m) x = (if x \<in> iset i \<and> sem idel m x = co then idel else sem idel m x)"
proof -
  have E: "wf_imap idel (erase_seg idel (i, co) m)"
    "den (erase_seg idel (i, co) m) = {(x, v) \<in> den m. \<not> (x \<in> iset i \<and> v = co)}"
    using erase_seg_ok [OF wf i] by blast+
  show ?thesis by (intro sem_eqI [OF E(1)]) (auto simp: E(2) sem_den [OF wf] split: if_splits)
qed

lemma set_at_sem:
  assumes wf: "wf_imap idel m" and i: "valid_ivl i"
  shows "\<exists>m'. set_at idel m (i, co) = Some m' \<and> wf_imap idel m' \<and>
    (\<forall>x. sem idel m' x = (if x \<in> iset i then co else sem idel m x))"
proof -
  have "wf_imap idel (erase_interval i m)" using erase_interval_ok [OF wf i] by blast
  from insert_sem [OF this i, of co] show ?thesis
    by (auto simp: set_at_def erase_sem [OF wf i])
qed

section \<open>A map with a map\<close>

definition plus_map :: "('c \<Rightarrow> 'c \<Rightarrow> 'c) \<Rightarrow> 'c \<Rightarrow> 'c imap \<Rightarrow> 'c imap \<Rightarrow> 'c imap" where
  "plus_map comb idel obj operand = foldl (\<lambda>obj elem. add_seg_hint comb idel elem obj) obj operand"

fun insert_map :: "'c \<Rightarrow> 'c imap \<Rightarrow> 'c imap \<Rightarrow> 'c imap option" where
  "insert_map idel obj [] = Some obj"
| "insert_map idel obj (elem # r) =
     (case insert_seg_hint False idel elem obj of None \<Rightarrow> None | Some obj' \<Rightarrow> insert_map idel obj' r)"

definition minus_map :: "('c \<Rightarrow> 'c \<Rightarrow> 'c) \<Rightarrow> 'c \<Rightarrow> 'c imap \<Rightarrow> 'c imap \<Rightarrow> 'c imap" where
  "minus_map comb idel obj operand = foldl (\<lambda>obj elem. subtract_seg comb idel elem obj) obj operand"

lemma sem_Cons: "sem idel (s # m) x = (if x \<in> iset (fst s) then snd s else sem idel m x)"
  by (simp add: sem_def lookup_map_def contains_elem_iff)

lemma sem_Nil [simp]: "sem idel [] x = idel"
  by (simp add: sem_def lookup_map_def)

lemma wf_Cons_apart:
  assumes "wf_imap idel (s # n)"
  shows "wf_imap idel n" "valid_ivl (fst s)" "snd s \<noteq> idel" "x \<in> iset (fst s) \<Longrightarrow> sem idel n x = idel"
proof -
  have n: "wf_imap idel n" "\<forall>t\<in>set n. last_ivl (fst s) < first_ivl (fst t)"
    using lwf_part(3) [of idel "[]" s n] assms by (simp_all add: rwf_iff)
  then show "wf_imap idel n" by simp
  show "valid_ivl (fst s)" "snd s \<noteq> idel" using wf_seg_ok [OF assms] by (auto simp: seg_ok_def)
  show "sem idel n x = idel" if "x \<in> iset (fst s)"
    using n(2) that by (intro sem_eqI [OF n(1)]) (fastforce simp: den_def iset_def)+
qed

context inplace_combiner
begin

lemma plus_map_sem:
  assumes "wf_imap idel m" "wf_imap idel n"
  shows "wf_imap idel (plus_map comb idel m n) \<and>
    (\<forall>x. sem idel (plus_map comb idel m n) x = comb (sem idel m x) (sem idel n x))"
  using assms
proof (induction n arbitrary: m)
  case (Cons s n)
  note A = wf_Cons_apart [OF Cons.prems(2)]
  have s: "s = (fst s, snd s)" by simp
  have W: "wf_imap idel (add_seg comb idel s m)" using add_seg_ok [OF Cons.prems(1) A(2)] s by metis
  have S: "sem idel (add_seg comb idel s m) x = (if x \<in> iset (fst s) then comb (sem idel m x) (snd s) else sem idel m x)" for x
    using add_sem [OF Cons.prems(1) A(2), of "snd s"] s by metis
  have P: "plus_map comb idel m (s # n) = plus_map comb idel (add_seg comb idel s m) n"
    using add_hint [of "fst s" "snd s"] by (simp add: plus_map_def)
  show ?case using Cons.IH [OF W A(1)] A(4) by (simp add: P S sem_Cons right_neutral)
qed (simp add: plus_map_def right_neutral)

end

text \<open>
  What the map relies on of the functor it subtracts with: nothing is taken away by the identity
  element, nor from it. Then subtraction is pointwise.
\<close>

locale inplace_subtractor =
  fixes diff :: "'c \<Rightarrow> 'c \<Rightarrow> 'c" and idel :: 'c
  assumes right_neutral: "diff c idel = c" and left_absorbing: "diff idel c = idel"
begin

lemma subtract_sem_diff:
  assumes "wf_imap idel m" "valid_ivl i"
  shows "sem idel (subtract_seg diff idel (i, co) m) x =
    (if x \<in> iset i then diff (sem idel m x) co else sem idel m x)"
  by (simp add: subtract_sem [OF assms] right_neutral left_absorbing)

lemma minus_map_sem:
  assumes "wf_imap idel m" "wf_imap idel n"
  shows "wf_imap idel (minus_map diff idel m n) \<and>
    (\<forall>x. sem idel (minus_map diff idel m n) x = diff (sem idel m x) (sem idel n x))"
  using assms
proof (induction n arbitrary: m)
  case (Cons s n)
  note A = wf_Cons_apart [OF Cons.prems(2)]
  have s: "s = (fst s, snd s)" by simp
  have W: "wf_imap idel (subtract_seg diff idel s m)" using subtract_seg_ok [OF Cons.prems(1) A(2)] s by metis
  have S: "sem idel (subtract_seg diff idel s m) x = (if x \<in> iset (fst s) then diff (sem idel m x) (snd s) else sem idel m x)" for x
    using subtract_sem_diff [OF Cons.prems(1) A(2), of "snd s"] s by metis
  have P: "minus_map diff idel m (s # n) = minus_map diff idel (subtract_seg diff idel s m) n"
    by (simp add: minus_map_def)
  show ?case using Cons.IH [OF W A(1)] A(4) by (simp add: P S sem_Cons right_neutral)
qed (simp add: minus_map_def right_neutral)

end

lemma insert_map_sem:
  assumes "wf_imap idel m" "wf_imap idel n"
  shows "\<exists>m'. insert_map idel m n = Some m' \<and> wf_imap idel m' \<and>
    (\<forall>x. sem idel m' x = (if sem idel m x = idel then sem idel n x else sem idel m x))"
  using assms
proof (induction n arbitrary: m)
  case (Cons s n)
  note A = wf_Cons_apart [OF Cons.prems(2)]
  obtain m1 where M: "insert_seg idel (fst s, snd s) m = Some m1" "wf_imap idel m1"
    "\<forall>x. sem idel m1 x = (if x \<in> iset (fst s) \<and> sem idel m x = idel then snd s else sem idel m x)"
    using insert_sem [OF Cons.prems(1) A(2), of "snd s"] by blast
  have "insert_map idel m (s # n) = insert_map idel m1 n"
    using insert_hint [OF Cons.prems(1) A(2), of False "snd s"] M(1) by simp
  then show ?case using Cons.IH [OF M(2) A(1)] M(3) A(3,4) by (auto simp: sem_Cons)
qed simp

section \<open>Intersection with a segment\<close>

text \<open>
  \<open>partial_add_intersection(section, operand)\<close>: every common part is added with the value of the map
  and then intersected with the value of the operand.
\<close>

fun segment_intersection_loop ::
  "('c \<Rightarrow> 'c \<Rightarrow> 'c) \<Rightarrow> ('c \<Rightarrow> 'c \<Rightarrow> 'c) \<Rightarrow> 'c \<Rightarrow> 'c segment \<Rightarrow> 'c imap \<Rightarrow> 'c imap \<Rightarrow> 'c imap" where
  "segment_intersection_loop comb isect idel operand [] sect = sect"
| "segment_intersection_loop comb isect idel operand (s # ss) sect =
     (let common_interval = and_ivl (fst s) (fst operand)
      in segment_intersection_loop comb isect idel operand ss
           (if \<not> is_empty_ivl common_interval
            then add_seg isect idel (common_interval, snd operand) (add_seg comb idel (common_interval, snd s) sect)
            else sect))"

definition partial_add_intersection ::
  "('c \<Rightarrow> 'c \<Rightarrow> 'c) \<Rightarrow> ('c \<Rightarrow> 'c \<Rightarrow> 'c) \<Rightarrow> 'c \<Rightarrow> 'c imap \<Rightarrow> 'c imap \<Rightarrow> 'c segment \<Rightarrow> 'c imap" where
  "partial_add_intersection comb isect idel sect obj operand =
     (if is_empty_ivl (fst operand) then sect
      else segment_intersection_loop comb isect idel operand (equal_range (fst operand) obj) sect)"

text \<open>\<open>intersects\<close> of a map and a segment, and of a map and an element.\<close>

definition intersects_segment :: "('c \<Rightarrow> 'c \<Rightarrow> 'c) \<Rightarrow> ('c \<Rightarrow> 'c \<Rightarrow> 'c) \<Rightarrow> 'c \<Rightarrow> 'c imap \<Rightarrow> 'c segment \<Rightarrow> bool" where
  "intersects_segment comb isect idel obj operand \<longleftrightarrow>
     partial_add_intersection comb isect idel [] obj operand \<noteq> []"

definition intersects_elem :: "('c \<Rightarrow> 'c \<Rightarrow> 'c) \<Rightarrow> ('c \<Rightarrow> 'c \<Rightarrow> 'c) \<Rightarrow> 'c \<Rightarrow> 'c imap \<Rightarrow> int \<times> 'c \<Rightarrow> bool" where
  "intersects_elem comb isect idel obj operand \<longleftrightarrow> intersects_segment comb isect idel obj (make_segment operand)"

lemma added_combined:
  assumes "\<forall>(x, w)\<in>D. x \<notin> X" "fst ` E = X"
  shows "added f idel X co (D \<union> E) = D \<union> combined f idel co E"
proof -
  have "(x, w) \<notin> D" if "x \<in> X" for x w using assms(1) that by fastforce
  moreover have "\<exists>w. (x, w) \<in> E" if "x \<in> X" for x using assms(2) that by force
  moreover have "x \<in> X" if "(x, w) \<in> E" for x w using assms(2) that by force
  ultimately show ?thesis unfolding added_def combined_def by blast
qed

context inplace_combiner
begin

lemma segment_intersection_ok:
  assumes "wf_imap idel sect" "\<And>x w s. (x, w) \<in> den sect \<Longrightarrow> s \<in> set ss \<Longrightarrow> x \<in> iset (fst s) \<Longrightarrow> x \<notin> iset i"
    "rwf idel ss k" "valid_ivl i" "v \<noteq> idel"
  shows "wf_imap idel (segment_intersection_loop comb isect idel (i, v) ss sect) \<and>
    den (segment_intersection_loop comb isect idel (i, v) ss sect) = den sect \<union> combined isect idel v (inside i (den ss))"
  using assms
proof (induction ss arbitrary: sect k)
  case (Cons s ss)
  let ?c = "and_ivl (fst s) i"
  have s: "seg_ok idel s" "rwf idel ss (last_ivl (fst s))" using Cons.prems(3) by simp_all
  have ci: "iset ?c = iset (fst s) \<inter> iset i" using s(1) Cons.prems(4) by (simp add: iset_and seg_ok_def)
  have I: "inside i (sden s) = sden (?c, snd s)" using ci by (auto simp: inside_def sden_def)
  define t where "t = (if \<not> is_empty_ivl ?c then add_seg isect idel (?c, v) (add_seg comb idel (?c, snd s) sect) else sect)"
  have e: "segment_intersection_loop comb isect idel (i, v) (s # ss) sect = segment_intersection_loop comb isect idel (i, v) ss t"
    by (simp add: t_def Let_def)
  have t: "wf_imap idel t \<and> den t = den sect \<union> combined isect idel v (inside i (sden s))"
  proof (cases "is_empty_ivl ?c")
    case True
    then have "sden (?c, snd s) = {}" by (simp add: sden_def iset_empty_iff [symmetric])
    then show ?thesis using True Cons.prems(1) by (simp add: t_def I)
  next
    case False
    have d: "\<forall>(x, w)\<in>den sect. x \<notin> iset ?c" using Cons.prems(2) [of _ _ s] ci by auto
    define u where "u = add_seg comb idel (?c, snd s) sect"
    have U: "wf_imap idel u" "den u = den sect \<union> sden (?c, snd s)"
      using add_hint_disjoint [OF Cons.prems(1) _ _ d, of "snd s"] s(1) by (simp_all add: u_def add_hint seg_ok_def)
    have "wf_imap idel (add_seg isect idel (?c, v) u)" "den (add_seg isect idel (?c, v) u) = added isect idel (iset ?c) v (den u)"
      using add_seg_ok [OF U(1), of ?c isect v] False Cons.prems(5) by simp_all
    moreover have "added isect idel (iset ?c) v (den u) = den sect \<union> combined isect idel v (sden (?c, snd s))"
      unfolding U(2) using d by (intro added_combined) (auto simp: sden_def)
    ultimately show ?thesis using False by (simp add: t_def u_def I)
  qed
  have d: "x \<notin> iset i" if x: "(x, w) \<in> den t" "r \<in> set ss" "x \<in> iset (fst r)" for x w r
  proof (cases "(x, w) \<in> den sect")
    case True
    then show ?thesis using Cons.prems(2) [of x w r] x(2,3) by simp
  next
    case False
    then have "(x, w) \<in> combined isect idel v (inside i (sden s))" using x(1) conjunct2 [OF t] by blast
    then have "x \<le> last_ivl (fst s)" by (auto simp: combined_def inside_def)
    moreover have "last_ivl (fst s) < first_ivl (fst r)" using s(2) x(2) by (simp add: rwf_iff)
    ultimately show ?thesis using x(3) by (simp add: iset_def)
  qed
  from Cons.IH [OF conjunct1 [OF t] d s(2) Cons.prems(4,5)] show ?case
    unfolding e using t by (simp add: Un_assoc)
qed simp

lemma partial_add_intersection_sect:
  assumes "wf_imap idel m" "valid_ivl i" "v \<noteq> idel" "wf_imap idel sect" "\<And>x w. (x, w) \<in> den sect \<Longrightarrow> x \<notin> iset i"
  shows "wf_imap idel (partial_add_intersection comb isect idel sect m (i, v)) \<and>
    den (partial_add_intersection comb isect idel sect m (i, v)) = den sect \<union> combined isect idel v (inside i (den m))"
proof (cases "is_empty_ivl i")
  case True
  then have "iset i = {}" using assms by (simp add: iset_empty_iff)
  then show ?thesis using True assms(4) by (simp add: partial_add_intersection_def inside_def combined_def)
next
  case False
  note R = range_split [OF assms(1), of i]
  let ?e = "equal_range i m"
  have we: "wf_imap idel ?e" using assms(1) range_parts [of m i] wf_append by metis
  have r: "rwf idel ?e (first_ivl (fst (hd ?e)) - 1)"
    unfolding rwf_iff using we wf_hd_le(1) [OF we] by force
  have "inside i (den (before_range i m)) = {} \<and> outside i (den (before_range i m)) = den (before_range i m)"
    using den_below [OF R(1)] by (intro outside_all) auto
  moreover have "inside i (den (from_upper_bound i m)) = {} \<and> outside i (den (from_upper_bound i m)) = den (from_upper_bound i m)"
    using den_above [OF R(2)] by (intro outside_all) auto
  moreover have "den m = den (before_range i m) \<union> den ?e \<union> den (from_upper_bound i m)"
    by (subst range_parts [of m i]) auto
  ultimately have "inside i (den m) = inside i (den ?e)" by simp
  then show ?thesis using segment_intersection_ok [OF assms(4) _ r assms(2,3), of isect] assms(5) False
    by (simp add: partial_add_intersection_def)
qed

lemma partial_add_intersection_ok:
  assumes "wf_imap idel m" "valid_ivl i" "v \<noteq> idel"
  shows "wf_imap idel (partial_add_intersection comb isect idel [] m (i, v)) \<and>
    den (partial_add_intersection comb isect idel [] m (i, v)) = combined isect idel v (inside i (den m))"
  using partial_add_intersection_sect [OF assms, of "[]" isect] by (simp add: wf_imap_def)

lemma intersects_segment_iff:
  assumes "wf_imap idel m" "valid_ivl i" "v \<noteq> idel"
  shows "intersects_segment comb isect idel m (i, v) \<longleftrightarrow> (\<exists>x w. x \<in> iset i \<and> (x, w) \<in> den m \<and> isect w v \<noteq> idel)"
proof -
  note P = partial_add_intersection_ok [OF assms, of isect]
  have "n = [] \<longleftrightarrow> den n = {}" if "wf_imap idel n" for n
  proof (cases n)
    case (Cons s r)
    then have "first_ivl (fst s) \<le> last_ivl (fst s)" using wf_seg_ok [OF that] seg_ok_ends by (metis list.set_intros(1))
    then have "(first_ivl (fst s), snd s) \<in> den n" using Cons by simp
    then show ?thesis using Cons by blast
  qed simp
  then have "intersects_segment comb isect idel m (i, v) \<longleftrightarrow> combined isect idel v (inside i (den m)) \<noteq> {}"
    unfolding intersects_segment_def using P by metis
  then show ?thesis by (auto simp: combined_def inside_def)
qed

end

section \<open>Predicates\<close>

fun erase_if :: "('c segment \<Rightarrow> bool) \<Rightarrow> 'c imap \<Rightarrow> 'c imap" where
  "erase_if pred [] = []"
| "erase_if pred (it # r) = (if pred it then erase_if pred r else it # erase_if pred r)"

text \<open>The loop of \<open>add_if\<close> advances its iterator only with a pair that it adds.\<close>

partial_function (option) add_if ::
  "('c \<Rightarrow> 'c \<Rightarrow> 'c) \<Rightarrow> 'c \<Rightarrow> ('c segment \<Rightarrow> bool) \<Rightarrow> 'c imap \<Rightarrow> 'c imap \<Rightarrow> 'c imap option" where
  "add_if comb idel pred obj src =
     (case src of [] \<Rightarrow> Some obj
      | it # r \<Rightarrow> if pred it then add_if comb idel pred (add_seg comb idel it obj) r
                  else add_if comb idel pred obj (it # r))"

lemma erase_if_filter: "erase_if pred m = filter (\<lambda>s. \<not> pred s) m"
  by (induction m) simp_all

lemma erase_if_ok:
  assumes "wf_imap idel m"
  shows "wf_imap idel (erase_if pred m)" "den (erase_if pred m) = (\<Union>s\<in>{s \<in> set m. \<not> pred s}. sden s)"
proof -
  have "concat (map (\<lambda>s. if pred s then [] else [s]) m) = erase_if pred m" by (induction m) simp_all
  moreover have "wf_imap idel (concat (map (\<lambda>s. if pred s then [] else [s]) m))"
  proof (intro wf_pieces [OF assms] ballI)
    fix s assume "s \<in> set m"
    then show "pieces idel s (if pred s then [] else [s])"
      using pieces_self [OF wf_seg_ok [OF assms]] by (simp add: pieces_def wf_imap_def)
  qed
  ultimately show "wf_imap idel (erase_if pred m)" by simp
  show "den (erase_if pred m) = (\<Union>s\<in>{s \<in> set m. \<not> pred s}. sden s)" by (auto simp: erase_if_filter den_def)
qed

lemma add_if_returned:
  assumes "add_if comb idel pred m src = Some m'"
  shows "list_all pred src"
proof (rule add_if.raw_induct [of "\<lambda>comb idel pred m src m'. list_all pred src", OF _ assms])
  fix f :: "('c \<Rightarrow> 'c \<Rightarrow> 'c) \<Rightarrow> 'c \<Rightarrow> ('c segment \<Rightarrow> bool) \<Rightarrow> 'c imap \<Rightarrow> 'c imap \<Rightarrow> 'c imap option"
  fix comb idel pred m src m'
  assume ih: "\<And>comb idel pred m src m'. f comb idel pred m src = Some m' \<Longrightarrow> list_all pred src"
    and e: "(case src of [] \<Rightarrow> Some m | it # r \<Rightarrow> if pred it then f comb idel pred (add_seg comb idel it m) r
       else f comb idel pred m (it # r)) = Some m'"
  show "list_all pred src" using e ih by (cases src) (auto split: if_splits dest: ih)
qed

lemma add_if_all:
  "list_all pred src \<Longrightarrow> add_if comb idel pred m src = Some (foldl (\<lambda>m s. add_seg comb idel s m) m src)"
proof (induction src arbitrary: m)
  case Nil
  then show ?case by (subst add_if.simps) simp
next
  case (Cons s src)
  then show ?case by (subst add_if.simps) simp
qed

end
