(* ===== verification/IclMapMap.thy ===== *)
theory IclMapMap
  imports IclMapAlg
begin

text \<open>
  The operations of one map on another that only look at their common range
  (\<open>detail/set_algo.hpp\<close>, \<open>concept/interval_associator.hpp\<close>, \<open>concept/interval_map.hpp\<close>): erasure
  and intersection. Outside the common range the operand meets no pair of the map, so the
  meaning of both is pointwise on all elements.
\<close>

section \<open>The common range\<close>

text \<open>
  \<open>common_range(lwb, upb, x1, x2)\<close>: nothing when one of the maps is empty or ends before the other
  begins, and otherwise the pairs of \<open>x1\<close> from the lower bound of the first key of \<open>x2\<close> to the upper
  bound of its last key.
\<close>

definition common_range :: "('b \<Rightarrow> 'b \<Rightarrow> bool) \<Rightarrow> 'b list \<Rightarrow> 'b list \<Rightarrow> 'b list option" where
  "common_range key_less x1 x2 =
     (if x1 = [] \<or> x2 = [] then None
      else if key_less (last x1) (hd x2) then None
      else if key_less (last x2) (hd x1) then None
      else Some (takeWhile (\<lambda>s. \<not> key_less (last x2) s) (dropWhile (\<lambda>s. key_less s (hd x2)) x1)))"

definition seg_less :: "'c segment \<Rightarrow> 'c segment \<Rightarrow> bool" where
  "seg_less s t \<longleftrightarrow> exclusive_less (fst s) (fst t)"

definition erase_map :: "'c \<Rightarrow> 'c imap \<Rightarrow> 'c imap \<Rightarrow> 'c imap" where
  "erase_map idel obj operand =
     (if operand = [] then obj
      else case common_range seg_less operand obj of None \<Rightarrow> obj
         | Some r \<Rightarrow> foldl (\<lambda>obj elem. erase_seg idel elem obj) obj r)"

definition add_intersection_map :: "('c \<Rightarrow> 'c \<Rightarrow> 'c) \<Rightarrow> ('c \<Rightarrow> 'c \<Rightarrow> 'c) \<Rightarrow> 'c \<Rightarrow> 'c imap \<Rightarrow> 'c imap \<Rightarrow> 'c imap \<Rightarrow> 'c imap" where
  "add_intersection_map comb isect idel sect obj operand =
     (if operand = [] then sect
      else case common_range seg_less operand obj of None \<Rightarrow> sect
         | Some r \<Rightarrow> foldl (\<lambda>sect elem. partial_add_intersection comb isect idel sect obj elem) sect r)"

text \<open>\<open>operator &=\<close>: the intersection, swapped into the object.\<close>

definition map_and_map :: "('c \<Rightarrow> 'c \<Rightarrow> 'c) \<Rightarrow> ('c \<Rightarrow> 'c \<Rightarrow> 'c) \<Rightarrow> 'c \<Rightarrow> 'c imap \<Rightarrow> 'c imap \<Rightarrow> 'c imap" where
  "map_and_map comb isect idel obj operand = add_intersection_map comb isect idel [] obj operand"

text \<open>The pairs of the operand outside its common range with a map share no element with it.\<close>

lemma common_range_parts:
  assumes "wf_imap idel n" "wf_imap idel m"
  shows "\<exists>a r b. n = a @ r @ b \<and> (case common_range seg_less n m of None \<Rightarrow> r = [] | Some r' \<Rightarrow> r' = r) \<and>
    fst ` den (a @ b) \<inter> fst ` den m = {}"
proof -
  have ne: "\<not> is_empty_ivl (fst s)" "first_ivl (fst s) \<le> last_ivl (fst s)" if "s \<in> set n \<union> set m" for s
  proof -
    have "seg_ok idel s" using that wf_seg_ok [OF assms(1)] wf_seg_ok [OF assms(2)] by blast
    then show "\<not> is_empty_ivl (fst s)" "first_ivl (fst s) \<le> last_ivl (fst s)"
      using seg_ok_ends [of idel s] by (auto simp: seg_ok_def)
  qed
  have less: "exclusive_less (fst s) (fst t) \<longleftrightarrow> last_ivl (fst s) < first_ivl (fst t)" if "s \<in> set n \<union> set m" "t \<in> set n \<union> set m" for s t
    using ne that by (simp add: exclusive_less_def)
  have apart: "fst ` den a \<inter> fst ` den m = {}"
    if sep: "\<And>s t. s \<in> set a \<Longrightarrow> t \<in> set m \<Longrightarrow> last_ivl (fst s) < first_ivl (fst t) \<or> last_ivl (fst t) < first_ivl (fst s)" for a :: "'a imap"
  proof -
    have False if x: "x \<in> fst ` den a" "x \<in> fst ` den m" for x
    proof -
      obtain s t where "s \<in> set a" "first_ivl (fst s) \<le> x" "x \<le> last_ivl (fst s)"
        "t \<in> set m" "first_ivl (fst t) \<le> x" "x \<le> last_ivl (fst t)" using x unfolding in_dom by blast
      then show False using sep [of s t] by linarith
    qed
    then show ?thesis by blast
  qed
  show ?thesis
  proof (cases "n = [] \<or> m = []")
    case True
    then have "common_range seg_less n m = None" by (auto simp: common_range_def)
    then show ?thesis using True by (intro exI [of _ n] exI [of _ "[]"]) auto
  next
    case False
    have hm: "hd m \<in> set m" "last m \<in> set m" "hd n \<in> set n" "last n \<in> set n" using False by simp_all
    have M: "first_ivl (fst (hd m)) \<le> first_ivl (fst t)" "last_ivl (fst t) \<le> last_ivl (fst (last m))" if "t \<in> set m" for t
      using wf_hd_le(1) [OF assms(2) that] wf_last_ge [OF assms(2) that] by simp_all
    have N: "first_ivl (fst (hd n)) \<le> first_ivl (fst t)" "last_ivl (fst t) \<le> last_ivl (fst (last n))" if "t \<in> set n" for t
      using wf_hd_le(1) [OF assms(1) that] wf_last_ge [OF assms(1) that] by simp_all
    show ?thesis
    proof (cases "exclusive_less (fst (last n)) (fst (hd m)) \<or> exclusive_less (fst (last m)) (fst (hd n))")
      case True
      then have "common_range seg_less n m = None" by (auto simp: common_range_def seg_less_def)
      moreover have "last_ivl (fst s) < first_ivl (fst t) \<or> last_ivl (fst t) < first_ivl (fst s)" if "s \<in> set n" "t \<in> set m" for s t
        using True M [OF that(2)] N [OF that(1)] hm less [of "last n" "hd m"] less [of "last m" "hd n"] by auto
      then have "fst ` den n \<inter> fst ` den m = {}" by (rule apart)
      ultimately show ?thesis by (intro exI [of _ n] exI [of _ "[]"]) auto
    next
      case F: False
      define a where "a = takeWhile (\<lambda>s. exclusive_less (fst s) (fst (hd m))) n"
      define d where "d = dropWhile (\<lambda>s. exclusive_less (fst s) (fst (hd m))) n"
      define r where "r = takeWhile (\<lambda>s. \<not> exclusive_less (fst (last m)) (fst s)) d"
      define b where "b = dropWhile (\<lambda>s. \<not> exclusive_less (fst (last m)) (fst s)) d"
      have n: "n = a @ r @ b" by (simp add: a_def r_def b_def d_def)
      have c: "common_range seg_less n m = Some r" using False F by (simp add: common_range_def seg_less_def r_def d_def)
      have A: "last_ivl (fst s) < first_ivl (fst (hd m))" if "s \<in> set a" for s
        using that less [of s "hd m"] hm(1) unfolding a_def by (auto dest: set_takeWhileD)
      have wb: "wf_imap idel b" using assms(1) n wf_append [of idel a "r @ b"] wf_append [of idel r b] by auto
      have B: "last_ivl (fst (last m)) < first_ivl (fst s)" if s: "s \<in> set b" for s
      proof -
        have ne: "b \<noteq> []" using s by auto
        have "hd b \<in> set n" using ne n by (simp add: hd_in_set)
        moreover have "exclusive_less (fst (last m)) (fst (hd b))"
          using hd_dropWhile [OF ne [unfolded b_def]] by (simp add: b_def)
        ultimately have "last_ivl (fst (last m)) < first_ivl (fst (hd b))" using less [of "last m" "hd b"] hm(2) by simp
        also have "\<dots> \<le> first_ivl (fst s)" using wf_hd_le(1) [OF wb s] .
        finally show ?thesis .
      qed
      have "fst ` den (a @ b) \<inter> fst ` den m = {}"
      proof (rule apart)
        fix s t assume st: "s \<in> set (a @ b)" "t \<in> set m"
        then show "last_ivl (fst s) < first_ivl (fst t) \<or> last_ivl (fst t) < first_ivl (fst s)"
          using A B M [OF st(2)] by fastforce
      qed
      then show ?thesis using n c by (intro exI [of _ a] exI [of _ r] exI [of _ b]) simp
    qed
  qed
qed

lemma sem_parts:
  assumes "wf_imap idel n" "n = a @ r @ b" "fst ` den (a @ b) \<inter> fst ` den m = {}" "x \<in> fst ` den m"
  shows "sem idel n x = sem idel r x"
proof -
  have r: "wf_imap idel r" using assms(1,2) wf_append [of idel a "r @ b"] wf_append [of idel r b] by simp
  have "(x, v) \<in> den n \<longleftrightarrow> (x, v) \<in> den r" for v
  proof -
    have "x \<notin> fst ` den (a @ b)" using assms(3,4) by blast
    then have "(x, v) \<notin> den a" "(x, v) \<notin> den b" by (metis UnI1 UnI2 den_simps(3) fst_conv image_eqI)+
    then show ?thesis by (simp add: assms(2))
  qed
  then show ?thesis using sem_den [OF assms(1), of x] sem_den [OF r, of x] by metis
qed

lemma sem_dom:
  assumes "wf_imap idel m"
  shows "x \<in> fst ` den m \<longleftrightarrow> sem idel m x \<noteq> idel"
proof
  assume "x \<in> fst ` den m"
  then obtain v where "(x, v) \<in> den m" by auto
  then show "sem idel m x \<noteq> idel" using sem_den [OF assms, of x v] by simp
next
  assume "sem idel m x \<noteq> idel"
  then have "(x, sem idel m x) \<in> den m" using sem_den [OF assms, of x "sem idel m x"] by simp
  then show "x \<in> fst ` den m" by force
qed

section \<open>Erasure of a map\<close>

lemma erase_all_sem:
  assumes "wf_imap idel m" "wf_imap idel r"
  shows "wf_imap idel (foldl (\<lambda>obj elem. erase_seg idel elem obj) m r) \<and>
    (\<forall>x. sem idel (foldl (\<lambda>obj elem. erase_seg idel elem obj) m r) x =
      (if sem idel m x = sem idel r x then idel else sem idel m x))"
  using assms
proof (induction r arbitrary: m)
  case (Cons s r)
  note A = wf_Cons_apart [OF Cons.prems(2)]
  have s: "s = (fst s, snd s)" by simp
  have W: "wf_imap idel (erase_seg idel s m)" using erase_seg_ok [OF Cons.prems(1) A(2)] s by metis
  have S: "sem idel (erase_seg idel s m) x = (if x \<in> iset (fst s) \<and> sem idel m x = snd s then idel else sem idel m x)" for x
    using erase_seg_sem [OF Cons.prems(1) A(2), of "snd s"] s by metis
  have n: "snd s \<noteq> idel" by (rule A(3))
  have "sem idel (foldl (\<lambda>obj elem. erase_seg idel elem obj) m (s # r)) x =
    (if sem idel m x = sem idel (s # r) x then idel else sem idel m x)" for x
    using Cons.IH [OF W A(1)] A(4) [of x] n by (cases "x \<in> iset (fst s)") (auto simp: S sem_Cons)
  then show ?case using Cons.IH [OF W A(1)] by simp
qed simp

lemma erase_map_sem:
  assumes "wf_imap idel m" "wf_imap idel n"
  shows "wf_imap idel (erase_map idel m n) \<and>
    (\<forall>x. sem idel (erase_map idel m n) x = (if sem idel m x = sem idel n x then idel else sem idel m x))"
proof -
  obtain a r b where P: "n = a @ r @ b" "case common_range seg_less n m of None \<Rightarrow> r = [] | Some r' \<Rightarrow> r' = r"
    "fst ` den (a @ b) \<inter> fst ` den m = {}" using common_range_parts [OF assms(2,1)] by blast
  have "wf_imap idel r" using assms(2) P(1) wf_append [of idel a "r @ b"] wf_append [of idel r b] by simp
  note E = erase_all_sem [OF assms(1) this]
  have e: "erase_map idel m n = foldl (\<lambda>obj elem. erase_seg idel elem obj) m r"
    using P(1,2) by (auto simp: erase_map_def split: option.splits)
  have "(if sem idel m x = sem idel r x then idel else sem idel m x) =
    (if sem idel m x = sem idel n x then idel else sem idel m x)" for x
    using sem_parts [OF assms(2) P(1,3), of x] sem_dom [OF assms(1), of x] by (cases "sem idel m x = idel") simp_all
  then show ?thesis using E by (simp add: e)
qed

section \<open>Intersection of maps\<close>

context inplace_combiner
begin

lemma intersect_all:
  assumes "wf_imap idel m" "rwf idel r k" "wf_imap idel sect" "\<forall>(x, w)\<in>den sect. x \<le> k"
  shows "wf_imap idel (foldl (\<lambda>sect elem. partial_add_intersection comb isect idel sect m elem) sect r) \<and>
    den (foldl (\<lambda>sect elem. partial_add_intersection comb isect idel sect m elem) sect r) =
      den sect \<union> {(x, v). \<exists>w u. (x, w) \<in> den m \<and> (x, u) \<in> den r \<and> v = isect w u \<and> v \<noteq> idel}"
  using assms(2-)
proof (induction r arbitrary: sect k)
  case (Cons s r)
  have s: "seg_ok idel s" "k < first_ivl (fst s)" "rwf idel r (last_ivl (fst s))" "s = (fst s, snd s)"
    using Cons.prems(1) by simp_all
  let ?t = "partial_add_intersection comb isect idel sect m s"
  have "x \<notin> iset (fst s)" if "(x, w) \<in> den sect" for x w using Cons.prems(3) s(2) that by (fastforce simp: iset_def)
  then have T: "wf_imap idel ?t" "den ?t = den sect \<union> combined isect idel (snd s) (inside (fst s) (den m))"
    using partial_add_intersection_sect [OF assms(1), of "fst s" "snd s" sect isect] s(1) Cons.prems(2)
    by (simp_all add: seg_ok_def)
  have le: "first_ivl (fst s) \<le> last_ivl (fst s)" using s(1) by (rule seg_ok_ends)
  have "\<forall>(x, w)\<in>den sect. x \<le> last_ivl (fst s)" using Cons.prems(3) s(2) le by fastforce
  moreover have "\<forall>(x, w)\<in>combined isect idel (snd s) (inside (fst s) (den m)). x \<le> last_ivl (fst s)"
    by (auto simp: combined_def inside_def iset_def)
  ultimately have B: "\<forall>(x, w)\<in>den ?t. x \<le> last_ivl (fst s)" unfolding T(2) by blast
  have "combined isect idel (snd s) (inside (fst s) (den m)) =
    {(x, v). \<exists>w u. (x, w) \<in> den m \<and> (x, u) \<in> sden s \<and> v = isect w u \<and> v \<noteq> idel}"
    by (auto simp: combined_def inside_def iset_def)
  then show ?case using Cons.IH [OF s(3) T(1) B] T(2) by auto
qed simp

lemma map_and_map_sem:
  assumes "wf_imap idel m" "wf_imap idel n"
  shows "wf_imap idel (map_and_map comb isect idel m n) \<and> (\<forall>x. sem idel (map_and_map comb isect idel m n) x =
    (if sem idel m x = idel \<or> sem idel n x = idel then idel else isect (sem idel m x) (sem idel n x)))"
proof -
  obtain a r b where P: "n = a @ r @ b" "case common_range seg_less n m of None \<Rightarrow> r = [] | Some r' \<Rightarrow> r' = r"
    "fst ` den (a @ b) \<inter> fst ` den m = {}" using common_range_parts [OF assms(2,1)] by blast
  have r: "wf_imap idel r" using assms(2) P(1) wf_append [of idel a "r @ b"] wf_append [of idel r b] by simp
  have k: "rwf idel r (first_ivl (fst (hd r)) - 1)" unfolding rwf_iff using r wf_hd_le(1) [OF r] by force
  have e: "map_and_map comb isect idel m n = foldl (\<lambda>sect elem. partial_add_intersection comb isect idel sect m elem) [] r"
    using P(1,2) by (auto simp: map_and_map_def add_intersection_map_def split: option.splits)
  have I: "wf_imap idel (map_and_map comb isect idel m n)"
    "den (map_and_map comb isect idel m n) = {(x, v). \<exists>w u. (x, w) \<in> den m \<and> (x, u) \<in> den r \<and> v = isect w u \<and> v \<noteq> idel}"
    using intersect_all [OF assms(1) k, of "[]" isect] by (simp_all add: e wf_imap_def)
  have "sem idel (map_and_map comb isect idel m n) x =
    (if sem idel m x = idel \<or> sem idel n x = idel then idel else isect (sem idel m x) (sem idel n x))" for x
  proof (cases "sem idel m x = idel")
    case True
    then show ?thesis by (intro sem_eqI [OF I(1)]) (auto simp: I(2) sem_den [OF assms(1)])
  next
    case False
    then have "sem idel n x = sem idel r x" using sem_parts [OF assms(2) P(1,3)] sem_dom [OF assms(1)] by blast
    then show ?thesis using False
      by (intro sem_eqI [OF I(1)]) (auto simp: I(2) sem_den [OF assms(1)] sem_den [OF r] split: if_splits)
  qed
  then show ?thesis using I(1) by blast
qed

end

end
