(* ===== verification/ImQueueAlg.thy ===== *)
theory ImQueueAlg
  imports ImQueue IclMapMap
begin

text \<open>
  The further operations of the interval map on the server's type of queue: the functors that
  subtract and intersect sets of payloads (\<open>functors.hpp\<close>, \<open>concept/element_set.hpp\<close>,
  \<open>concept/element_associator.hpp\<close>), and what updates with a segment, updates with a map, and the
  loops over a predicate do to a queue.
\<close>

section \<open>Functors on sets\<close>

definition imset_subtract :: "imset \<Rightarrow> imvalue \<Rightarrow> imset" where
  "imset_subtract object operand = object |-| {|operand|}"

definition imset_minus :: "imset \<Rightarrow> imset \<Rightarrow> imset" where
  "imset_minus object subtrahend = foldl imset_subtract object (sorted_list_of_fset subtrahend)"

text \<open>
  \<open>add_intersection\<close> of an element and of a set: the elements of the operand in its common range
  with the object that the object has are added to the section. \<open>operator &=\<close> begins with an empty
  section.
\<close>

definition imset_intersection_step :: "imset \<Rightarrow> imset \<Rightarrow> imvalue \<Rightarrow> imset" where
  "imset_intersection_step object sect operand = (if operand |\<in>| object then imset_add sect operand else sect)"

definition imset_add_intersection :: "imset \<Rightarrow> imset \<Rightarrow> imset \<Rightarrow> imset" where
  "imset_add_intersection sect object operand =
     (case common_range (<) (sorted_list_of_fset operand) (sorted_list_of_fset object) of None \<Rightarrow> sect
      | Some r \<Rightarrow> foldl (imset_intersection_step object) sect r)"

definition imset_et :: "imset \<Rightarrow> imset \<Rightarrow> imset" where
  "imset_et object operand = imset_add_intersection {||} object operand"

lemma imset_minus_diff [simp]: "imset_minus a b = a |-| b"
proof -
  have "foldl imset_subtract a xs = a |-| fset_of_list xs" for xs
    by (induction xs arbitrary: a) (auto simp: imset_subtract_def)
  then show ?thesis by (simp add: imset_minus_def)
qed

lemma sorted_between:
  assumes "sorted (xs :: 'a::linorder list)" "x \<in> set xs"
  shows "hd xs \<le> x" "x \<le> last xs"
proof -
  show "hd xs \<le> x" using assms by (cases xs) auto
  show "x \<le> last xs" using assms by (cases xs rule: rev_cases) (auto simp: sorted_append)
qed

lemma kept_from: "sorted xs \<Longrightarrow> x \<in> set xs \<Longrightarrow> a \<le> x \<Longrightarrow> x \<in> set (dropWhile (\<lambda>s. s < a) xs)" for x :: "'a::linorder"
  by (induction xs) auto

lemma kept_upto: "sorted xs \<Longrightarrow> x \<in> set xs \<Longrightarrow> x \<le> b \<Longrightarrow> x \<in> set (takeWhile (\<lambda>s. \<not> b < s) xs)" for x :: "'a::linorder"
  by (induction xs) auto

lemma range_members:
  assumes "sorted xs" "sorted (ys :: 'a::linorder list)"
  shows "(case common_range (<) xs ys of None \<Rightarrow> {} | Some r \<Rightarrow> set r) \<inter> set ys = set xs \<inter> set ys"
proof (cases "common_range (<) xs ys")
  case None
  have "set xs \<inter> set ys = {}"
  proof (rule ccontr)
    assume "set xs \<inter> set ys \<noteq> {}"
    then obtain x where x: "x \<in> set xs" "x \<in> set ys" by blast
    then have "\<not> last xs < hd ys" "\<not> last ys < hd xs"
      using sorted_between [OF assms(1) x(1)] sorted_between [OF assms(2) x(2)] by auto
    then show False using None x by (auto simp: common_range_def split: if_splits)
  qed
  then show ?thesis using None by simp
next
  case (Some r)
  then have r: "r = takeWhile (\<lambda>s. \<not> last ys < s) (dropWhile (\<lambda>s. s < hd ys) xs)"
    by (auto simp: common_range_def split: if_splits)
  have "set r \<subseteq> set xs" unfolding r by (auto dest: set_takeWhileD set_dropWhileD)
  moreover have "x \<in> set r" if "x \<in> set xs" "x \<in> set ys" for x
    unfolding r using sorted_between [OF assms(2) that(2)] that(1) assms(1)
    by (intro kept_upto kept_from sorted_dropWhile) auto
  ultimately show ?thesis using Some by auto
qed

lemma imset_et_inter [simp]: "imset_et a b = a |\<inter>| b"
proof -
  have F: "foldl (imset_intersection_step a) s xs = s |\<union>| (a |\<inter>| fset_of_list xs)" for s xs
    by (induction xs arbitrary: s) (auto simp: imset_intersection_step_def imset_add_def)
  have "x |\<in>| imset_et a b \<longleftrightarrow> x |\<in>| a |\<inter>| b" for x
  proof -
    have so: "sorted (sorted_list_of_fset c)" for c :: imset by (simp add: sorted_list_of_fset.rep_eq)
    have M: "x \<in> (case common_range (<) (sorted_list_of_fset b) (sorted_list_of_fset a) of None \<Rightarrow> {} | Some r \<Rightarrow> set r) \<inter> fset a
        \<longleftrightarrow> x \<in> fset b \<inter> fset a"
      using range_members [OF so so, of b a] by (simp del: Int_iff)
    show ?thesis using M
      by (cases "common_range (<) (sorted_list_of_fset b) (sorted_list_of_fset a)")
        (auto simp: imset_et_def imset_add_intersection_def F fset_of_list.rep_eq)
  qed
  then show ?thesis by blast
qed

lemma plus_combines: "inplace_combiner imset_plus {||}"
  by unfold_locales simp_all

text \<open>The lemmas on maps and on segments that the locale of combiners proves, for \<open>imset_plus\<close>.\<close>

lemmas im_plus_map_sem = inplace_combiner.plus_map_sem [OF plus_combines]
lemmas im_map_and_map_sem = inplace_combiner.map_and_map_sem [OF plus_combines]
lemmas im_intersects_iff = inplace_combiner.intersects_segment_iff [OF plus_combines]

interpretation imm: inplace_subtractor imset_minus "{||}"
  by unfold_locales simp_all

section \<open>Properties\<close>

text \<open>C27: Updating a map with a segment keeps it well formed: subtraction takes the set from the
  values of the interval's elements, erasure removes the elements that hold exactly that set,
  insertion returns and fills only the elements that had no value, and \<open>set_at\<close> returns and leaves
  the set at every element of the interval. Elements outside the interval keep their value.\<close>

theorem immap_segment_updates:
  assumes "wf_imap {||} q" "valid_ivl i"
  shows "wf_imap {||} (subtract_seg imset_minus {||} (i, v) q) \<and>
    (\<forall>x. sem {||} (subtract_seg imset_minus {||} (i, v) q) x =
      (if contains_elem i x then sem {||} q x |-| v else sem {||} q x)) \<and>
    wf_imap {||} (erase_seg {||} (i, v) q) \<and>
    (\<forall>x. sem {||} (erase_seg {||} (i, v) q) x =
      (if contains_elem i x \<and> sem {||} q x = v then {||} else sem {||} q x)) \<and>
    (\<exists>r. insert_seg {||} (i, v) q = Some r \<and> wf_imap {||} r \<and>
      (\<forall>x. sem {||} r x = (if contains_elem i x \<and> sem {||} q x = {||} then v else sem {||} q x))) \<and>
    (\<exists>r. set_at {||} q (i, v) = Some r \<and> wf_imap {||} r \<and>
      (\<forall>x. sem {||} r x = (if contains_elem i x then v else sem {||} q x)))"
  using subtract_seg_ok [OF assms, of imset_minus v] imm.subtract_sem_diff [OF assms, of v]
    erase_seg_ok [OF assms, of v] erase_seg_sem [OF assms, of v] insert_sem [OF assms, of v] set_at_sem [OF assms, of v]
  by (simp add: contains_elem_iff)

lemma immap_segment_updates_witness:
  "sem {||} (subtract_seg imset_minus {||} (right_open 2 8, {|7|}) sample_queue) 4 = {|1|} \<and>
   sem {||} (erase_seg {||} (right_open 2 8, {|7|}) sample_queue) 6 = {||} \<and>
   (\<exists>r. insert_seg {||} (right_open 8 14, {|3|}) sample_queue = Some r \<and> sem {||} r 10 = {|3|} \<and> sem {||} r 12 = {|4|}) \<and>
   (\<exists>r. set_at {||} sample_queue (right_open 8 14, {|3|}) = Some r \<and> sem {||} r 12 = {|3|})"
proof -
  have S: "sem {||} sample_queue 4 = {|1, 7|}" "sem {||} sample_queue 6 = {|7|}" "sem {||} sample_queue 10 = {||}"
    "sem {||} sample_queue 12 = {|4|}" by code_simp+
  have d: "{|1, 7|} |-| {|7|} = {|1 :: nat|}" by auto
  show ?thesis
    using immap_segment_updates [OF sample_queue_ok(1), of "right_open 2 8" "{|7|}"]
      immap_segment_updates [OF sample_queue_ok(1), of "right_open 8 14" "{|3|}"]
    by (auto simp: contains_elem_iff S d)
qed

text \<open>C28: The operators on two maps are the pointwise operators on sets, and keep the map well
  formed: \<open>+=\<close> is union, \<open>-=\<close> difference, \<open>&=\<close> intersection; inserting a map returns and fills the
  elements without a value; erasing a map removes the elements at which the two agree.\<close>

theorem immap_map_algebra:
  assumes "wf_imap {||} q" "wf_imap {||} r"
  shows "wf_imap {||} (plus_map imset_plus {||} q r) \<and>
    (\<forall>x. sem {||} (plus_map imset_plus {||} q r) x = sem {||} q x |\<union>| sem {||} r x) \<and>
    wf_imap {||} (minus_map imset_minus {||} q r) \<and>
    (\<forall>x. sem {||} (minus_map imset_minus {||} q r) x = sem {||} q x |-| sem {||} r x) \<and>
    wf_imap {||} (map_and_map imset_plus imset_et {||} q r) \<and>
    (\<forall>x. sem {||} (map_and_map imset_plus imset_et {||} q r) x = sem {||} q x |\<inter>| sem {||} r x) \<and>
    (\<exists>p. insert_map {||} q r = Some p \<and> wf_imap {||} p \<and>
      (\<forall>x. sem {||} p x = (if sem {||} q x = {||} then sem {||} r x else sem {||} q x))) \<and>
    wf_imap {||} (erase_map {||} q r) \<and>
    (\<forall>x. sem {||} (erase_map {||} q r) x = (if sem {||} q x = sem {||} r x then {||} else sem {||} q x))"
  using im_plus_map_sem [OF assms] imm.minus_map_sem [OF assms] im_map_and_map_sem [OF assms, of imset_et]
    insert_map_sem [OF assms] erase_map_sem [OF assms]
  by auto

lemma immap_map_algebra_witness:
  "sem {||} (map_and_map imset_plus imset_et {||} sample_queue [(right_open 4 14, {|4, 7|})]) 4 = {|7|} \<and>
   sem {||} (minus_map imset_minus {||} sample_queue [(right_open 4 14, {|4, 7|})]) 4 = {|1|}"
proof -
  let ?r = "[(right_open 4 14, {|4, 7|})] :: immap"
  have S: "wf_imap {||} ?r" "sem {||} sample_queue 4 = {|1, 7|}" "sem {||} ?r 4 = {|4, 7|}" by code_simp+
  have d: "{|1, 7|} |-| {|4, 7|} = {|1 :: nat|}" "{|1, 7|} |\<inter>| {|4, 7|} = {|7 :: nat|}" by auto
  show ?thesis using immap_map_algebra [OF sample_queue_ok(1) S(1)] by (simp only: S(2,3) d)
qed

text \<open>C30: The tests of a map see the elements, not the segments: \<open>contains\<close> of a key, of a pair, of
  an interval and of a segment, and \<open>intersects\<close> of a segment that carries a set, are decided by
  the values at the elements, although the interval may run over any number of touching segments.\<close>

theorem immap_containment:
  assumes "wf_imap {||} q" "valid_ivl i" "v \<noteq> {||}"
  shows "(contains_key q x \<longleftrightarrow> sem {||} q x \<noteq> {||}) \<and>
    (contains_elem_map q (x, v) \<longleftrightarrow> sem {||} q x = v) \<and>
    (contains_interval q i \<longleftrightarrow> (\<forall>y. contains_elem i y \<longrightarrow> sem {||} q y \<noteq> {||})) \<and>
    (contains_segment q (i, v) \<longleftrightarrow> (\<forall>y. contains_elem i y \<longrightarrow> sem {||} q y = v)) \<and>
    (intersects_segment imset_plus imset_et {||} q (i, v) \<longleftrightarrow>
      (\<exists>y. contains_elem i y \<and> sem {||} q y |\<inter>| v \<noteq> {||}))"
proof -
  have D: "(y, w) \<in> den q \<longleftrightarrow> w \<noteq> {||} \<and> sem {||} q y = w" for y w using sem_den [OF assms(1), of y w] by auto
  have K: "y \<in> fst ` den q \<longleftrightarrow> sem {||} q y \<noteq> {||}" for y using sem_dom [OF assms(1)] .
  have "contains_key q x \<longleftrightarrow> sem {||} q x \<noteq> {||}" using contains_key_iff(1) [OF assms(1), of x] by (simp only: K)
  moreover have "contains_elem_map q (x, v) \<longleftrightarrow> sem {||} q x = v"
    using contains_key_iff(2) [OF assms(1), of x v] assms(3) by (simp add: D)
  moreover have "contains_interval q i \<longleftrightarrow> (\<forall>y. contains_elem i y \<longrightarrow> sem {||} q y \<noteq> {||})"
    using contains_interval_iff [OF assms(1,2)] K by (simp only: contains_elem_iff subset_iff)
  moreover have "contains_segment q (i, v) \<longleftrightarrow> (\<forall>y. contains_elem i y \<longrightarrow> sem {||} q y = v)"
    using contains_segment_iff [OF assms(1,2), of v] assms(3) by (auto simp: contains_elem_iff subset_iff D)
  moreover have "intersects_segment imset_plus imset_et {||} q (i, v) \<longleftrightarrow>
      (\<exists>y. contains_elem i y \<and> sem {||} q y |\<inter>| v \<noteq> {||})"
    using im_intersects_iff [OF assms, of imset_et] by (auto simp: contains_elem_iff D)
  ultimately show ?thesis by blast
qed

lemma immap_containment_witness:
  "contains_interval sample_queue (right_open 1 9) \<and> \<not> contains_segment sample_queue (right_open 1 9, {|7|})"
proof -
  have n: "sem {||} sample_queue 1 \<noteq> {|7|}" by code_simp
  have "sem {||} sample_queue y \<noteq> {||}" if "1 \<le> y" "y < 9" for y
    using that by (simp add: sem_def lookup_map_def sample_queue_def contains_elem_iff)
  then show ?thesis
    using immap_containment [OF sample_queue_ok(1), of "right_open 1 9" "{|7|}"] n
    by (auto simp: contains_elem_iff)
qed

text \<open>C31: \<open>add_if\<close> returns exactly when every pair of the source satisfies the predicate, and then adds
  them all; with any other source its loop does not end, because its iterator advances only with a
  pair that it adds. \<open>erase_if\<close> always returns, without the pairs that satisfy the predicate.\<close>

theorem add_if_returns:
  "(\<exists>m. add_if comb idel pred obj src = Some m) = list_all pred src \<and>
   (list_all pred src \<longrightarrow> add_if comb idel pred obj src = Some (foldl (\<lambda>m s. add_seg comb idel s m) obj src)) \<and>
   erase_if pred src = filter (\<lambda>s. \<not> pred s) src"
  using add_if_returned [of comb idel pred obj src] add_if_all [of pred src comb idel obj]
  by (auto simp: erase_if_filter)

lemma add_if_returns_witness:
  "add_if imset_plus {||} (\<lambda>s. (1 :: imvalue) |\<in>| snd s) [] sample_queue = None"
proof -
  have "\<not> list_all (\<lambda>s. (1 :: imvalue) |\<in>| snd s) sample_queue" by code_simp
  then show ?thesis
    using add_if_returns [of imset_plus "{||}" "\<lambda>s. (1 :: imvalue) |\<in>| snd s" "[]" sample_queue] by auto
qed

end
