(* ===== verification/IclSet.thy ===== *)
theory IclSet
  imports IclMapMap
begin

text \<open>
  The interval sets of the container library: \<open>interval_set\<close>, \<open>separate_interval_set\<close> and
  \<open>split_interval_set\<close> over \<open>interval_base_set.hpp\<close>, with the algorithms of
  \<open>detail/interval_set_algo.hpp\<close> and the operations of \<open>concept/interval_set.hpp\<close>.

  The implementing \<open>std::set\<close>, ordered by \<open>exclusive_less_than\<close>, is the list of its intervals
  in order, and an iterator a cursor as in \<open>IclMap\<close>: the reversed list of the intervals before it, the
  one it points to, and the list of those after it. The three classes differ in the handlers that the
  base class calls, here chosen by a \<open>combining_style\<close>.

  Decrementing the iterator of the first interval is undefined: an addition that does so is \<open>None\<close>.
\<close>

type_synonym itv_set = "discrete_interval list"
type_synonym itv_cursor = "discrete_interval list \<times> discrete_interval \<times> discrete_interval list"

fun set_flatten :: "itv_cursor \<Rightarrow> itv_set" where
  "set_flatten (pre, cur, suf) = rev pre @ cur # suf"

datatype combining_style = joining | separating | splitting

section \<open>The collision sequence of an interval\<close>

definition set_before :: "discrete_interval \<Rightarrow> itv_set \<Rightarrow> itv_set" where
  "set_before i s = takeWhile (\<lambda>j. non_empty_exclusive_less j i) s"

definition set_from_lower :: "discrete_interval \<Rightarrow> itv_set \<Rightarrow> itv_set" where
  "set_from_lower i s = dropWhile (\<lambda>j. non_empty_exclusive_less j i) s"

definition set_range :: "discrete_interval \<Rightarrow> itv_set \<Rightarrow> itv_set" where
  "set_range i s = takeWhile (\<lambda>j. \<not> non_empty_exclusive_less i j) (set_from_lower i s)"

definition set_after :: "discrete_interval \<Rightarrow> itv_set \<Rightarrow> itv_set" where
  "set_after i s = dropWhile (\<lambda>j. \<not> non_empty_exclusive_less i j) (set_from_lower i s)"

section \<open>Joining\<close>

text \<open>The templates of namespace \<open>segmental\<close> for sets, where \<open>co_equal\<close> holds of any two intervals.\<close>

fun set_join_left :: "itv_cursor \<Rightarrow> itv_cursor" where
  "set_join_left ([], cur, suf) = ([], cur, suf)"
| "set_join_left (pred # pre, cur, suf) =
     (if touches pred cur then (pre, hull_ivl pred cur, suf) else (pred # pre, cur, suf))"

fun set_join_right :: "itv_cursor \<Rightarrow> itv_cursor" where
  "set_join_right (pre, cur, []) = (pre, cur, [])"
| "set_join_right (pre, cur, succ # suf) =
     (if touches cur succ then (pre, hull_ivl cur succ, suf) else (pre, cur, succ # suf))"

definition set_join_neighbours :: "itv_cursor \<Rightarrow> itv_cursor" where
  "set_join_neighbours z = set_join_right (set_join_left z)"

text \<open>\<open>join_under(object, addend, last_)\<close>, with \<open>last_\<close> the last interval that overlaps the addend: they
  become one, with the addend.\<close>

definition join_under :: "discrete_interval \<Rightarrow> itv_set \<Rightarrow> itv_cursor" where
  "join_under addend s =
     (let fs = hd (set_range addend s); ls = last (set_range addend s);
          left_resid = right_subtract fs addend;
          right_resid = left_subtract ls addend
      in (rev (set_before addend s), hull_ivl (hull_ivl left_resid addend) right_resid, set_after addend s))"

section \<open>Splitting\<close>

definition set_add_front :: "discrete_interval \<Rightarrow> itv_cursor \<Rightarrow> itv_cursor" where
  "set_add_front inter_val z = (case z of (pre, cur, suf) \<Rightarrow>
     let left_resid = right_subtract cur inter_val
     in if \<not> is_empty_ivl left_resid then (left_resid # pre, left_subtract cur left_resid, suf) else z)"

text \<open>The intervals before the iterator afterwards, which points to the next one. The lead gap is
  inserted with \<open>prior(it_)\<close> as hint.\<close>

definition set_add_segment :: "discrete_interval \<Rightarrow> discrete_interval list \<Rightarrow> discrete_interval \<Rightarrow> discrete_interval list option" where
  "set_add_segment inter_val pre cur =
     (let lead_gap = right_subtract inter_val cur
      in if \<not> is_empty_ivl lead_gap
         then (if pre = [] then None else Some (cur # lead_gap # pre))
         else Some (cur # pre))"

fun set_add_main ::
  "discrete_interval \<Rightarrow> discrete_interval list \<Rightarrow> discrete_interval \<Rightarrow> itv_set
     \<Rightarrow> (discrete_interval \<times> discrete_interval list \<times> discrete_interval) option" where
  "set_add_main rest pre cur [] = Some (rest, pre, cur)"
| "set_add_main rest pre cur (nxt # mid) = (case set_add_segment rest pre cur of None \<Rightarrow> None
     | Some pre' \<Rightarrow> set_add_main (left_subtract rest cur) pre' nxt mid)"

definition set_add_rear :: "discrete_interval \<Rightarrow> itv_cursor \<Rightarrow> itv_set" where
  "set_add_rear inter_val z = (case z of (pre, cur, suf) \<Rightarrow>
     let lead_gap = right_subtract inter_val cur;
         pre' = (if \<not> is_empty_ivl lead_gap then lead_gap # pre else pre);
         end_gap = left_subtract inter_val cur
     in if \<not> is_empty_ivl end_gap then rev pre' @ cur # end_gap # suf
        else let right_resid = left_subtract cur inter_val
             in if \<not> is_empty_ivl right_resid
                then rev pre' @ right_subtract cur right_resid # right_resid # suf
                else rev pre' @ cur # suf)"

section \<open>Addition and subtraction\<close>

text \<open>\<open>handle_inserted\<close> and \<open>add_over\<close> of the three classes.\<close>

definition set_handle_inserted :: "combining_style \<Rightarrow> itv_cursor \<Rightarrow> itv_set" where
  "set_handle_inserted style z = set_flatten (case style of joining \<Rightarrow> set_join_neighbours z | _ \<Rightarrow> z)"

definition split_add_over :: "discrete_interval \<Rightarrow> itv_set \<Rightarrow> itv_set option" where
  "split_add_over addend s = (case set_range addend s of [] \<Rightarrow> None
     | fs # mid \<Rightarrow>
         (case set_add_front addend (rev (set_before addend s), fs, []) of (pre, cur, _) \<Rightarrow>
          map_option (\<lambda>(rest, pre, cur). set_add_rear rest (pre, cur, set_after addend s)) (set_add_main addend pre cur mid)))"

definition join_add_over :: "discrete_interval \<Rightarrow> itv_set \<Rightarrow> itv_set" where
  "join_add_over addend s = set_flatten (set_join_neighbours (join_under addend s))"

definition separate_add_over :: "discrete_interval \<Rightarrow> itv_set \<Rightarrow> itv_set" where
  "separate_add_over addend s = set_flatten (join_under addend s)"

definition add_over :: "combining_style \<Rightarrow> discrete_interval \<Rightarrow> itv_set \<Rightarrow> itv_set option" where
  "add_over style addend s = (case style of
       joining \<Rightarrow> Some (join_add_over addend s)
     | separating \<Rightarrow> Some (separate_add_over addend s)
     | splitting \<Rightarrow> split_add_over addend s)"

text \<open>\<open>_add(addend)\<close>. With a hint \<open>_add(prior_, addend)\<close> does the same: the hint guides the search, and
  an interval found in place of the addend is either equal to it, and joined with its neighbours, or
  overlaps it.\<close>

definition set_add :: "combining_style \<Rightarrow> itv_set \<Rightarrow> discrete_interval \<Rightarrow> itv_set option" where
  "set_add style s addend =
     (if is_empty_ivl addend then Some s
      else if set_range addend s = []
      then Some (set_handle_inserted style (rev (set_before addend s), addend, set_after addend s))
      else add_over style addend s)"

definition set_add_hint :: "combining_style \<Rightarrow> itv_set \<Rightarrow> discrete_interval \<Rightarrow> itv_set option" where
  "set_add_hint style s addend =
     (if is_empty_ivl addend then Some s
      else case set_range addend s of
             [] \<Rightarrow> Some (set_handle_inserted style (rev (set_before addend s), addend, set_after addend s))
           | insertion # rest \<Rightarrow>
               if rest = [] \<and> eq_ivl insertion addend
               then Some (set_handle_inserted style (rev (set_before addend s), insertion, set_after addend s))
               else add_over style addend s)"

definition set_subtract :: "itv_set \<Rightarrow> discrete_interval \<Rightarrow> itv_set" where
  "set_subtract s minuend =
     (if is_empty_ivl minuend then s
      else if set_range minuend s = [] then s
      else let left_resid = right_subtract (hd (set_range minuend s)) minuend;
               right_resid = left_subtract (last (set_range minuend s)) minuend
           in set_before minuend s @ (if is_empty_ivl left_resid then [] else [left_resid])
              @ (if is_empty_ivl right_resid then [] else [right_resid]) @ set_after minuend s)"

end
