(* ===== verification/IclSetInv.thy ===== *)
theory IclSetInv
  imports IclSet
begin

text \<open>
  Correctness of addition and subtraction for interval sets. \<open>wf_itvs\<close> is the invariant of all three
  styles (valid non-empty intervals, disjoint and in order), \<open>joined\<close> the one of the joining style in
  addition; \<open>els\<close> is the set of elements.
\<close>

section \<open>Invariant and meaning\<close>

definition itv_ok :: "discrete_interval \<Rightarrow> bool" where
  "itv_ok i \<longleftrightarrow> valid_ivl i \<and> \<not> is_empty_ivl i"

definition itv_lt :: "discrete_interval \<Rightarrow> discrete_interval \<Rightarrow> bool" where
  "itv_lt a b \<longleftrightarrow> last_ivl a < first_ivl b"

definition wf_itvs :: "itv_set \<Rightarrow> bool" where
  "wf_itvs s \<longleftrightarrow> list_all itv_ok s \<and> sorted_wrt itv_lt s"

definition joined :: "itv_set \<Rightarrow> bool" where
  "joined s \<longleftrightarrow> successively (\<lambda>a b. \<not> touches a b) s"

definition els :: "itv_set \<Rightarrow> int set" where
  "els s = (\<Union>i\<in>set s. iset i)"

lemma els_simps [simp]: "els [] = {}" "els (i # s) = iset i \<union> els s" "els (s @ t) = els s \<union> els t" "els (rev s) = els s"
  by (auto simp: els_def)

lemma itv_ok_ends: "itv_ok i \<longleftrightarrow> valid_ivl i \<and> first_ivl i \<le> last_ivl i"
  by (auto simp: itv_ok_def is_empty_iff)

lemma in_iset: "x \<in> iset i \<longleftrightarrow> first_ivl i \<le> x \<and> x \<le> last_ivl i"
  by (auto simp: iset_def)

lemma wf_itvs_simps [simp]:
  "wf_itvs []" "wf_itvs (i # s) \<longleftrightarrow> itv_ok i \<and> wf_itvs s \<and> (\<forall>j\<in>set s. last_ivl i < first_ivl j)"
  "wf_itvs (s @ t) \<longleftrightarrow> wf_itvs s \<and> wf_itvs t \<and> (\<forall>i\<in>set s. \<forall>j\<in>set t. last_ivl i < first_ivl j)"
  by (auto simp: wf_itvs_def sorted_wrt_append itv_lt_def)

lemma wf_itvs_mem: "wf_itvs s \<Longrightarrow> i \<in> set s \<Longrightarrow> itv_ok i"
  by (simp add: wf_itvs_def list_all_iff)

lemma wf_hd_last:
  assumes "wf_itvs s" "i \<in> set s"
  shows "first_ivl (hd s) \<le> first_ivl i" "last_ivl i \<le> last_ivl (last s)" "last_ivl (hd s) \<le> last_ivl i" "first_ivl i \<le> first_ivl (last s)"
proof -
  obtain h t where s: "s = h # t" using assms(2) by (cases s) auto
  have h: "itv_ok h" "\<forall>j\<in>set t. last_ivl h < first_ivl j" "\<forall>j\<in>set s. itv_ok j" using assms(1) wf_itvs_mem by (auto simp: s)
  then show "first_ivl (hd s) \<le> first_ivl i" "last_ivl (hd s) \<le> last_ivl i"
    using assms(2) by (force simp: s itv_ok_ends)+
  have "s = butlast s @ [last s]" using assms(2) by (cases s rule: rev_cases) auto
  then have "wf_itvs (butlast s @ [last s])" "i \<in> set (butlast s) \<or> i = last s"
    using assms(1) assms(2) by (metis, metis (no_types) Un_iff empty_iff insert_iff list.set set_append)
  then show "last_ivl i \<le> last_ivl (last s)" "first_ivl i \<le> first_ivl (last s)"
    using h(3) assms(2) by (force simp: itv_ok_ends)+
qed

text \<open>The three parts into which an interval cuts a set.\<close>

lemma set_parts: "s = set_before i s @ set_range i s @ set_after i s"
  by (simp add: set_before_def set_range_def set_after_def set_from_lower_def)

lemma set_cut:
  assumes "wf_itvs s"
  shows "\<forall>j\<in>set (set_before i s). last_ivl j < first_ivl i" "\<forall>j\<in>set (set_after i s). last_ivl i < first_ivl j"
    "\<forall>j\<in>set (set_range i s). first_ivl i \<le> last_ivl j \<and> first_ivl j \<le> last_ivl i"
proof -
  let ?l = "set_from_lower i s"
  have p: "s = set_before i s @ ?l" "?l = set_range i s @ set_after i s"
    by (simp_all add: set_before_def set_from_lower_def set_range_def set_after_def)
  have w: "wf_itvs ?l" "wf_itvs (set_after i s)" using assms p by (metis wf_itvs_simps(3))+
  show "\<forall>j\<in>set (set_before i s). last_ivl j < first_ivl i"
    by (auto simp: set_before_def non_empty_exclusive_less_def dest: set_takeWhileD)
  show "\<forall>j\<in>set (set_after i s). last_ivl i < first_ivl j"
  proof
    fix j
    assume j: "j \<in> set (set_after i s)"
    then have ne: "set_after i s \<noteq> []" by auto
    have "last_ivl i < first_ivl (hd (set_after i s))"
      using hd_dropWhile [OF ne [unfolded set_after_def]] by (simp add: set_after_def non_empty_exclusive_less_def)
    then show "last_ivl i < first_ivl j" using wf_hd_last(1) [OF w(2) j] by simp
  qed
  show "\<forall>j\<in>set (set_range i s). first_ivl i \<le> last_ivl j \<and> first_ivl j \<le> last_ivl i"
  proof
    fix j
    assume j: "j \<in> set (set_range i s)"
    then have jl: "j \<in> set ?l" "first_ivl j \<le> last_ivl i"
      by (auto simp: set_range_def non_empty_exclusive_less_def dest: set_takeWhileD)
    then have ne: "?l \<noteq> []" by auto
    have "first_ivl i \<le> last_ivl (hd ?l)"
      using hd_dropWhile [OF ne [unfolded set_from_lower_def]] by (simp add: set_from_lower_def non_empty_exclusive_less_def)
    then show "first_ivl i \<le> last_ivl j \<and> first_ivl j \<le> last_ivl i" using wf_hd_last(3) [OF w(1) jl(1)] jl(2) by simp
  qed
qed

text \<open>Replacing the middle part by intervals that stay clear of the other two.\<close>

lemma wf_splice:
  assumes "wf_itvs (a @ b @ c)" "wf_itvs b'"
    and "\<forall>j\<in>set b'. (\<forall>i\<in>set a. last_ivl i < first_ivl j) \<and> (\<forall>k\<in>set c. last_ivl j < first_ivl k)"
  shows "wf_itvs (a @ b' @ c)"
  using assms by auto

section \<open>Joining\<close>

lemma hull_touching:
  assumes "itv_ok a" "itv_ok b" "touches a b"
  shows "itv_ok (hull_ivl a b)" "iset (hull_ivl a b) = iset a \<union> iset b"
    "first_ivl (hull_ivl a b) = first_ivl a" "last_ivl (hull_ivl a b) = last_ivl b"
proof -
  show i: "iset (hull_ivl a b) = iset a \<union> iset b"
    and e: "first_ivl (hull_ivl a b) = first_ivl a" "last_ivl (hull_ivl a b) = last_ivl b"
    using assms iset_hull_touching [of a b] by (simp_all add: itv_ok_def)
  have "last_ivl a + 1 = first_ivl b" using assms(3) by (rule touchesD)
  then show "itv_ok (hull_ivl a b)" using assms e by (simp add: itv_ok_ends)
qed

lemma touches_ends: "last_ivl a = last_ivl a' \<Longrightarrow> first_ivl b = first_ivl b' \<Longrightarrow> touches a b = touches a' b'"
  by (simp add: touches_def)

lemma set_join_left_ok:
  assumes w: "wf_itvs (rev pre @ cur # suf)" and j: "set_join_left (pre, cur, suf) = (pre', cur', suf')"
  shows "wf_itvs (rev pre' @ cur' # suf') \<and> els (rev pre' @ cur' # suf') = els (rev pre @ cur # suf) \<and> suf' = suf \<and>
    last_ivl cur' = last_ivl cur \<and> (joined (rev pre) \<longrightarrow> joined (rev pre' @ [cur']))"
proof (cases pre)
  case Nil
  then show ?thesis using assms by (auto simp: joined_def)
next
  case (Cons p ps)
  show ?thesis
  proof (cases "touches p cur")
    case False
    then show ?thesis using assms Cons by (auto simp: joined_def successively_append_iff)
  next
    case True
    have "itv_ok p" "itv_ok cur" using w Cons by auto
    note H = hull_touching [OF this True]
    have e: "pre' = ps" "cur' = hull_ivl p cur" "suf' = suf" using j Cons True by auto
    have "\<And>a. touches a (hull_ivl p cur) = touches a p" by (rule touches_ends) (simp_all add: H)
    then show ?thesis using w Cons H unfolding e by (auto simp: joined_def successively_append_iff)
  qed
qed

lemma set_join_right_ok:
  assumes w: "wf_itvs (rev pre @ cur # suf)" and j: "set_join_right (pre, cur, suf) = (pre', cur', suf')"
  shows "wf_itvs (rev pre' @ cur' # suf') \<and> els (rev pre' @ cur' # suf') = els (rev pre @ cur # suf) \<and> pre' = pre \<and>
    first_ivl cur' = first_ivl cur \<and> (joined suf \<longrightarrow> joined (cur' # suf'))"
proof (cases suf)
  case Nil
  then show ?thesis using assms by (auto simp: joined_def)
next
  case (Cons q qs)
  show ?thesis
  proof (cases "touches cur q")
    case False
    then show ?thesis using assms Cons by (auto simp: joined_def)
  next
    case True
    have "itv_ok cur" "itv_ok q" using w Cons by auto
    note H = hull_touching [OF this True]
    have e: "pre' = pre" "cur' = hull_ivl cur q" "suf' = qs" using j Cons True by auto
    have "\<And>a. touches (hull_ivl cur q) a = touches q a" by (rule touches_ends) (simp_all add: H)
    then have "joined (q # qs) \<longrightarrow> joined (hull_ivl cur q # qs)" by (cases qs) (simp_all add: joined_def)
    then show ?thesis using w Cons H unfolding e by auto
  qed
qed

lemma set_join_neighbours_ok:
  assumes w: "wf_itvs (rev pre @ cur # suf)"
  shows "wf_itvs (set_flatten (set_join_neighbours (pre, cur, suf))) \<and>
    els (set_flatten (set_join_neighbours (pre, cur, suf))) = els (rev pre @ cur # suf) \<and>
    (joined (rev pre) \<and> joined suf \<longrightarrow> joined (set_flatten (set_join_neighbours (pre, cur, suf))))"
proof -
  obtain p1 c1 s1 where l: "set_join_left (pre, cur, suf) = (p1, c1, s1)" by (metis prod_cases3)
  note L = set_join_left_ok [OF w l]
  obtain p2 c2 s2 where r: "set_join_right (p1, c1, s1) = (p2, c2, s2)" by (metis prod_cases3)
  note R = set_join_right_ok [OF L [THEN conjunct1] r]
  have "joined (rev p1 @ c2 # s2)" if j: "joined (rev p1 @ [c1])" "joined (c2 # s2)"
  proof -
    have "touches a c2 = touches a c1" for a by (rule touches_ends) (use R in simp_all)
    then show ?thesis using j by (auto simp: joined_def successively_append_iff)
  qed
  moreover have "set_flatten (set_join_neighbours (pre, cur, suf)) = rev p2 @ c2 # s2"
    by (simp add: set_join_neighbours_def l r)
  ultimately show ?thesis using L R by auto
qed

section \<open>Residuals\<close>

lemma itv_seg_ok: "seg_ok False (c, True) \<longleftrightarrow> itv_ok c"
  by (simp add: seg_ok_def itv_ok_def)

lemma right_subtract_itv:
  assumes "itv_ok i" "itv_ok c" "first_ivl c \<le> last_ivl i"
  shows "valid_ivl (right_subtract i c)" "first_ivl (right_subtract i c) = first_ivl i"
    "last_ivl (right_subtract i c) = first_ivl c - 1" "is_empty_ivl (right_subtract i c) \<longleftrightarrow> first_ivl c \<le> first_ivl i"
  using right_subtract_overlap [of i False "(c, True)"] assms by (auto simp: itv_seg_ok itv_ok_ends)

lemma left_subtract_itv:
  assumes "itv_ok i" "itv_ok c" "first_ivl i \<le> last_ivl c"
  shows "valid_ivl (left_subtract i c)" "first_ivl (left_subtract i c) = last_ivl c + 1"
    "last_ivl (left_subtract i c) = last_ivl i" "is_empty_ivl (left_subtract i c) \<longleftrightarrow> last_ivl i \<le> last_ivl c"
  using left_subtract_overlap [of i False "(c, True)"] assms by (auto simp: itv_seg_ok itv_ok_ends)

lemma hull_itv:
  assumes "itv_ok a" "itv_ok b"
  shows "itv_ok (hull_ivl a b)" "first_ivl (hull_ivl a b) = min (first_ivl a) (first_ivl b)"
    "last_ivl (hull_ivl a b) = max (last_ivl a) (last_ivl b)"
proof -
  show e: "first_ivl (hull_ivl a b) = min (first_ivl a) (first_ivl b)" "last_ivl (hull_ivl a b) = max (last_ivl a) (last_ivl b)"
    using assms hull_ends [of a b] by (auto simp: itv_ok_def)
  show "itv_ok (hull_ivl a b)" using assms e by (simp add: itv_ok_ends min_le_iff_disj le_max_iff_disj)
qed

end
