(* ===== verification/IclSetAdd.thy ===== *)
theory IclSetAdd
  imports IclSetInv
begin

text \<open>
  Addition and subtraction on interval sets change exactly the elements they should and keep the
  invariants, for all three styles; the splitting style faults exactly when it must insert a gap before
  \<open>begin()\<close> and more than one interval overlaps the addend.
\<close>

section \<open>The overlapping intervals become one\<close>

lemma range_els:
  assumes "wf_itvs s" "x \<in> els s" "first_ivl i \<le> x" "x \<le> last_ivl i"
  shows "x \<in> els (set_range i s)"
  using set_cut [OF assms(1), of i] assms(2-) set_parts [of s i]
  by (metis (no_types, lifting) UN_E Un_iff els_def els_simps(3) in_iset leD order_less_le_trans order_le_less_trans)

lemma join_under_ok:
  assumes w: "wf_itvs s" and i: "itv_ok i" and r: "set_range i s \<noteq> []"
  obtains c where "join_under i s = (rev (set_before i s), c, set_after i s)" "itv_ok c"
    "iset c = els (set_range i s) \<union> iset i" "wf_itvs (set_before i s @ c # set_after i s)"
proof -
  let ?r = "set_range i s" and ?f = "hd (set_range i s)" and ?l = "last (set_range i s)"
  let ?lr = "right_subtract ?f i" and ?rr = "left_subtract ?l i"
  define c where "c = hull_ivl (hull_ivl ?lr i) ?rr"
  note C = set_cut [OF w, of i]
  have wr: "wf_itvs ?r" "wf_itvs (set_before i s)" "wf_itvs (set_after i s)" using w set_parts [of s i] by (metis wf_itvs_simps(3))+
  have m: "?f \<in> set ?r" "?l \<in> set ?r" using r by simp_all
  have ok: "itv_ok ?f" "itv_ok ?l" using wf_itvs_mem [OF wr(1)] m by auto
  have o: "first_ivl i \<le> last_ivl ?f" "first_ivl ?l \<le> last_ivl i" "first_ivl ?f \<le> last_ivl i" "first_ivl i \<le> last_ivl ?l" using C m by auto
  note L = right_subtract_itv [OF ok(1) i o(1)] and R = left_subtract_itv [OF ok(2) i o(2)]
  have h1: "itv_ok (hull_ivl ?lr i) \<and> first_ivl (hull_ivl ?lr i) = min (first_ivl ?f) (first_ivl i) \<and> last_ivl (hull_ivl ?lr i) = last_ivl i"
  proof (cases "is_empty_ivl ?lr")
    case True
    then show ?thesis using L i by (auto simp: hull_ivl_def itv_ok_def)
  next
    case False
    then have "itv_ok ?lr" using L by (simp add: itv_ok_def)
    from hull_itv [OF this i] show ?thesis using L i by (auto simp: itv_ok_ends)
  qed
  have c: "itv_ok c \<and> first_ivl c = min (first_ivl ?f) (first_ivl i) \<and> last_ivl c = max (last_ivl ?l) (last_ivl i)"
  proof (cases "is_empty_ivl ?rr")
    case True
    then show ?thesis using R h1 by (auto simp: c_def hull_ivl_def)
  next
    case False
    then have "itv_ok ?rr" using R by (simp add: itv_ok_def)
    from hull_itv [OF h1 [THEN conjunct1] this] show ?thesis using R False h1 i by (auto simp: c_def itv_ok_ends)
  qed
  have b: "first_ivl ?f \<le> first_ivl j \<and> last_ivl j \<le> last_ivl ?l" if "j \<in> set ?r" for j using wf_hd_last [OF wr(1) that] by simp
  have e: "iset c = els ?r \<union> iset i"
  proof (rule set_eqI)
    fix x
    show "x \<in> iset c \<longleftrightarrow> x \<in> els ?r \<union> iset i"
    proof
      assume "x \<in> iset c"
      then have x: "min (first_ivl ?f) (first_ivl i) \<le> x" "x \<le> max (last_ivl ?l) (last_ivl i)" using c by (auto simp: in_iset)
      consider "x < first_ivl i" | "last_ivl i < x" | "x \<in> iset i" by (metis in_iset not_le)
      then show "x \<in> els ?r \<union> iset i"
      proof cases
        case 1
        then have "x \<in> iset ?f" using x o by (auto simp: in_iset)
        then show ?thesis using m by (auto simp: els_def)
      next
        case 2
        then have "x \<in> iset ?l" using x o by (auto simp: in_iset)
        then show ?thesis using m by (auto simp: els_def)
      qed simp
    next
      assume "x \<in> els ?r \<union> iset i"
      then show "x \<in> iset c" using c b by (fastforce simp: els_def in_iset)
    qed
  qed
  have "wf_itvs (set_before i s @ c # set_after i s)"
  proof -
    have "last_ivl j < first_ivl ?f" if "j \<in> set (set_before i s)" for j
      using w m(1) that set_parts [of s i] by (metis (no_types, lifting) Un_iff set_append wf_itvs_simps(3))
    moreover have "last_ivl ?l < first_ivl j" if "j \<in> set (set_after i s)" for j
      using w m(2) that set_parts [of s i] by (metis (no_types, lifting) wf_itvs_simps(3))
    moreover have "last_ivl j < first_ivl k" if "j \<in> set (set_before i s)" "k \<in> set (set_after i s)" for j k
      using w that set_parts [of s i] by (metis (no_types, lifting) Un_iff set_append wf_itvs_simps(3))
    ultimately show ?thesis using wr c C by auto
  qed
  moreover have "join_under i s = (rev (set_before i s), c, set_after i s)" by (simp add: join_under_def c_def Let_def)
  ultimately show ?thesis using that c e by blast
qed

section \<open>Splitting\<close>

text \<open>The borders of a set: where its intervals begin, and the elements right behind them.\<close>

definition borders :: "itv_set \<Rightarrow> int set" where
  "borders s = first_ivl ` set s \<union> (\<lambda>j. last_ivl j + 1) ` set s"

lemma borders_simps [simp]: "borders [] = {}" "borders (i # s) = {first_ivl i, last_ivl i + 1} \<union> borders s"
  "borders (s @ t) = borders s \<union> borders t" "borders (rev s) = borders s"
  by (auto simp: borders_def)

lemma set_add_front_ok:
  assumes w: "wf_itvs (rev pre @ cur # suf)" and i: "itv_ok i"
    and o: "first_ivl cur \<le> last_ivl i" "first_ivl i \<le> last_ivl cur" "\<forall>j\<in>set pre. last_ivl j < first_ivl i"
    and f: "set_add_front i (pre, cur, suf) = (pre', cur', suf')"
  shows "wf_itvs (rev pre' @ cur' # suf')" "els (rev pre' @ [cur']) = els (rev pre @ [cur])" "suf' = suf"
    "first_ivl i \<le> first_ivl cur'" "last_ivl cur' = last_ivl cur" "\<forall>j\<in>set pre'. last_ivl j < first_ivl i"
    "first_ivl cur' = max (first_ivl cur) (first_ivl i)"
    "borders (i # rev pre' @ [cur']) = borders (i # rev pre @ [cur])"
proof -
  have c: "itv_ok cur" using w by simp
  let ?lr = "right_subtract cur i"
  note L = right_subtract_itv [OF c i o(2)]
  have all: "wf_itvs (rev pre' @ cur' # suf') \<and> els (rev pre' @ [cur']) = els (rev pre @ [cur]) \<and> suf' = suf \<and>
    last_ivl cur' = last_ivl cur \<and> (\<forall>j\<in>set pre'. last_ivl j < first_ivl i) \<and> first_ivl cur' = max (first_ivl cur) (first_ivl i) \<and>
    borders (i # rev pre' @ [cur']) = borders (i # rev pre @ [cur])"
  proof (cases "is_empty_ivl ?lr")
    case True
    then show ?thesis using L f w o by (auto simp: set_add_front_def)
  next
    case False
    then have lr: "itv_ok ?lr" using L by (simp add: itv_ok_def)
    have e: "first_ivl cur \<le> last_ivl ?lr" using False L by simp
    note R = left_subtract_itv [OF c lr e]
    have p: "pre' = ?lr # pre" "cur' = left_subtract cur ?lr" "suf' = suf" using False f by (auto simp: set_add_front_def Let_def)
    have "itv_ok cur'" using R(1-3) L o p by (simp add: itv_ok_ends)
    moreover have "iset ?lr \<union> iset cur' = iset cur" using R(1-3) L o p False by (auto simp: iset_def)
    ultimately show ?thesis using L R(1-3) w o False lr unfolding p by auto
  qed
  then show "wf_itvs (rev pre' @ cur' # suf')" "els (rev pre' @ [cur']) = els (rev pre @ [cur])" "suf' = suf"
    "first_ivl i \<le> first_ivl cur'" "last_ivl cur' = last_ivl cur" "\<forall>j\<in>set pre'. last_ivl j < first_ivl i"
    "first_ivl cur' = max (first_ivl cur) (first_ivl i)"
    "borders (i # rev pre' @ [cur']) = borders (i # rev pre @ [cur])" by auto
qed

text \<open>The loop over the intervals but the last: the rest of the addend begins behind the intervals passed
  and no later than the one pointed to.\<close>

lemma set_add_main_ok:
  assumes "wf_itvs (rev pre @ cur # mid @ suf)" "itv_ok rest" "first_ivl rest \<le> first_ivl cur"
    "\<forall>j\<in>set pre. last_ivl j < first_ivl rest" "\<forall>j\<in>set (cur # mid). first_ivl j \<le> last_ivl rest"
    "set_add_main rest pre cur mid = Some (rest', pre', cur')"
  shows "wf_itvs (rev pre' @ cur' # suf) \<and> itv_ok rest' \<and> first_ivl rest' \<le> first_ivl cur' \<and>
    first_ivl cur' \<le> last_ivl rest' \<and> last_ivl rest' = last_ivl rest \<and> (\<forall>j\<in>set pre'. last_ivl j < first_ivl rest') \<and>
    els (rev pre' @ [cur']) \<union> iset rest' = els (rev pre @ cur # mid) \<union> iset rest \<and>
    borders (rest' # rev pre' @ [cur']) = borders (rest # rev pre @ cur # mid)"
  using assms
proof (induction mid arbitrary: rest pre cur)
  case Nil
  then show ?case by auto
next
  case (Cons nxt mid)
  let ?g = "right_subtract rest cur" and ?r = "left_subtract rest cur"
  have c: "itv_ok cur" "itv_ok nxt" "last_ivl cur < first_ivl nxt" using Cons.prems(1) by auto
  have o: "first_ivl cur \<le> last_ivl rest" "first_ivl rest \<le> last_ivl cur"
    using Cons.prems(3,5) c by (auto simp: itv_ok_ends)
  note G = right_subtract_itv [OF Cons.prems(2) c(1) o(1)] and R = left_subtract_itv [OF Cons.prems(2) c(1) o(2)]
  have nx: "first_ivl nxt \<le> last_ivl rest" using Cons.prems(5) by simp
  have r: "itv_ok ?r" using R(1-3) c nx by (auto simp: itv_ok_ends)
  obtain q where q: "set_add_segment rest pre cur = Some q" "set_add_main ?r q nxt mid = Some (rest', pre', cur')"
    using Cons.prems(6) by (auto split: option.splits)
  have qs: "q = (if is_empty_ivl ?g then cur # pre else cur # ?g # pre)"
    using q(1) by (auto simp: set_add_segment_def Let_def split: if_splits)
  have wq: "wf_itvs (rev q @ nxt # mid @ suf) \<and> (\<forall>j\<in>set q. last_ivl j < first_ivl ?r) \<and>
    els (rev q) \<union> iset ?r = els (rev pre @ [cur]) \<union> iset rest \<and> borders (?r # rev q) = borders (rest # rev pre @ [cur])"
  proof (cases "is_empty_ivl ?g")
    case True
    then have fe: "first_ivl rest = first_ivl cur" using G Cons.prems(3) by simp
    then have "iset cur \<union> iset ?r = iset cur \<union> iset rest" using R o nx c by (auto simp: iset_def)
    then show ?thesis using True fe qs Cons.prems(1,4) R(1-3) o by auto
  next
    case False
    then have "itv_ok ?g" using G by (simp add: itv_ok_def)
    moreover have "iset cur \<union> iset ?g \<union> iset ?r = iset cur \<union> iset rest" using R G o nx c Cons.prems(3) by (auto simp: iset_def)
    moreover have "\<forall>j\<in>set (nxt # mid @ suf). last_ivl cur < first_ivl j" using Cons.prems(1) by auto
    then have "\<forall>j\<in>set (nxt # mid @ suf). first_ivl cur - 1 < first_ivl j" using c(1) by (fastforce simp: itv_ok_ends)
    ultimately show ?thesis using False qs Cons.prems(1,3,4) R(1-3) G o by (auto simp: itv_ok_ends)
  qed
  have "first_ivl ?r \<le> first_ivl nxt" "\<forall>j\<in>set (nxt # mid). first_ivl j \<le> last_ivl ?r" using R c Cons.prems(5) by auto
  note I = Cons.IH [OF wq [THEN conjunct1] r this(1) wq [THEN conjunct2, THEN conjunct1] this(2) q(2)]
  have "els (rev pre' @ [cur']) \<union> iset rest' = (els (rev q) \<union> iset ?r) \<union> els (nxt # mid)"
    using I by (simp add: Un_ac)
  also have "\<dots> = els (rev pre @ cur # nxt # mid) \<union> iset rest" using wq by (simp add: Un_ac)
  finally have e: "els (rev pre' @ [cur']) \<union> iset rest' = els (rev pre @ cur # nxt # mid) \<union> iset rest" .
  have "borders (rest' # rev pre' @ [cur']) = borders (?r # rev q) \<union> borders (nxt # mid)"
    using I by auto
  also have "\<dots> = borders (rest # rev pre @ cur # nxt # mid)" using wq by auto
  finally show ?case using I e R(3) by simp
qed

lemma set_add_rear_ok:
  assumes w: "wf_itvs (rev pre @ cur # suf)" and i: "itv_ok i" and o: "first_ivl i \<le> first_ivl cur" "first_ivl cur \<le> last_ivl i"
    "\<forall>j\<in>set pre. last_ivl j < first_ivl i" "\<forall>j\<in>set suf. last_ivl i < first_ivl j"
  shows "wf_itvs (set_add_rear i (pre, cur, suf))" "els (set_add_rear i (pre, cur, suf)) = els (rev pre @ cur # suf) \<union> iset i"
    "borders (set_add_rear i (pre, cur, suf)) = borders (i # rev pre @ cur # suf)"
proof -
  have c: "itv_ok cur" using w by simp
  have o2: "first_ivl i \<le> last_ivl cur" using o c by (simp add: itv_ok_ends)
  let ?g = "right_subtract i cur" and ?e = "left_subtract i cur" and ?r = "left_subtract cur i"
  note G = right_subtract_itv [OF i c o(2)] and E = left_subtract_itv [OF i c o2] and R = left_subtract_itv [OF c i o(2)]
  define p where "p = (if is_empty_ivl ?g then pre else ?g # pre)"
  have p: "wf_itvs (rev p @ cur # suf) \<and> els (rev p) \<union> (iset i \<inter> {first_ivl cur ..}) = els (rev pre) \<union> iset i \<and>
    insert (first_ivl cur) (borders p) = insert (first_ivl cur) (insert (first_ivl i) (borders pre))"
  proof (cases "is_empty_ivl ?g")
    case True
    then show ?thesis using w o G by (auto simp: p_def iset_def)
  next
    case False
    then have g: "itv_ok ?g" using G by (simp add: itv_ok_def)
    have "iset ?g \<union> (iset i \<inter> {first_ivl cur ..}) = iset i" using G o by (auto simp: iset_def)
    then show ?thesis using False w o G g by (auto simp: p_def)
  qed
  have "wf_itvs (set_add_rear i (pre, cur, suf)) \<and> els (set_add_rear i (pre, cur, suf)) = els (rev pre @ cur # suf) \<union> iset i \<and>
    borders (set_add_rear i (pre, cur, suf)) = borders (i # rev pre @ cur # suf)"
  proof (cases "is_empty_ivl ?e")
    case False
    then have e: "itv_ok ?e" using E by (simp add: itv_ok_def)
    have s: "set_add_rear i (pre, cur, suf) = rev p @ cur # ?e # suf" using False by (simp add: set_add_rear_def p_def Let_def)
    have "iset cur \<union> iset ?e = iset cur \<union> (iset i \<inter> {first_ivl cur ..})" using E False c o by (auto simp: iset_def itv_ok_ends)
    then have "els (set_add_rear i (pre, cur, suf)) = els (rev pre @ cur # suf) \<union> iset i" using p by (auto simp: s)
    moreover have "borders (rev p @ cur # ?e # suf) = borders (i # rev pre @ cur # suf)"
      using p [THEN conjunct2, THEN conjunct2] E(1-3) by auto
    moreover have "wf_itvs (rev p @ cur # ?e # suf)" using p e E(1-3) c o by (force simp: itv_ok_ends)
    ultimately show ?thesis by (simp add: s)
  next
    case True
    then have le: "last_ivl i \<le> last_ivl cur" using E by simp
    then have sub: "iset i \<inter> {first_ivl cur ..} \<subseteq> iset cur" by (auto simp: iset_def)
    show ?thesis
    proof (cases "is_empty_ivl ?r")
      case True
      have "set_add_rear i (pre, cur, suf) = rev p @ cur # suf"
        using True \<open>is_empty_ivl ?e\<close> by (simp add: set_add_rear_def p_def Let_def)
      moreover have "last_ivl i = last_ivl cur" using True R le by simp
      then have "borders (rev p @ cur # suf) = borders (i # rev pre @ cur # suf)"
        using p [THEN conjunct2, THEN conjunct2] by auto
      ultimately show ?thesis using p sub by auto
    next
      case False
      then have r: "itv_ok ?r" using R by (simp add: itv_ok_def)
      have r2: "first_ivl ?r \<le> last_ivl cur" using R False by simp
      note D = right_subtract_itv [OF c r r2]
      let ?d = "right_subtract cur ?r"
      have d: "itv_ok ?d" using D(1-3) R o by (auto simp: itv_ok_ends)
      have s: "set_add_rear i (pre, cur, suf) = rev p @ ?d # ?r # suf"
        using False \<open>is_empty_ivl ?e\<close> by (simp add: set_add_rear_def p_def Let_def)
      have "iset ?d \<union> iset ?r = iset cur" using D R r2 o False by (auto simp: iset_def)
      then have "els (set_add_rear i (pre, cur, suf)) = els (rev pre @ cur # suf) \<union> iset i" using p sub by (auto simp: s)
      moreover have "borders (rev p @ ?d # ?r # suf) = borders (i # rev pre @ cur # suf)"
        using p [THEN conjunct2, THEN conjunct2] D(1-3) R(1-3) by auto
      moreover have "wf_itvs (rev p @ ?d # ?r # suf)" using p r d D(1-3) R(1-3) o le by fastforce
      ultimately show ?thesis by (simp add: s)
    qed
  qed
  then show "wf_itvs (set_add_rear i (pre, cur, suf))" "els (set_add_rear i (pre, cur, suf)) = els (rev pre @ cur # suf) \<union> iset i"
    "borders (set_add_rear i (pre, cur, suf)) = borders (i # rev pre @ cur # suf)" by auto
qed

lemma set_add_main_None: "set_add_main rest pre cur mid = None \<longleftrightarrow> pre = [] \<and> mid \<noteq> [] \<and> \<not> is_empty_ivl (right_subtract rest cur)"
proof -
  have some: "pre \<noteq> [] \<Longrightarrow> set_add_main rest pre cur mid \<noteq> None" for rest pre cur mid
    by (induction mid arbitrary: rest pre cur) (auto simp: set_add_segment_def Let_def)
  show ?thesis
    by (cases mid) (auto simp: set_add_segment_def Let_def some split: option.splits)
qed

lemma split_add_over_ok:
  assumes w: "wf_itvs s" and i: "itv_ok i" and r: "set_range i s = fs # mid"
  shows "split_add_over i s = None \<longleftrightarrow> set_before i s = [] \<and> mid \<noteq> [] \<and> first_ivl i < first_ivl fs"
    "split_add_over i s = Some s' \<Longrightarrow> wf_itvs s' \<and> els s' = els s \<union> iset i \<and> borders s' = borders s \<union> borders [i]"
proof -
  note C = set_cut [OF w, of i, unfolded r] and P = set_parts [of s i, unfolded r]
  obtain pre cur z where f: "set_add_front i (rev (set_before i s), fs, []) = (pre, cur, z)" by (metis prod_cases3)
  have "wf_itvs (set_before i s @ (fs # mid) @ set_after i s)" by (simp only: P [symmetric] w)
  then have w0: "wf_itvs (set_before i s @ fs # mid @ set_after i s)" and w1: "wf_itvs (rev (rev (set_before i s)) @ fs # [])" by auto
  have o: "first_ivl fs \<le> last_ivl i" "first_ivl i \<le> last_ivl fs" "\<forall>j\<in>set (rev (set_before i s)). last_ivl j < first_ivl i" using C by auto
  note F = set_add_front_ok [OF w1 i o f]
  have fs: "itv_ok fs" using w1 by simp
  note L = right_subtract_itv [OF fs i o(2)]
  have cur: "itv_ok cur" "first_ivl cur \<le> last_ivl i" using F o(1) i by (auto simp: itv_ok_ends)
  note G = right_subtract_itv [OF i cur]
  have pre: "pre = [] \<longleftrightarrow> set_before i s = [] \<and> first_ivl i \<le> first_ivl fs"
    using f L by (auto simp: set_add_front_def Let_def split: if_splits)
  have so: "split_add_over i s = map_option (\<lambda>(rest, pre, cur). set_add_rear rest (pre, cur, set_after i s)) (set_add_main i pre cur mid)"
    by (simp add: split_add_over_def r f)
  show "split_add_over i s = None \<longleftrightarrow> set_before i s = [] \<and> mid \<noteq> [] \<and> first_ivl i < first_ivl fs"
    using pre F(7) by (auto simp: so set_add_main_None G)
  assume "split_add_over i s = Some s'"
  then obtain rest' pre' cur' where m: "set_add_main i pre cur mid = Some (rest', pre', cur')"
    and s': "s' = set_add_rear rest' (pre', cur', set_after i s)" by (auto simp: so)
  have w2: "wf_itvs (rev pre @ cur # mid @ set_after i s)"
  proof -
    have "\<forall>k\<in>set (mid @ set_after i s). last_ivl fs < first_ivl k" "wf_itvs (mid @ set_after i s)" using w0 by auto
    moreover have "\<forall>j\<in>set pre. last_ivl j < first_ivl cur" "wf_itvs (rev pre)" using F(1) by auto
    moreover have "last_ivl j < first_ivl k" if "j \<in> set pre" "k \<in> set (mid @ set_after i s)" for j k
      using that F(5) fs calculation cur(1) by (fastforce simp: itv_ok_ends)
    ultimately show ?thesis using F(5) cur(1) by auto
  qed
  have "\<forall>j\<in>set (cur # mid). first_ivl j \<le> last_ivl i" using C cur by auto
  note M = set_add_main_ok [OF w2 i F(4,6) this m]
  have "\<forall>j\<in>set (set_after i s). last_ivl rest' < first_ivl j" using M C by simp
  note R = set_add_rear_ok [OF _ _ _ _ _ this, of pre' cur', folded s']
  have R': "wf_itvs s'" "els s' = els (rev pre' @ cur' # set_after i s) \<union> iset rest'"
    "borders s' = borders (rest' # rev pre' @ cur' # set_after i s)" using R M by blast+
  have "els s' = els (rev pre @ [cur]) \<union> els mid \<union> els (set_after i s) \<union> iset i" using R'(2) M by (auto simp: Un_assoc)
  also have "\<dots> = els s \<union> iset i" using F(2) P by (metis (no_types, lifting) Un_assoc els_simps rev_rev_ident append_Cons append.left_neutral)
  finally have e: "els s' = els s \<union> iset i" .
  have "borders s' = borders (i # rev pre @ [cur]) \<union> borders mid \<union> borders (set_after i s)"
    using R'(3) M by (auto simp: Un_assoc)
  also have "\<dots> = borders s \<union> borders [i]" unfolding F(8) by (subst (3) P) auto
  finally show "wf_itvs s' \<and> els s' = els s \<union> iset i \<and> borders s' = borders s \<union> borders [i]" using R'(1) e by simp
qed

section \<open>Addition and subtraction\<close>

lemma els_parts: "els s = els (set_before i s) \<union> els (set_range i s) \<union> els (set_after i s)"
  using set_parts [of s i] els_simps(3) by (metis Un_assoc)

lemma joined_iff: "wf_itvs s \<Longrightarrow> joined s \<longleftrightarrow> (\<forall>i\<in>set s. last_ivl i + 1 \<notin> els s)"
proof (induction s)
  case Nil
  then show ?case by (simp add: joined_def)
next
  case (Cons i s)
  have tail: "last_ivl j + 1 \<notin> iset i" if "j \<in> set s" for j
    using Cons.prems that wf_itvs_mem [OF _ that] by (force simp: in_iset itv_ok_ends)
  have "joined (i # s) \<longleftrightarrow> joined s \<and> last_ivl i + 1 \<notin> els s"
  proof (cases s)
    case Nil
    then show ?thesis by (simp add: joined_def)
  next
    case (Cons k t)
    have "last_ivl i + 1 \<in> els s \<longleftrightarrow> touches i k"
    proof
      assume "last_ivl i + 1 \<in> els s"
      then obtain j where j: "j \<in> set s" "first_ivl j \<le> last_ivl i + 1" by (auto simp: els_def in_iset)
      have "first_ivl k \<le> first_ivl j" using wf_hd_last(1) [of s j] Cons.prems j Cons by simp
      then show "touches i k" using j Cons.prems Cons by (auto simp: touches_def domain_next_def)
    next
      assume "touches i k"
      then show "last_ivl i + 1 \<in> els s" using touchesD [of i k] Cons.prems Cons by (auto simp: in_iset itv_ok_ends)
    qed
    then show ?thesis using Cons by (auto simp: joined_def)
  qed
  then show ?case using Cons tail by (auto simp: in_iset)
qed

lemma set_add_ok:
  assumes w: "wf_itvs s" and i: "valid_ivl i" and a: "set_add style s i = Some s'"
  shows "wf_itvs s'" "els s' = els s \<union> iset i" "style = joining \<Longrightarrow> joined s \<Longrightarrow> joined s'"
    "style = splitting \<Longrightarrow> \<not> is_empty_ivl i \<Longrightarrow> borders s' = borders s \<union> borders [i]"
proof -
  have "wf_itvs s' \<and> els s' = els s \<union> iset i \<and> (style = joining \<longrightarrow> joined s \<longrightarrow> joined s') \<and>
    (style = splitting \<longrightarrow> \<not> is_empty_ivl i \<longrightarrow> borders s' = borders s \<union> borders [i])"
  proof (cases "is_empty_ivl i")
    case True
    then show ?thesis using a w i by (auto simp: set_add_def iset_empty_iff [symmetric])
  next
    case False
    then have i: "itv_ok i" using i by (simp add: itv_ok_def)
    note C = set_cut [OF w, of i]
    have P: "s = set_before i s @ set_range i s @ set_after i s" by (rule set_parts)
    have "wf_itvs (set_before i s @ set_range i s @ set_after i s)" by (simp only: P [symmetric] w)
    then have ws: "wf_itvs (set_before i s @ set_after i s)" by auto
    have js: "joined (rev (rev (set_before i s))) \<and> joined (set_after i s)" if "joined s"
    proof -
      have "joined (set_before i s @ set_range i s @ set_after i s)" using that by (simp only: P [symmetric])
      then show ?thesis by (auto simp: joined_def successively_append_iff)
    qed
    show ?thesis
    proof (cases "set_range i s = []")
      case True
      have z: "wf_itvs (rev (rev (set_before i s)) @ i # set_after i s)" using ws i C by auto
      have e: "els (rev (rev (set_before i s)) @ i # set_after i s) = els s \<union> iset i" using els_parts [of s i] True by auto
      have b: "borders (set_before i s @ i # set_after i s) = borders s \<union> borders [i]" by (subst (3) P) (auto simp: True)
      show ?thesis
      proof (cases style)
        case joining
        then have "s' = set_flatten (set_join_neighbours (rev (set_before i s), i, set_after i s))"
          using a False True by (simp add: set_add_def set_handle_inserted_def)
        then show ?thesis using set_join_neighbours_ok [OF z] e js joining by simp
      qed (use a False True z e b in \<open>auto simp: set_add_def set_handle_inserted_def\<close>)
    next
      case False
      then have ao: "add_over style i s = Some s'" using a i by (simp add: set_add_def itv_ok_def)
      obtain c where c: "join_under i s = (rev (set_before i s), c, set_after i s)" "itv_ok c"
        "iset c = els (set_range i s) \<union> iset i" "wf_itvs (set_before i s @ c # set_after i s)" by (rule join_under_ok [OF w i False])
      have z: "wf_itvs (rev (rev (set_before i s)) @ c # set_after i s)" using c by simp
      have e: "els (rev (rev (set_before i s)) @ c # set_after i s) = els s \<union> iset i" using els_parts [of s i] c by auto
      obtain fs mid where r: "set_range i s = fs # mid" using False by (cases "set_range i s") auto
      show ?thesis
      proof (cases style)
        case joining
        then have "s' = set_flatten (set_join_neighbours (rev (set_before i s), c, set_after i s))"
          using ao c by (simp add: add_over_def join_add_over_def)
        then show ?thesis using set_join_neighbours_ok [OF z] e js joining by simp
      next
        case separating
        then show ?thesis using ao c z e by (auto simp: add_over_def separate_add_over_def)
      next
        case splitting
        then show ?thesis using split_add_over_ok(2) [OF w i r] ao by (simp add: add_over_def)
      qed
    qed
  qed
  then show "wf_itvs s'" "els s' = els s \<union> iset i" "style = joining \<Longrightarrow> joined s \<Longrightarrow> joined s'"
    "style = splitting \<Longrightarrow> \<not> is_empty_ivl i \<Longrightarrow> borders s' = borders s \<union> borders [i]" by auto
qed

lemma set_add_None:
  assumes "wf_itvs s" "valid_ivl i"
  shows "set_add style s i = None \<longleftrightarrow> style = splitting \<and> \<not> is_empty_ivl i \<and> set_before i s = [] \<and>
    1 < length (set_range i s) \<and> first_ivl i < first_ivl (hd s)"
proof (cases "is_empty_ivl i \<or> set_range i s = [] \<or> style \<noteq> splitting")
  case True
  then show ?thesis by (cases style) (auto simp: set_add_def add_over_def)
next
  case False
  then have i: "itv_ok i" using assms by (simp add: itv_ok_def)
  obtain fs mid where r: "set_range i s = fs # mid" using False by (cases "set_range i s") auto
  have "set_before i s = [] \<Longrightarrow> hd s = fs" using set_parts [of s i] r by (metis append.left_neutral append_Cons list.sel(1))
  then show ?thesis using False split_add_over_ok(1) [OF assms(1) i r] r by (auto simp: set_add_def add_over_def)
qed

text \<open>Where two intervals overlap the addend, and none lies before it.\<close>

lemma range_first_two:
  assumes "wf_itvs s" "valid_ivl i" "\<not> is_empty_ivl i"
  shows "set_before i s = [] \<and> 1 < length (set_range i s) \<and> first_ivl i < first_ivl (hd s) \<longleftrightarrow>
    (\<exists>a b r. s = a # b # r \<and> first_ivl i < first_ivl a \<and> first_ivl b \<le> last_ivl i)"
proof
  assume l: "set_before i s = [] \<and> 1 < length (set_range i s) \<and> first_ivl i < first_ivl (hd s)"
  then obtain a b r where r: "set_range i s = a # b # r" by (cases "set_range i s" rule: list.exhaust; cases "tl (set_range i s)") auto
  then have p: "s = a # b # r @ set_after i s" using l set_parts [of s i] by simp
  then have "first_ivl i < first_ivl a" using l by (metis list.sel(1))
  moreover have "first_ivl b \<le> last_ivl i" using set_cut(3) [OF assms(1), of i] r by simp
  ultimately show "\<exists>a b r. s = a # b # r \<and> first_ivl i < first_ivl a \<and> first_ivl b \<le> last_ivl i" using p by blast
next
  assume "\<exists>a b r. s = a # b # r \<and> first_ivl i < first_ivl a \<and> first_ivl b \<le> last_ivl i"
  then obtain a b r where s: "s = a # b # r" "first_ivl i < first_ivl a" "first_ivl b \<le> last_ivl i" by blast
  then have "first_ivl a \<le> last_ivl a" "last_ivl a < first_ivl b" using assms(1) by (auto simp: itv_ok_ends)
  then show "set_before i s = [] \<and> 1 < length (set_range i s) \<and> first_ivl i < first_ivl (hd s)"
    using s by (simp add: set_before_def set_range_def set_from_lower_def non_empty_exclusive_less_def)
qed

text \<open>The addition with a hint differs only where the addend is already in the set.\<close>

lemma set_add_hint_eq:
  assumes w: "wf_itvs s" and i: "valid_ivl i" and a: "set_add_hint style s i = Some s'"
  shows "wf_itvs s'" "els s' = els s \<union> iset i" "style = joining \<Longrightarrow> joined s \<Longrightarrow> joined s'"
proof -
  have "wf_itvs s' \<and> els s' = els s \<union> iset i \<and> (style = joining \<longrightarrow> joined s \<longrightarrow> joined s')"
  proof (cases "\<not> is_empty_ivl i \<and> (\<exists>k. set_range i s = [k] \<and> eq_ivl k i)")
    case False
    have "set_add_hint style s i = set_add style s i"
      using False by (auto simp: set_add_hint_def set_add_def split: list.splits)
    then show ?thesis using set_add_ok [OF w i] a by simp
  next
    case True
    then obtain k where k: "\<not> is_empty_ivl i" "set_range i s = [k]" "eq_ivl k i" by blast
    have P: "s = set_before i s @ k # set_after i s" using set_parts [of s i] k by simp
    have "wf_itvs (set_before i s @ k # set_after i s)" by (simp only: P [symmetric] w)
    then have z: "wf_itvs (rev (rev (set_before i s)) @ k # set_after i s)" by simp
    have "itv_ok k" using z by simp
    then have "iset k = iset i" using k by (auto simp: eq_ivl_def itv_ok_def lower_equal_def upper_equal_def iset_def)
    then have e: "els (rev (rev (set_before i s)) @ k # set_after i s) = els s \<union> iset i" using els_parts [of s i] k by auto
    have js: "joined (rev (rev (set_before i s))) \<and> joined (set_after i s)" if "joined s"
    proof -
      have "joined (set_before i s @ k # set_after i s)" using that by (simp only: P [symmetric])
      then show ?thesis by (cases "set_after i s") (auto simp: joined_def successively_append_iff)
    qed
    have "s' = set_handle_inserted style (rev (set_before i s), k, set_after i s)"
      using a k by (simp add: set_add_hint_def)
    then show ?thesis using set_join_neighbours_ok [OF z] e js z
      by (cases style) (auto simp: set_handle_inserted_def)
  qed
  then show "wf_itvs s'" "els s' = els s \<union> iset i" "style = joining \<Longrightarrow> joined s \<Longrightarrow> joined s'" by auto
qed

lemma set_subtract_ok:
  assumes w: "wf_itvs s" and i: "valid_ivl i"
  shows "wf_itvs (set_subtract s i)" "els (set_subtract s i) = els s - iset i" "joined s \<Longrightarrow> joined (set_subtract s i)"
proof -
  note C = set_cut [OF w, of i] and P = set_parts [of s i]
  have "wf_itvs (set_before i s @ set_range i s @ set_after i s)" by (simp only: P [symmetric] w)
  then have ws: "wf_itvs (set_before i s)" "wf_itvs (set_range i s)" "wf_itvs (set_after i s)"
    and ab: "\<forall>j\<in>set (set_before i s). \<forall>k\<in>set (set_range i s @ set_after i s). last_ivl j < first_ivl k"
      "\<forall>j\<in>set (set_range i s). \<forall>k\<in>set (set_after i s). last_ivl j < first_ivl k" by auto
  have out: "els (set_before i s) \<inter> iset i = {}" "els (set_after i s) \<inter> iset i = {}" using C by (force simp: els_def in_iset)+
  have "wf_itvs (set_subtract s i) \<and> els (set_subtract s i) = els s - iset i \<and>
    (\<forall>j\<in>set (set_subtract s i). last_ivl j + 1 \<in> iset i \<or> (\<exists>k\<in>set s. last_ivl j = last_ivl k))"
  proof (cases "is_empty_ivl i \<or> set_range i s = []")
    case True
    then have "set_subtract s i = s" by (auto simp: set_subtract_def)
    moreover have "els s \<inter> iset i = {}" using True out els_parts [of s i] i by (auto simp: iset_empty_iff [symmetric])
    ultimately show ?thesis using w by auto
  next
    case False
    then have i: "itv_ok i" using i by (simp add: itv_ok_def)
    let ?f = "hd (set_range i s)" and ?l = "last (set_range i s)"
    let ?lr = "right_subtract ?f i" and ?rr = "left_subtract ?l i"
    have m: "?f \<in> set (set_range i s)" "?l \<in> set (set_range i s)" using False by simp_all
    have ms: "?l \<in> set s" using m(2) P by (metis Un_iff set_append)
    have ok: "itv_ok ?f" "itv_ok ?l" using wf_itvs_mem [OF ws(2)] m by auto
    have o: "first_ivl i \<le> last_ivl ?f" "first_ivl ?l \<le> last_ivl i" using C m by auto
    note L = right_subtract_itv [OF ok(1) i o(1)] and R = left_subtract_itv [OF ok(2) i o(2)]
    have ie: "first_ivl i \<le> last_ivl i" using i by (simp add: itv_ok_ends)
    define x where "x = (if is_empty_ivl ?lr then [] else [?lr])"
    define y where "y = (if is_empty_ivl ?rr then [] else [?rr])"
    have s: "set_subtract s i = set_before i s @ x @ y @ set_after i s"
      using False by (simp add: set_subtract_def x_def y_def Let_def)
    have x: "\<forall>j\<in>set x. itv_ok j \<and> first_ivl j = first_ivl ?f \<and> last_ivl j = first_ivl i - 1" "els x = iset ?f \<inter> {..< first_ivl i}" "wf_itvs x"
      using L o by (auto simp: x_def itv_ok_def iset_def)
    have y: "\<forall>j\<in>set y. itv_ok j \<and> first_ivl j = last_ivl i + 1 \<and> last_ivl j = last_ivl ?l" "els y = iset ?l \<inter> {last_ivl i <..}" "wf_itvs y"
      using R o by (auto simp: y_def itv_ok_def iset_def)
    have "\<forall>j\<in>set (set_before i s). last_ivl j < first_ivl ?f" "\<forall>k\<in>set (set_after i s). last_ivl ?l < first_ivl k" using ab m by auto
    then have "wf_itvs (set_subtract s i)" unfolding s using ws C x y ab ie by fastforce
    moreover have "els (set_range i s) - iset i = els x \<union> els y"
    proof (rule set_eqI)
      fix z
      show "z \<in> els (set_range i s) - iset i \<longleftrightarrow> z \<in> els x \<union> els y"
      proof
        assume z: "z \<in> els (set_range i s) - iset i"
        then obtain j where j: "j \<in> set (set_range i s)" "first_ivl j \<le> z" "z \<le> last_ivl j" by (auto simp: els_def in_iset)
        have "first_ivl ?f \<le> first_ivl j" "last_ivl j \<le> last_ivl ?l" using wf_hd_last [OF ws(2) j(1)] by auto
        then show "z \<in> els x \<union> els y" using z j o unfolding x y by (auto simp: in_iset)
      next
        assume "z \<in> els x \<union> els y"
        then show "z \<in> els (set_range i s) - iset i" using m ie unfolding x y by (auto simp: els_def in_iset)
      qed
    qed
    then have "els (set_subtract s i) = els s - iset i" using els_parts [of s i] out by (auto simp: s)
    moreover have "\<forall>j\<in>set (set_subtract s i). last_ivl j + 1 \<in> iset i \<or> (\<exists>k\<in>set s. last_ivl j = last_ivl k)"
    proof
      fix j
      assume "j \<in> set (set_subtract s i)"
      then consider "j \<in> set s" | "j \<in> set x" | "j \<in> set y" using P s by (metis Un_iff set_append)
      then show "last_ivl j + 1 \<in> iset i \<or> (\<exists>k\<in>set s. last_ivl j = last_ivl k)"
        using x(1) y(1) ms ie by cases (auto simp: in_iset)
    qed
    ultimately show ?thesis by blast
  qed
  note all = this
  show "wf_itvs (set_subtract s i)" "els (set_subtract s i) = els s - iset i" using all by auto
  assume j: "joined s"
  have "last_ivl j + 1 \<notin> els s - iset i" if "j \<in> set (set_subtract s i)" for j
    using all that j joined_iff [OF w] by (metis Diff_iff)
  then show "joined (set_subtract s i)" using all by (simp add: joined_iff)
qed

end
