(* ===== verification/IclSetAlg.thy ===== *)
theory IclSetAlg
  imports IclSetAdd
begin

text \<open>
  The operations of \<open>concept/interval_set.hpp\<close> and \<open>concept/interval_associator.hpp\<close> on interval sets:
  templates over the class of the set, which call its members \<open>add\<close> and \<open>subtract\<close>. The members are
  parameters of the definitions here, and the laws the templates rely on the locale \<open>interval_container\<close>;
  it is interpreted on \<open>set_add\<close>, \<open>set_add_hint\<close> and \<open>set_subtract\<close> for every style.

  An operation is \<open>None\<close> when one of the additions it makes faults.
\<close>

type_synonym adder = "itv_set \<Rightarrow> discrete_interval \<Rightarrow> itv_set option"
type_synonym remover = "itv_set \<Rightarrow> discrete_interval \<Rightarrow> itv_set"

section \<open>Containment\<close>

text \<open>\<open>find(key)\<close>, over the elements and over the intervals that collide with an interval.\<close>

definition set_find :: "itv_set \<Rightarrow> int \<Rightarrow> discrete_interval option" where
  "set_find s key_val = (case set_range (singleton key_val) s of [] \<Rightarrow> None | i # _ \<Rightarrow> Some i)"

definition set_contains_elem :: "itv_set \<Rightarrow> int \<Rightarrow> bool" where
  "set_contains_elem super key_val \<longleftrightarrow> set_find super key_val \<noteq> None"

fun itvs_joinable :: "itv_set \<Rightarrow> bool" where
  "itvs_joinable (it # nxt # r) = (if \<not> touches it nxt then False else itvs_joinable (nxt # r))"
| "itvs_joinable _ = True"

definition set_contains :: "itv_set \<Rightarrow> discrete_interval \<Rightarrow> bool" where
  "set_contains super inter_val =
     (if is_empty_ivl inter_val then True
      else case set_range inter_val super of [] \<Rightarrow> False
         | i # r \<Rightarrow> contains_ivl (hull_ivl i (last (i # r))) inter_val \<and> itvs_joinable (i # r))"

definition set_intersects :: "itv_set \<Rightarrow> discrete_interval \<Rightarrow> bool" where
  "set_intersects left right \<longleftrightarrow> set_range right left \<noteq> []"

section \<open>Elements, intersection, symmetric difference\<close>

definition set_add_elem :: "adder \<Rightarrow> itv_set \<Rightarrow> int \<Rightarrow> itv_set option" where
  "set_add_elem add obj operand = add obj (singleton operand)"

definition set_subtract_elem :: "remover \<Rightarrow> itv_set \<Rightarrow> int \<Rightarrow> itv_set" where
  "set_subtract_elem sub obj operand = sub obj (singleton operand)"

definition set_add_intersection_elem :: "adder \<Rightarrow> itv_set \<Rightarrow> itv_set \<Rightarrow> int \<Rightarrow> itv_set option" where
  "set_add_intersection_elem add sect obj operand =
     (if set_find obj operand \<noteq> None then set_add_elem add sect operand else Some sect)"

fun set_intersection_loop :: "adder \<Rightarrow> discrete_interval \<Rightarrow> itv_set \<Rightarrow> itv_set \<Rightarrow> itv_set option" where
  "set_intersection_loop ins segment [] sect = Some sect"
| "set_intersection_loop ins segment (it # its) sect =
     (let common_interval = and_ivl it segment
      in if \<not> is_empty_ivl common_interval
         then (case ins sect common_interval of None \<Rightarrow> None | Some sect' \<Rightarrow> set_intersection_loop ins segment its sect')
         else set_intersection_loop ins segment its sect)"

definition set_add_intersection :: "adder \<Rightarrow> itv_set \<Rightarrow> itv_set \<Rightarrow> discrete_interval \<Rightarrow> itv_set option" where
  "set_add_intersection ins sect obj segment =
     (if is_empty_ivl segment then Some sect else set_intersection_loop ins segment (set_range segment obj) sect)"

definition set_flip_elem :: "adder \<Rightarrow> remover \<Rightarrow> itv_set \<Rightarrow> int \<Rightarrow> itv_set option" where
  "set_flip_elem add sub obj operand =
     (if set_contains_elem obj operand then Some (set_subtract_elem sub obj operand) else set_add_elem add obj operand)"

text \<open>\<open>flip(object, segment)\<close>. The loop reads each interval of the collision sequence before it changes the
  object, and the changes made for one interval end before the next.\<close>

fun set_flip_loop :: "adder \<Rightarrow> remover \<Rightarrow> itv_set \<Rightarrow> discrete_interval \<Rightarrow> itv_set \<Rightarrow> itv_set option" where
  "set_flip_loop add sub obj span [] = add obj span"
| "set_flip_loop add sub obj span (covered # its) =
     (let left_over = right_subtract span covered
      in case add (sub obj (and_ivl span covered)) left_over of None \<Rightarrow> None
         | Some obj' \<Rightarrow> set_flip_loop add sub obj' (left_subtract span covered) its)"

definition set_flip :: "adder \<Rightarrow> remover \<Rightarrow> itv_set \<Rightarrow> discrete_interval \<Rightarrow> itv_set option" where
  "set_flip add sub obj segment = set_flip_loop add sub obj segment (set_range segment obj)"

section \<open>A set with a set\<close>

fun set_fold :: "adder \<Rightarrow> itv_set \<Rightarrow> itv_set \<Rightarrow> itv_set option" where
  "set_fold f obj [] = Some obj"
| "set_fold f obj (elem # r) = (case f obj elem of None \<Rightarrow> None | Some obj' \<Rightarrow> set_fold f obj' r)"

definition set_plus :: "adder \<Rightarrow> itv_set \<Rightarrow> itv_set \<Rightarrow> itv_set option" where
  "set_plus add_hint obj operand = set_fold add_hint obj operand"

definition set_assign :: "adder \<Rightarrow> itv_set \<Rightarrow> itv_set option" where
  "set_assign add_hint src = set_fold add_hint [] src"

definition set_erase :: "remover \<Rightarrow> itv_set \<Rightarrow> itv_set \<Rightarrow> itv_set" where
  "set_erase sub obj operand =
     (if operand = [] then obj
      else case common_range exclusive_less operand obj of None \<Rightarrow> obj | Some r \<Rightarrow> foldl sub obj r)"

definition set_add_intersection_set :: "adder \<Rightarrow> itv_set \<Rightarrow> itv_set \<Rightarrow> itv_set \<Rightarrow> itv_set option" where
  "set_add_intersection_set ins sect obj operand =
     (if operand = [] then Some sect
      else case common_range exclusive_less operand obj of None \<Rightarrow> Some sect
         | Some r \<Rightarrow> set_fold (\<lambda>sect elem. set_add_intersection ins sect obj elem) sect r)"

definition set_and :: "adder \<Rightarrow> itv_set \<Rightarrow> itv_set \<Rightarrow> itv_set option" where
  "set_and ins obj operand = set_add_intersection_set ins [] obj operand"

definition set_flip_set :: "adder \<Rightarrow> adder \<Rightarrow> remover \<Rightarrow> itv_set \<Rightarrow> itv_set \<Rightarrow> itv_set option" where
  "set_flip_set add add_hint sub obj operand =
     (if operand = [] then Some obj
      else case common_range exclusive_less operand obj of
             None \<Rightarrow> set_plus add_hint obj operand
           | Some r \<Rightarrow>
               (let below = takeWhile (\<lambda>j. exclusive_less j (hd obj)) operand;
                    above = drop (length below + length r) operand
                in case set_fold add obj below of None \<Rightarrow> None
                   | Some obj \<Rightarrow> (case set_fold (set_flip add sub) obj r of None \<Rightarrow> None
                       | Some obj \<Rightarrow> set_fold add obj above)))"

section \<open>Selection\<close>

text \<open>\<open>domain\<close> copies a set into another, \<open>between\<close> the gaps between its intervals.\<close>

definition set_domain :: "adder \<Rightarrow> itv_set \<Rightarrow> itv_set option" where
  "set_domain ins obj = set_fold ins [] obj"

definition between_ivl :: "discrete_interval \<Rightarrow> discrete_interval \<Rightarrow> discrete_interval" where
  "between_ivl l r = inner_complement l r"

fun between_loop :: "adder \<Rightarrow> itv_set \<Rightarrow> itv_set \<Rightarrow> itv_set option" where
  "between_loop ins in_between (pred # it # its) =
     (case ins in_between (between_ivl pred it) of None \<Rightarrow> None
      | Some in_between' \<Rightarrow> between_loop ins in_between' (it # its))"
| "between_loop ins in_between _ = Some in_between"

definition set_between :: "adder \<Rightarrow> itv_set \<Rightarrow> itv_set option" where
  "set_between ins obj = between_loop ins [] obj"

definition set_hull :: "itv_set \<Rightarrow> discrete_interval" where
  "set_hull obj = (if obj = [] then identity_interval else hull_ivl (hd obj) (last obj))"

section \<open>Sets as maps\<close>

text \<open>
  A set is the map that gives each interval a value of its own, its first element: touching intervals do
  not join, so the lemmas on containment and common ranges carry over.
\<close>

definition as_map :: "itv_set \<Rightarrow> int option imap" where
  "as_map s = map (\<lambda>i. (i, Some (first_ivl i))) s"

lemma as_map_simps [simp]: "as_map [] = []" "as_map (i # s) = (i, Some (first_ivl i)) # as_map s" "as_map s = [] \<longleftrightarrow> s = []"
  "s \<noteq> [] \<Longrightarrow> fst (last (as_map s)) = last s"
  by (auto simp: as_map_def last_map)

lemma wf_as_map: "wf_itvs s \<Longrightarrow> wf_imap None (as_map s)"
proof (induction s)
  case (Cons i s)
  then show ?case
    by (cases s) (auto simp: wf_imap_def as_map_def seg_ok_def itv_ok_def seg_lt_def joinable_def is_empty_iff)
qed (simp add: wf_imap_def as_map_def)

lemma den_as_map: "fst ` den (as_map s) = els s"
  by (rule set_eqI) (auto simp: in_dom as_map_def els_def in_iset)

lemma range_as_map: "equal_range i (as_map s) = as_map (set_range i s)"
  by (simp add: equal_range_def from_lower_bound_def set_range_def set_from_lower_def as_map_def takeWhile_map dropWhile_map comp_def)

lemma joinable_as_map: "set_joinable (as_map s) = itvs_joinable s"
  by (induction s rule: itvs_joinable.induct) (auto simp: as_map_def)

lemma common_range_as_map: "common_range seg_less (as_map n) (as_map m) = map_option as_map (common_range exclusive_less n m)"
  by (auto simp: common_range_def seg_less_def as_map_def last_map hd_map takeWhile_map dropWhile_map comp_def)

lemma set_contains_iff:
  assumes "wf_itvs s" "valid_ivl i"
  shows "set_contains s i \<longleftrightarrow> iset i \<subseteq> els s"
proof -
  have "set_contains s i = contains_interval (as_map s) i"
    using joinable_as_map [of "set_range i s"]
    by (cases "set_range i s") (auto simp: set_contains_def contains_interval_def range_as_map)
  then show ?thesis using contains_interval_iff [OF wf_as_map [OF assms(1)] assms(2)] by (simp add: den_as_map)
qed

lemma common_parts:
  assumes "wf_itvs n" "wf_itvs m"
  shows "\<exists>a r b. n = a @ r @ b \<and> (case common_range exclusive_less n m of None \<Rightarrow> r = [] | Some r' \<Rightarrow> r' = r) \<and> els (a @ b) \<inter> els m = {}"
proof -
  obtain a r b where p: "as_map n = a @ r @ b" "case common_range seg_less (as_map n) (as_map m) of None \<Rightarrow> r = [] | Some r' \<Rightarrow> r' = r"
    "fst ` den (a @ b) \<inter> fst ` den (as_map m) = {}" using common_range_parts [OF assms [THEN wf_as_map]] by blast
  have unmap: "map fst (as_map s) = s" for s by (simp add: as_map_def comp_def)
  have emb: "x = as_map (map fst x)" if "set x \<subseteq> set (as_map n)" for x
    using that by (auto simp: as_map_def subset_iff image_iff intro!: map_idI [symmetric])
  have ab: "a = as_map (map fst a)" "r = as_map (map fst r)" "b = as_map (map fst b)" using p(1) by (intro emb; auto)+
  have n: "n = map fst a @ map fst r @ map fst b" using unmap [of n] p(1) by (metis map_append)
  moreover have "case common_range exclusive_less n m of None \<Rightarrow> map fst r = [] | Some r' \<Rightarrow> r' = map fst r"
    using p(2) unmap by (auto simp: common_range_as_map split: option.splits)
  moreover have "els (map fst a @ map fst b) \<inter> els m = {}"
    using p(3) den_as_map [of "map fst a"] den_as_map [of "map fst b"] den_as_map [of m] ab by (auto simp: image_Un)
  ultimately show ?thesis by blast
qed

lemma set_find_iff: "wf_itvs s \<Longrightarrow> set_find s x \<noteq> None \<longleftrightarrow> x \<in> els s"
proof -
  assume w: "wf_itvs s"
  have x: "first_ivl (singleton x) = x" "last_ivl (singleton x) = x"
    using singleton_ivl [of x] by (auto simp: iset_def)
  have "set_range (singleton x) s \<noteq> [] \<longleftrightarrow> x \<in> els s"
  proof
    assume "set_range (singleton x) s \<noteq> []"
    then obtain j where "j \<in> set (set_range (singleton x) s)" by (cases "set_range (singleton x) s") auto
    then show "x \<in> els s" using set_cut(3) [OF w, of "singleton x"] els_parts [of s "singleton x"] x
      by (auto simp: els_def in_iset)
  next
    assume "x \<in> els s"
    from range_els [OF w this, of "singleton x"] show "set_range (singleton x) s \<noteq> []" using x by auto
  qed
  then show "set_find s x \<noteq> None \<longleftrightarrow> x \<in> els s" by (auto simp: set_find_def split: list.splits)
qed

lemma range_meets:
  assumes "wf_itvs s" "valid_ivl i" "\<not> is_empty_ivl i"
  shows "set_intersects s i \<longleftrightarrow> els s \<inter> iset i \<noteq> {}" "els s \<inter> iset i = els (set_range i s) \<inter> iset i"
proof -
  show e: "els s \<inter> iset i = els (set_range i s) \<inter> iset i"
    using range_els [OF assms(1), of _ i] els_parts [of s i] by (fastforce simp: in_iset)
  have "els (set_range i s) \<inter> iset i \<noteq> {}" if r: "set_range i s \<noteq> []"
  proof -
    let ?h = "hd (set_range i s)"
    have h: "?h \<in> set (set_range i s)" using r by simp
    then have "first_ivl i \<le> last_ivl ?h" "first_ivl ?h \<le> last_ivl i" using set_cut(3) [OF assms(1), of i] by auto
    moreover have "itv_ok ?h" using h set_parts [of s i] wf_itvs_mem [OF assms(1)] by (metis Un_iff set_append)
    ultimately have "max (first_ivl i) (first_ivl ?h) \<in> iset ?h \<inter> iset i"
      using assms(2,3) by (auto simp: in_iset itv_ok_ends is_empty_iff)
    then show ?thesis using h by (auto simp: els_def)
  qed
  then show "set_intersects s i \<longleftrightarrow> els s \<inter> iset i \<noteq> {}" using e by (auto simp: set_intersects_def)
qed

section \<open>The contract of a container\<close>

lemma wf_parts_disjoint: "wf_itvs (a @ b) \<Longrightarrow> els a \<inter> els b = {}"
  by (fastforce simp: els_def in_iset)

lemma wf_head_disjoint: "wf_itvs (i # s) \<Longrightarrow> iset i \<inter> els s = {}"
  using wf_parts_disjoint [of "[i]" s] by simp

lemma wf_valid: "wf_itvs s \<Longrightarrow> i \<in> set s \<Longrightarrow> valid_ivl i"
  using wf_itvs_mem by (auto simp: itv_ok_def)

lemma set_fold_ok:
  assumes f: "\<And>s i s'. P s \<Longrightarrow> valid_ivl i \<Longrightarrow> f s i = Some s' \<Longrightarrow> P s' \<and> els s' = els s \<union> iset i"
  shows "P s \<Longrightarrow> \<forall>e\<in>set es. valid_ivl e \<Longrightarrow> set_fold f s es = Some s' \<Longrightarrow> P s' \<and> els s' = els s \<union> els es"
proof (induction es arbitrary: s)
  case (Cons e es)
  then obtain t where t: "f s e = Some t" "set_fold f t es = Some s'" by (auto split: option.splits)
  with f [of s e t] Cons show ?case by auto
qed simp

lemma set_fold_gap:
  assumes f: "\<And>s i s'. P s \<Longrightarrow> valid_ivl i \<Longrightarrow> f s i = Some s' \<Longrightarrow> P s' \<and> els s' = els s \<union> iset i"
    and g: "\<And>s i. P s \<Longrightarrow> valid_ivl i \<Longrightarrow> els s \<inter> iset i = {} \<Longrightarrow> f s i \<noteq> None"
  shows "P s \<Longrightarrow> wf_itvs es \<Longrightarrow> els s \<inter> els es = {} \<Longrightarrow> \<exists>s'. set_fold f s es = Some s'"
proof (induction es arbitrary: s)
  case (Cons e es)
  have e: "valid_ivl e" "els s \<inter> iset e = {}" using wf_valid [OF Cons.prems(2)] Cons.prems(3) by auto
  obtain t where t: "f s e = Some t" using g [OF Cons.prems(1) e] by auto
  note T = f [OF Cons.prems(1) e(1) t]
  have "els t \<inter> els es = {}" using T wf_head_disjoint [OF Cons.prems(2)] Cons.prems(3) by auto
  then show ?case using Cons.IH [of t] T Cons.prems(2) t by auto
qed simp

text \<open>The gap between two intervals, and the hull of a set.\<close>

lemma between_ivl_set:
  assumes "itv_ok p" "itv_ok i" "last_ivl p < first_ivl i"
  shows "valid_ivl (between_ivl p i)" "iset (between_ivl p i) = {last_ivl p + 1..first_ivl i - 1}"
proof -
  note H = hull_itv [OF assms(1,2)]
  have pi: "first_ivl p \<le> last_ivl p" "first_ivl i \<le> last_ivl i" using assms by (auto simp: itv_ok_ends)
  have h: "first_ivl (hull_ivl p i) \<le> last_ivl p" using H pi by simp
  note L = left_subtract_itv [OF H(1) assms(1) h]
  have l: "itv_ok (left_subtract (hull_ivl p i) p)" using L(1-3) H pi assms by (auto simp: itv_ok_ends)
  have r: "first_ivl i \<le> last_ivl (left_subtract (hull_ivl p i) p)" using L(3) H pi assms by simp
  note R = right_subtract_itv [OF l assms(2) r]
  have e: "between_ivl p i = right_subtract (left_subtract (hull_ivl p i) p) i"
    using assms by (simp add: between_ivl_def inner_complement_def exclusive_less_def itv_ok_def)
  show "valid_ivl (between_ivl p i)" "iset (between_ivl p i) = {last_ivl p + 1..first_ivl i - 1}"
    using R(1-3) L(2) by (simp_all add: e iset_def)
qed

lemma set_hull_ok:
  assumes "wf_itvs s" "s \<noteq> []"
  shows "iset (set_hull s) = {first_ivl (hd s)..last_ivl (last s)}" "els s \<subseteq> iset (set_hull s)"
    "first_ivl (hd s) \<in> els s" "last_ivl (last s) \<in> els s"
proof -
  have m: "hd s \<in> set s" "last s \<in> set s" using assms(2) by simp_all
  have ok: "itv_ok (hd s)" "itv_ok (last s)" using wf_itvs_mem [OF assms(1)] m by auto
  have b: "first_ivl (hd s) \<le> first_ivl j" "last_ivl j \<le> last_ivl (last s)" if "j \<in> set s" for j
    using wf_hd_last [OF assms(1) that] by simp_all
  show h: "iset (set_hull s) = {first_ivl (hd s)..last_ivl (last s)}"
    using hull_itv [OF ok] b [OF m(1)] b [OF m(2)] assms(2) by (simp add: set_hull_def iset_def)
  show "els s \<subseteq> iset (set_hull s)" using b by (force simp: h els_def in_iset)
  show "first_ivl (hd s) \<in> els s" "last_ivl (last s) \<in> els s"
    using m ok by (auto simp: els_def in_iset itv_ok_ends)
qed

text \<open>The parts of an operand of a symmetric difference.\<close>

lemma flip_parts:
  assumes w: "wf_itvs n" "wf_itvs m" and c: "common_range exclusive_less n m = Some r"
  defines "below \<equiv> takeWhile (\<lambda>j. exclusive_less j (hd m)) n"
  shows "n = below @ r @ drop (length below + length r) n" "(els below \<union> els (drop (length below + length r) n)) \<inter> els m = {}"
proof -
  let ?above = "drop (length below + length r) n"
  have r: "r = takeWhile (\<lambda>s. \<not> exclusive_less (last m) s) (dropWhile (\<lambda>j. exclusive_less j (hd m)) n)"
    using c by (auto simp: common_range_def split: if_splits)
  have "n = below @ r @ dropWhile (\<lambda>s. \<not> exclusive_less (last m) s) (dropWhile (\<lambda>j. exclusive_less j (hd m)) n)"
    by (simp add: r below_def)
  then show n: "n = below @ r @ ?above" by (metis append_assoc append_eq_conv_conj length_append)
  obtain a b where ab: "n = a @ r @ b" "els (a @ b) \<inter> els m = {}" using common_parts [OF w] c by fastforce
  have lt: "x \<in> els u \<Longrightarrow> x \<notin> els v" if "wf_itvs (u @ v)" for u v x using wf_parts_disjoint [OF that] by blast
  have "wf_itvs (below @ r @ ?above)" using w(1) n by metis
  then have "wf_itvs (r @ ?above)" "wf_itvs (below @ r)" by auto
  then have "(els below \<union> els ?above) \<inter> els r = {}" using lt by blast
  moreover have "els below \<union> els ?above \<subseteq> els n" using n els_simps(3) by (metis Un_upper1 Un_upper2 Un_least le_supI2)
  moreover have "els n = els a \<union> els r \<union> els b" using ab(1) by auto
  ultimately show "(els below \<union> els ?above) \<inter> els m = {}" using ab(2) by auto
qed

locale interval_container =
  fixes inv :: "itv_set \<Rightarrow> bool" and add :: adder and add_hint :: adder and sub :: remover
  assumes inv_empty: "inv []"
    and inv_wf: "inv s \<Longrightarrow> wf_itvs s"
    and add_ok: "inv s \<Longrightarrow> valid_ivl i \<Longrightarrow> add s i = Some s' \<Longrightarrow> inv s' \<and> els s' = els s \<union> iset i"
    and add_gap: "inv s \<Longrightarrow> valid_ivl i \<Longrightarrow> els s \<inter> iset i = {} \<Longrightarrow> add s i \<noteq> None"
    and hint_ok: "inv s \<Longrightarrow> valid_ivl i \<Longrightarrow> add_hint s i = Some s' \<Longrightarrow> inv s' \<and> els s' = els s \<union> iset i"
    and hint_gap: "inv s \<Longrightarrow> valid_ivl i \<Longrightarrow> els s \<inter> iset i = {} \<Longrightarrow> add_hint s i \<noteq> None"
    and sub_ok: "inv s \<Longrightarrow> valid_ivl i \<Longrightarrow> inv (sub s i) \<and> els (sub s i) = els s - iset i"
begin

lemma add_gap_ok:
  assumes "inv s" "valid_ivl i" "els s \<inter> iset i = {}"
  obtains s' where "add s i = Some s'" "inv s'" "els s' = els s \<union> iset i"
  using add_gap [OF assms] add_ok [OF assms(1,2)] by blast

lemma hint_gap_ok:
  assumes "inv s" "valid_ivl i" "els s \<inter> iset i = {}"
  obtains s' where "add_hint s i = Some s'" "inv s'" "els s' = els s \<union> iset i"
  using hint_gap [OF assms] hint_ok [OF assms(1,2)] by blast

lemma fold_add_gap:
  assumes s: "inv s" and t: "wf_itvs t" and d: "els s \<inter> els t = {}"
  obtains u where "set_fold add s t = Some u" "inv u" "els u = els s \<union> els t"
proof -
  have v: "\<forall>e\<in>set t. valid_ivl e" using wf_valid [OF t] by blast
  obtain u where u: "set_fold add s t = Some u"
    using set_fold_gap [of inv add s t, OF add_ok add_gap s t d] by blast
  have "inv u \<and> els u = els s \<union> els t" by (rule set_fold_ok [of inv add s t u, OF add_ok s v u])
  then show ?thesis using that u by blast
qed

lemma plus_ok:
  assumes s: "inv s" and t: "wf_itvs t" and u: "set_plus add_hint s t = Some u"
  shows "inv u \<and> els u = els s \<union> els t"
proof -
  have "\<forall>e\<in>set t. valid_ivl e" using wf_valid [OF t] by blast
  from set_fold_ok [of inv add_hint s t u, OF hint_ok s this u [unfolded set_plus_def]] show ?thesis .
qed

lemma plus_gap:
  assumes "inv s" "wf_itvs t" "els s \<inter> els t = {}"
  shows "\<exists>u. set_plus add_hint s t = Some u"
  unfolding set_plus_def by (rule set_fold_gap [of inv add_hint s t, OF hint_ok hint_gap assms])

lemma assign_ok:
  assumes "wf_itvs t"
  shows "\<exists>u. set_assign add_hint t = Some u \<and> inv u \<and> els u = els t"
proof -
  obtain u where "set_plus add_hint [] t = Some u" using plus_gap [OF inv_empty assms] by auto
  then show ?thesis using plus_ok [OF inv_empty assms] by (auto simp: set_plus_def set_assign_def)
qed

lemma foldl_sub:
  assumes "inv s" "\<forall>e\<in>set es. valid_ivl e"
  shows "inv (foldl sub s es) \<and> els (foldl sub s es) = els s - els es"
  using assms by (induction es arbitrary: s) (use sub_ok in auto)

lemma erase_ok:
  assumes "inv s" "wf_itvs t"
  shows "inv (set_erase sub s t)" "els (set_erase sub s t) = els s - els t"
proof -
  obtain a r b where p: "t = a @ r @ b" "case common_range exclusive_less t s of None \<Rightarrow> r = [] | Some r' \<Rightarrow> r' = r"
    "els (a @ b) \<inter> els s = {}" using common_parts [OF assms(2) inv_wf [OF assms(1)]] by blast
  have "set_erase sub s t = foldl sub s r"
    using p by (auto simp: set_erase_def split: option.splits)
  moreover have "\<forall>e\<in>set r. valid_ivl e" using wf_valid [OF assms(2)] p(1) by auto
  ultimately show "inv (set_erase sub s t)" "els (set_erase sub s t) = els s - els t"
    using foldl_sub [OF assms(1), of r] p(1,3) by auto
qed

text \<open>Symmetric difference with an interval: the parts passed are exchanged, the rest of the span is untouched.\<close>

lemma flip_loop_ok:
  assumes "inv s" "wf_itvs its" "valid_ivl span" "\<forall>j\<in>set its. first_ivl j \<le> last_ivl span \<and> first_ivl span \<le> last_ivl j"
    "els s \<inter> iset span = els its \<inter> iset span"
  shows "\<exists>u. set_flip_loop add sub s span its = Some u \<and> inv u \<and> els u = sym_diff (els s) (iset span)"
  using assms
proof (induction its arbitrary: s span)
  case Nil
  then have "els s \<inter> iset span = {}" by simp
  note d = this
  obtain u where "add s span = Some u" "inv u" "els u = els s \<union> iset span" by (rule add_gap_ok [OF Nil.prems(1,3) d])
  moreover have "els s \<union> iset span = sym_diff (els s) (iset span)" using d by auto
  ultimately show ?case by simp
next
  case (Cons c its)
  let ?o = "right_subtract span c" and ?s = "left_subtract span c" and ?c = "and_ivl span c"
  have c: "itv_ok c" "\<forall>j\<in>set its. last_ivl c < first_ivl j" "wf_itvs its" using Cons.prems(2) by auto
  have m: "first_ivl c \<le> last_ivl span" "first_ivl span \<le> last_ivl c" using Cons.prems(4) by auto
  show ?case
  proof (cases "is_empty_ivl span")
    case True
    then have e: "iset span = {}" using Cons.prems(3) by (simp add: iset_empty_iff)
    have u: "?o = span" "?s = span" "is_empty_ivl ?c" using True Cons.prems(3)
      by (simp_all add: right_subtract_def left_subtract_def exclusive_less_def and_ivl_def identity_interval_def is_empty_iff)
    have i: "valid_ivl ?c" "iset ?c = {}" using u(3) by (simp_all add: iset_empty_iff)
    have sb: "inv (sub s ?c)" "els (sub s ?c) = els s" using sub_ok [OF Cons.prems(1) i(1)] i(2) by auto
    have g: "els (sub s ?c) \<inter> iset span = {}" using e by simp
    obtain t where t: "add (sub s ?c) span = Some t" "inv t" "els t = els s" using add_gap_ok [OF sb(1) Cons.prems(3) g] sb e by auto
    have "\<exists>u. set_flip_loop add sub t span its = Some u \<and> inv u \<and> els u = sym_diff (els t) (iset span)"
      by (rule Cons.IH) (use t c Cons.prems e in auto)
    then show ?thesis using t u by simp
  next
    case False
    then have sp: "itv_ok span" using Cons.prems(3) by (simp add: itv_ok_def)
    note O = right_subtract_itv [OF sp c(1) m(1)] and S = left_subtract_itv [OF sp c(1) m(2)]
    have os: "iset ?o = {x \<in> iset span. x < first_ivl c}" "iset ?s = {x \<in> iset span. last_ivl c < x}" using O S m by (auto simp: iset_def)
    have i: "valid_ivl ?c" "iset ?c = iset span \<inter> iset c" using iset_and [of span c] Cons.prems(3) c(1) by (auto simp: itv_ok_def)
    have sb: "inv (sub s ?c)" "els (sub s ?c) = els s - iset ?c" using sub_ok [OF Cons.prems(1) i(1)] by auto
    have low: "x \<notin> els s" if "x \<in> iset span" "x < first_ivl c" for x
    proof
      assume "x \<in> els s"
      then have "x \<in> els (c # its)" using Cons.prems(5) that by auto
      then show False using that c by (fastforce simp: els_def in_iset itv_ok_ends)
    qed
    have g: "els (sub s ?c) \<inter> iset ?o = {}" using low sb os by auto
    obtain t where t: "add (sub s ?c) ?o = Some t" "inv t" "els t = (els s - iset ?c) \<union> iset ?o"
      using add_gap_ok [OF sb(1) O(1) g] sb by auto
    have cs: "iset c \<subseteq> els s \<union> - iset span" using Cons.prems(5) by auto
    have "\<exists>u. set_flip_loop add sub t ?s its = Some u \<and> inv u \<and> els u = sym_diff (els t) (iset ?s)"
    proof (rule Cons.IH)
      show "inv t" "wf_itvs its" "valid_ivl ?s" using t c S by auto
      show "\<forall>j\<in>set its. first_ivl j \<le> last_ivl ?s \<and> first_ivl ?s \<le> last_ivl j"
        using Cons.prems(4) c S wf_itvs_mem [OF c(3)] by (fastforce simp: itv_ok_ends)
      have "els t \<inter> iset ?s = els s \<inter> iset ?s" using t os i c(1) by (auto simp: in_iset itv_ok_ends)
      also have "\<dots> = els its \<inter> iset ?s"
      proof -
        have "iset c \<inter> iset ?s = {}" "iset ?s \<subseteq> iset span" by (auto simp: os in_iset)
        then show ?thesis using Cons.prems(5) by auto
      qed
      finally show "els t \<inter> iset ?s = els its \<inter> iset ?s" .
    qed
    moreover have "sym_diff (els t) (iset ?s) = sym_diff (els s) (iset span)"
    proof (rule set_eqI)
      fix x
      show "x \<in> sym_diff (els t) (iset ?s) \<longleftrightarrow> x \<in> sym_diff (els s) (iset span)"
        using low [of x] cs t(3) os i(2) c(1) by (auto simp: in_iset itv_ok_ends)
    qed
    ultimately show ?thesis using t by simp
  qed
qed

lemma flip_ok:
  assumes "inv s" "valid_ivl i"
  shows "\<exists>u. set_flip add sub s i = Some u \<and> inv u \<and> els u = sym_diff (els s) (iset i)"
proof -
  note w = inv_wf [OF assms(1)]
  have "wf_itvs (set_before i s @ set_range i s @ set_after i s)" using w set_parts [of s i] by metis
  then have "wf_itvs (set_range i s)" by auto
  moreover have "\<forall>j\<in>set (set_range i s). first_ivl j \<le> last_ivl i \<and> first_ivl i \<le> last_ivl j" using set_cut(3) [OF w] by auto
  moreover have "els s \<inter> iset i = els (set_range i s) \<inter> iset i"
    using range_els [OF w, of _ i] els_parts [of s i] by (fastforce simp: in_iset)
  ultimately show ?thesis unfolding set_flip_def using flip_loop_ok [OF assms(1) _ assms(2)] by blast
qed

lemma fold_flip_ok:
  assumes "inv s" "wf_itvs t"
  shows "\<exists>u. set_fold (set_flip add sub) s t = Some u \<and> inv u \<and> els u = sym_diff (els s) (els t)"
  using assms
proof (induction t arbitrary: s)
  case (Cons e t)
  obtain u where u: "set_flip add sub s e = Some u" "inv u" "els u = sym_diff (els s) (iset e)"
    using flip_ok [OF Cons.prems(1), of e] wf_valid [OF Cons.prems(2)] by auto
  obtain v where v: "set_fold (set_flip add sub) u t = Some v" "inv v" "els v = sym_diff (els u) (els t)"
    using Cons.IH [OF u(2)] Cons.prems(2) by auto
  have "els v = sym_diff (els s) (els (e # t))" using u(3) v(3) wf_head_disjoint [OF Cons.prems(2)] by auto
  then show ?case using u v by simp
qed simp

lemma flip_set_ok:
  assumes s: "inv s" and t: "wf_itvs t"
  shows "\<exists>u. set_flip_set add add_hint sub s t = Some u \<and> inv u \<and> els u = sym_diff (els s) (els t)"
proof (cases "common_range exclusive_less t s")
  case None
  then have "els s \<inter> els t = {}" using common_parts [OF t inv_wf [OF s]] by auto
  then show ?thesis using plus_gap [OF s t] plus_ok [OF s t] None s by (auto simp: set_flip_set_def)
next
  case (Some r)
  define below above where "below = takeWhile (\<lambda>j. exclusive_less j (hd s)) t" and "above = drop (length below + length r) t"
  note F = flip_parts [OF t inv_wf [OF s] Some, folded below_def, folded above_def]
  have "wf_itvs (below @ r @ above)" using t F(1) by metis
  then have w: "wf_itvs below" "wf_itvs r" "wf_itvs above" "wf_itvs (below @ above)" "wf_itvs (below @ r)" "wf_itvs (r @ above)" by auto
  have d: "els below \<inter> els r = {}" "els below \<inter> els above = {}" "els r \<inter> els above = {}" using w wf_parts_disjoint by blast+
  have et: "els t = els below \<union> els r \<union> els above" using F(1) els_simps(3) by (metis Un_assoc)
  have "els s \<inter> els below = {}" using F(2) by auto
  then obtain u where u: "set_fold add s below = Some u" "inv u" "els u = els s \<union> els below" by (rule fold_add_gap [OF s w(1)])
  obtain v where v: "set_fold (set_flip add sub) u r = Some v" "inv v" "els v = sym_diff (els u) (els r)"
    using fold_flip_ok [OF u(2) w(2)] by auto
  have "els v \<inter> els above = {}" using u v F(2) d by auto
  then obtain x where x: "set_fold add v above = Some x" "inv x" "els x = els v \<union> els above" by (rule fold_add_gap [OF v(2) w(3)])
  have "els x = sym_diff (els s) (els t)" unfolding x(3) v(3) u(3) et using F(2) d by blast
  moreover have "t \<noteq> []" using Some by (auto simp: common_range_def split: if_splits)
  ultimately show ?thesis using Some u v x by (simp add: set_flip_set_def Let_def below_def [symmetric] above_def [symmetric])
qed

text \<open>Intersection: the common parts are new to the section, so every insertion falls into a gap.\<close>

lemma intersection_loop_ok:
  assumes "inv sect" "wf_itvs its" "valid_ivl segment" "els sect \<inter> (els its \<inter> iset segment) = {}"
  shows "\<exists>u. set_intersection_loop add_hint segment its sect = Some u \<and> inv u \<and> els u = els sect \<union> (els its \<inter> iset segment)"
  using assms
proof (induction its arbitrary: sect)
  case (Cons c its)
  let ?c = "and_ivl c segment"
  have i: "valid_ivl ?c" "iset ?c = iset c \<inter> iset segment"
    using iset_and [of c segment] wf_valid [OF Cons.prems(2)] Cons.prems(3) by auto
  have w: "wf_itvs its" "iset c \<inter> els its = {}" using Cons.prems(2) wf_head_disjoint [OF Cons.prems(2)] by auto
  show ?case
  proof (cases "is_empty_ivl ?c")
    case True
    then have "iset c \<inter> iset segment = {}" using i iset_empty_iff [OF i(1)] by simp
    then show ?thesis using True Cons.IH [OF Cons.prems(1) w(1) Cons.prems(3)] Cons.prems(4) by (auto simp: Int_Un_distrib2)
  next
    case False
    have "els sect \<inter> iset ?c = {}" using Cons.prems(4) i by auto
    then obtain t where t: "add_hint sect ?c = Some t" "inv t" "els t = els sect \<union> iset ?c" by (rule hint_gap_ok [OF Cons.prems(1) i(1)])
    have "els t \<inter> (els its \<inter> iset segment) = {}" using t i w Cons.prems(4) by auto
    from Cons.IH [OF t(2) w(1) Cons.prems(3) this]
    obtain u where u: "set_intersection_loop add_hint segment its t = Some u" "inv u" "els u = els t \<union> (els its \<inter> iset segment)" by blast
    have "els u = els sect \<union> (els (c # its) \<inter> iset segment)" using u t i by auto
    then show ?thesis using False t u by (simp add: Let_def)
  qed
qed simp

lemma add_intersection_ok:
  assumes "inv sect" "wf_itvs obj" "valid_ivl i" "els sect \<inter> (els obj \<inter> iset i) = {}"
  shows "\<exists>u. set_add_intersection add_hint sect obj i = Some u \<and> inv u \<and> els u = els sect \<union> (els obj \<inter> iset i)"
proof (cases "is_empty_ivl i")
  case True
  then show ?thesis using assms by (auto simp: set_add_intersection_def iset_empty_iff [symmetric])
next
  case False
  note e = range_meets(2) [OF assms(2,3) False]
  have "wf_itvs (set_before i obj @ set_range i obj @ set_after i obj)" using assms(2) set_parts [of obj i] by metis
  then have w: "wf_itvs (set_range i obj)" by auto
  have "els sect \<inter> (els (set_range i obj) \<inter> iset i) = {}" using assms(4) e by simp
  from intersection_loop_ok [OF assms(1) w assms(3) this] show ?thesis
    using False e by (simp add: set_add_intersection_def)
qed

lemma fold_intersection_ok:
  assumes "inv sect" "wf_itvs t" "wf_itvs obj" "els sect \<inter> (els obj \<inter> els t) = {}"
  shows "\<exists>u. set_fold (\<lambda>sect elem. set_add_intersection add_hint sect obj elem) sect t = Some u \<and> inv u \<and>
    els u = els sect \<union> (els obj \<inter> els t)"
  using assms
proof (induction t arbitrary: sect)
  case (Cons e t)
  have e: "valid_ivl e" "iset e \<inter> els t = {}" using wf_valid [OF Cons.prems(2)] wf_head_disjoint [OF Cons.prems(2)] by auto
  have "els sect \<inter> (els obj \<inter> iset e) = {}" using Cons.prems(4) by auto
  from add_intersection_ok [OF Cons.prems(1,3) e(1) this]
  obtain v where v: "set_add_intersection add_hint sect obj e = Some v" "inv v" "els v = els sect \<union> (els obj \<inter> iset e)" by blast
  have "els v \<inter> (els obj \<inter> els t) = {}" using v e Cons.prems(4) by auto
  from Cons.IH [OF v(2) _ Cons.prems(3) this] Cons.prems(2)
  obtain u where u: "set_fold (\<lambda>sect elem. set_add_intersection add_hint sect obj elem) v t = Some u" "inv u"
    "els u = els v \<union> (els obj \<inter> els t)" by auto
  have "els u = els sect \<union> (els obj \<inter> els (e # t))" using u v by auto
  then show ?case using u v by simp
qed simp

lemma and_ok:
  assumes "wf_itvs s" "wf_itvs t"
  shows "\<exists>u. set_and add_hint s t = Some u \<and> inv u \<and> els u = els s \<inter> els t"
proof -
  obtain a r b where p: "t = a @ r @ b" "case common_range exclusive_less t s of None \<Rightarrow> r = [] | Some r' \<Rightarrow> r' = r"
    "els (a @ b) \<inter> els s = {}" using common_parts [OF assms(2,1)] by blast
  have "wf_itvs r" using assms(2) p(1) by auto
  from fold_intersection_ok [OF inv_empty this assms(1)]
  obtain u where u: "set_fold (\<lambda>sect elem. set_add_intersection add_hint sect s elem) [] r = Some u" "inv u" "els u = els s \<inter> els r" by auto
  have e: "els s \<inter> els t = els s \<inter> els r" using p(1,3) by auto
  show ?thesis
  proof (cases "t = [] \<or> common_range exclusive_less t s = None")
    case True
    then have "els s \<inter> els t = {}" using p e by auto
    then show ?thesis using True inv_empty by (auto simp: set_and_def set_add_intersection_set_def)
  next
    case False
    then show ?thesis using p(2) u e by (auto simp: set_and_def set_add_intersection_set_def)
  qed
qed

lemma elem_ok:
  assumes "inv s"
  shows "set_add_elem add s x = Some u \<Longrightarrow> inv u \<and> els u = insert x (els s)"
    "inv (set_subtract_elem sub s x) \<and> els (set_subtract_elem sub s x) = els s - {x}"
    "\<exists>u. set_flip_elem add sub s x = Some u \<and> inv u \<and> els u = sym_diff (els s) {x}"
proof -
  show a: "set_add_elem add s x = Some u \<Longrightarrow> inv u \<and> els u = insert x (els s)" for u
    using add_ok [OF assms singleton_ivl(1)] by (auto simp: set_add_elem_def singleton_ivl)
  show b: "inv (set_subtract_elem sub s x) \<and> els (set_subtract_elem sub s x) = els s - {x}"
    using sub_ok [OF assms singleton_ivl(1)] by (simp add: set_subtract_elem_def singleton_ivl)
  show "\<exists>u. set_flip_elem add sub s x = Some u \<and> inv u \<and> els u = sym_diff (els s) {x}"
  proof (cases "x \<in> els s")
    case True
    moreover have "sym_diff (els s) {x} = els s - {x}" using True by auto
    ultimately show ?thesis using b set_find_iff [OF inv_wf [OF assms], of x] by (simp add: set_flip_elem_def set_contains_elem_def)
  next
    case False
    then obtain u where u: "add s (singleton x) = Some u"
      using add_gap [OF assms singleton_ivl(1), of x] by (auto simp: singleton_ivl)
    have "sym_diff (els s) {x} = insert x (els s)" using False by auto
    then show ?thesis using a [of u] u False set_find_iff [OF inv_wf [OF assms], of x]
      by (simp add: set_flip_elem_def set_contains_elem_def set_add_elem_def)
  qed
qed

lemma domain_ok: "wf_itvs s \<Longrightarrow> \<exists>u. set_domain add_hint s = Some u \<and> inv u \<and> els u = els s"
  using assign_ok by (simp add: set_domain_def set_assign_def)

lemma between_loop_ok:
  assumes "inv g" "wf_itvs s" "s \<noteq> []" "\<forall>x\<in>els g. x < first_ivl (hd s)"
  shows "\<exists>u. between_loop add_hint g s = Some u \<and> inv u \<and>
    els u = els g \<union> ({first_ivl (hd s)..last_ivl (last s)} - els s)"
  using assms
proof (induction s arbitrary: g rule: induct_list012)
  case (3 p i its)
  note w = "3.prems"(2)
  have pi: "itv_ok p" "itv_ok i" "last_ivl p < first_ivl i" using w by auto
  note B = between_ivl_set [OF pi]
  have d: "els g \<inter> iset (between_ivl p i) = {}" using "3.prems"(4) B pi by (auto simp: itv_ok_ends)
  from hint_gap_ok [OF "3.prems"(1) B(1) d]
  obtain t where t: "add_hint g (between_ivl p i) = Some t" "inv t" "els t = els g \<union> iset (between_ivl p i)" by blast
  have "\<forall>x\<in>els t. x < first_ivl (hd (i # its))" using t(3) B "3.prems"(4) pi by (auto simp: itv_ok_ends)
  from "3.IH"(2) [OF t(2) _ _ this] w
  obtain u where u: "between_loop add_hint t (i # its) = Some u" "inv u"
    "els u = els t \<union> ({first_ivl i..last_ivl (last (i # its))} - els (i # its))" by auto
  have ge: "\<not> x < first_ivl i" if "x \<in> els its" for x
    using that w pi by (force simp: els_def in_iset itv_ok_ends)
  have "last_ivl i \<le> last_ivl (last (i # its))" by (rule wf_hd_last(2)) (use w in auto)
  then have "els u = els g \<union> ({first_ivl p..last_ivl (last (i # its))} - els (p # i # its))"
    using u(3) t(3) B(2) pi ge by (auto simp: in_iset itv_ok_ends)
  then show ?case using t u by simp
next
  case (2 x)
  then show ?case by (auto simp: iset_def)
qed simp

lemma between_ok:
  assumes "wf_itvs s" "s \<noteq> []"
  shows "\<exists>u. set_between add_hint s = Some u \<and> inv u \<and> els u = {first_ivl (hd s)..last_ivl (last s)} - els s"
  using between_loop_ok [OF inv_empty assms] by (simp add: set_between_def)

end

section \<open>The three classes keep the contract\<close>

definition set_inv :: "combining_style \<Rightarrow> itv_set \<Rightarrow> bool" where
  "set_inv style s \<longleftrightarrow> wf_itvs s \<and> (style = joining \<longrightarrow> joined s)"

lemma gap_range:
  assumes "wf_itvs s" "valid_ivl i" "els s \<inter> iset i = {}" "\<not> is_empty_ivl i"
  shows "set_range i s = []"
  using range_meets(1) [OF assms(1,2,4)] assms(3) by (simp add: set_intersects_def)

interpretation itv: interval_container "set_inv style" "set_add style" "set_add_hint style" set_subtract for style
proof unfold_locales
  show "set_inv style []" by (simp add: set_inv_def joined_def)
  show "set_inv style s \<Longrightarrow> wf_itvs s" for s by (simp add: set_inv_def)
  show "set_inv style s \<Longrightarrow> valid_ivl i \<Longrightarrow> set_add style s i = Some s' \<Longrightarrow> set_inv style s' \<and> els s' = els s \<union> iset i" for s i s'
    using set_add_ok [of s i style s'] by (auto simp: set_inv_def)
  show "set_inv style s \<Longrightarrow> valid_ivl i \<Longrightarrow> set_add_hint style s i = Some s' \<Longrightarrow> set_inv style s' \<and> els s' = els s \<union> iset i" for s i s'
    using set_add_hint_eq [of s i style s'] by (auto simp: set_inv_def)
  show "set_inv style s \<Longrightarrow> valid_ivl i \<Longrightarrow> els s \<inter> iset i = {} \<Longrightarrow> set_add style s i \<noteq> None" for s i
    using gap_range [of s i] by (auto simp: set_add_def set_inv_def)
  show "set_inv style s \<Longrightarrow> valid_ivl i \<Longrightarrow> els s \<inter> iset i = {} \<Longrightarrow> set_add_hint style s i \<noteq> None" for s i
    using gap_range [of s i] by (auto simp: set_add_hint_def set_inv_def)
  show "set_inv style s \<Longrightarrow> valid_ivl i \<Longrightarrow> set_inv style (set_subtract s i) \<and> els (set_subtract s i) = els s - iset i" for s i
    using set_subtract_ok [of s i] by (auto simp: set_inv_def)
qed

end
