(* ===== verification/IclSetCompare.thy ===== *)
theory IclSetCompare
  imports IclSetAlg "HOL-Library.While_Combinator"
begin

unbundle bit_operations_syntax

text \<open>
  The comparison of two interval sets (\<open>detail/interval_subset_comparer.hpp\<close>): a state machine that
  walks both sets at once and never looks at elements one by one. \<open>subset_compare\<close> decides inclusion both
  ways, for any two sets, joined or not.

  The iterators are the lists from them on, \<open>_left\<close> and \<open>_right\<close> the whole sets. The loop is a
  \<open>while_option\<close>; that it ends is part of the theorem.
\<close>

section \<open>The state machine\<close>

definition inclusion_unrelated :: int where "inclusion_unrelated = 0"
definition inclusion_subset :: int where "inclusion_subset = 1"
definition inclusion_superset :: int where "inclusion_superset = 2"
definition inclusion_equal :: int where "inclusion_equal = 3"

lemmas inclusion_defs = inclusion_unrelated_def inclusion_subset_def inclusion_superset_def inclusion_equal_def

datatype compare_state = nextboth | nextleft | nextright | stop

record subset_comparer =
  left_it :: itv_set
  right_it :: itv_set
  prior_left :: discrete_interval
  prior_right :: discrete_interval
  compare_result :: int

definition restrict_result :: "int \<Rightarrow> subset_comparer \<Rightarrow> subset_comparer" where
  "restrict_result st c = c\<lparr>compare_result := compare_result c AND st\<rparr>"

definition proceed :: "subset_comparer \<Rightarrow> compare_state \<times> subset_comparer" where
  "proceed c =
     (if upper_less (hd (left_it c)) (hd (right_it c))
      then (nextleft, c\<lparr>prior_left := hd (left_it c), left_it := tl (left_it c)\<rparr>)
      else if upper_less (hd (right_it c)) (hd (left_it c))
      then (nextright, c\<lparr>prior_right := hd (right_it c), right_it := tl (right_it c)\<rparr>)
      else (nextboth, c\<lparr>left_it := tl (left_it c), right_it := tl (right_it c)\<rparr>))"

text \<open>The three steps after a restriction: stop when the sets are unrelated.\<close>

definition unless_unrelated :: "subset_comparer \<Rightarrow> (subset_comparer \<Rightarrow> compare_state \<times> subset_comparer) \<Rightarrow> compare_state \<times> subset_comparer" where
  "unless_unrelated c k = (if compare_result c = inclusion_unrelated then (stop, c) else k c)"

definition next_both :: "itv_set \<Rightarrow> itv_set \<Rightarrow> subset_comparer \<Rightarrow> compare_state \<times> subset_comparer" where
  "next_both lft rgt c =
     (if left_it c = [] \<and> right_it c = [] then (stop, c)
      else if left_it c = [] then (stop, restrict_result inclusion_subset c)
      else if right_it c = [] then (stop, restrict_result inclusion_superset c)
      else if exclusive_less (hd (left_it c)) (hd (right_it c))
      then unless_unrelated (restrict_result inclusion_superset c) (\<lambda>c.
             let joint = set_from_lower (hd (right_it c)) lft
             in if joint = [] then (stop, c\<lparr>compare_result := inclusion_unrelated\<rparr>)
                else (nextboth, c\<lparr>left_it := joint\<rparr>))
      else if exclusive_less (hd (right_it c)) (hd (left_it c))
      then unless_unrelated (restrict_result inclusion_subset c) (\<lambda>c.
             let joint = set_from_lower (hd (left_it c)) rgt
             in if joint = [] then (stop, c\<lparr>compare_result := inclusion_unrelated\<rparr>)
                else (nextboth, c\<lparr>right_it := joint\<rparr>))
      else if lower_less (hd (left_it c)) (hd (right_it c))
      then unless_unrelated (restrict_result inclusion_superset c) proceed
      else if lower_less (hd (right_it c)) (hd (left_it c))
      then unless_unrelated (restrict_result inclusion_subset c) proceed
      else proceed c)"

definition next_left :: "subset_comparer \<Rightarrow> compare_state \<times> subset_comparer" where
  "next_left c =
     (if left_it c = [] then (stop, restrict_result inclusion_subset c)
      else if \<not> touches (prior_left c) (hd (left_it c)) \<and> lower_less (hd (right_it c)) (hd (left_it c))
      then unless_unrelated (restrict_result inclusion_subset c) proceed
      else proceed c)"

definition next_right :: "subset_comparer \<Rightarrow> compare_state \<times> subset_comparer" where
  "next_right c =
     (if right_it c = [] then (stop, restrict_result inclusion_superset c)
      else if \<not> touches (prior_right c) (hd (right_it c)) \<and> lower_less (hd (left_it c)) (hd (right_it c))
      then unless_unrelated (restrict_result inclusion_superset c) proceed
      else proceed c)"

definition compare_step :: "itv_set \<Rightarrow> itv_set \<Rightarrow> compare_state \<times> subset_comparer \<Rightarrow> compare_state \<times> subset_comparer" where
  "compare_step lft rgt z = (case fst z of nextboth \<Rightarrow> next_both lft rgt (snd z)
     | nextleft \<Rightarrow> next_left (snd z) | nextright \<Rightarrow> next_right (snd z) | stop \<Rightarrow> z)"

definition start_comparer :: "itv_set \<Rightarrow> itv_set \<Rightarrow> subset_comparer" where
  "start_comparer lft rgt = \<lparr>left_it = lft, right_it = rgt, prior_left = identity_interval, prior_right = identity_interval,
     compare_result = inclusion_equal\<rparr>"

definition subset_compare :: "itv_set \<Rightarrow> itv_set \<Rightarrow> int option" where
  "subset_compare lft rgt =
     map_option (\<lambda>z. compare_result (snd z))
       (while_option (\<lambda>z. fst z \<noteq> stop) (compare_step lft rgt) (nextboth, start_comparer lft rgt))"

definition set_within :: "itv_set \<Rightarrow> itv_set \<Rightarrow> bool option" where
  "set_within sb super = map_option (\<lambda>r. r = inclusion_subset \<or> r = inclusion_equal) (subset_compare sb super)"

definition set_contains_set :: "itv_set \<Rightarrow> itv_set \<Rightarrow> bool option" where
  "set_contains_set super sb = map_option (\<lambda>r. r = inclusion_superset \<or> r = inclusion_equal) (subset_compare super sb)"

definition is_element_equal :: "itv_set \<Rightarrow> itv_set \<Rightarrow> bool option" where
  "is_element_equal lft rgt = map_option (\<lambda>r. r = inclusion_equal) (subset_compare lft rgt)"

section \<open>Inclusion up to an element\<close>

definition inclusion_code :: "bool \<Rightarrow> bool \<Rightarrow> int" where
  "inclusion_code sb sp = of_bool sb + 2 * of_bool sp"

abbreviation sub_at :: "itv_set \<Rightarrow> itv_set \<Rightarrow> int \<Rightarrow> bool" where
  "sub_at L R u \<equiv> els L \<inter> {..u} \<subseteq> els R"

lemma restrict_code:
  assumes "compare_result c = inclusion_code s p"
  shows "compare_result (restrict_result inclusion_subset c) = inclusion_code s False"
    "compare_result (restrict_result inclusion_superset c) = inclusion_code False p"
  using assms by (cases s; cases p; simp add: restrict_result_def inclusion_defs inclusion_code_def)+

lemma code_unrelated: "inclusion_code s p = inclusion_unrelated \<longleftrightarrow> \<not> s \<and> \<not> p"
  by (cases s; cases p; simp add: inclusion_code_def inclusion_defs)

lemma restrict_its [simp]: "left_it (restrict_result st c) = left_it c" "right_it (restrict_result st c) = right_it c"
  "prior_left (restrict_result st c) = prior_left c" "prior_right (restrict_result st c) = prior_right c"
  by (simp_all add: restrict_result_def)

text \<open>A position: what lies before it ends by \<open>u\<close>.\<close>

definition passed :: "itv_set \<Rightarrow> itv_set \<Rightarrow> int \<Rightarrow> bool" where
  "passed L l u \<longleftrightarrow> (\<exists>T. L = T @ l \<and> (\<forall>j\<in>set T. last_ivl j \<le> u))"

definition ahead :: "itv_set \<Rightarrow> int \<Rightarrow> bool" where
  "ahead l u \<longleftrightarrow> (\<forall>j\<in>set l. u < first_ivl j)"

lemma passed_els: "passed L l u \<Longrightarrow> els L \<inter> {u<..} \<subseteq> els l" "passed L l u \<Longrightarrow> els l \<subseteq> els L"
  unfolding passed_def by (force simp: els_def in_iset)+

lemma passed_tl:
  assumes "wf_itvs L" "passed L (a # l) u"
  shows "passed L l (last_ivl a)" "ahead l (last_ivl a)" "itv_ok a"
proof -
  obtain T where T: "L = T @ a # l" using assms(2) by (auto simp: passed_def)
  have "wf_itvs (T @ a # l)" using assms(1) T by simp
  then have w: "itv_ok a" "\<forall>j\<in>set l. last_ivl a < first_ivl j" "\<forall>j\<in>set T. last_ivl j < first_ivl a" by auto
  then show "ahead l (last_ivl a)" "itv_ok a" by (auto simp: ahead_def)
  have "L = (T @ [a]) @ l" "\<forall>j\<in>set (T @ [a]). last_ivl j \<le> last_ivl a" using T w by (auto simp: itv_ok_ends)
  then show "passed L l (last_ivl a)" unfolding passed_def by blast
qed

lemma passed_mono: "passed L l u \<Longrightarrow> u \<le> v \<Longrightarrow> passed L l v"
  unfolding passed_def by (metis order_trans)

lemma head_member: "passed L (a # l) u \<Longrightarrow> x \<in> iset a \<Longrightarrow> x \<in> els L"
  using passed_els(2) [of L "a # l" u] by auto

lemma ahead_els: "ahead l u \<Longrightarrow> x \<in> els l \<Longrightarrow> u < x"
  by (force simp: ahead_def els_def in_iset)

text \<open>One step over two intervals that overlap.\<close>

lemma sub_at_meet:
  assumes w: "wf_itvs L" "wf_itvs R" and L: "passed L (a # l) u" "ahead (a # l) u" and R: "passed R (b # r) u" "ahead (b # r) u"
    and o: "first_ivl a \<le> last_ivl b" "first_ivl b \<le> last_ivl a"
  shows "sub_at L R (min (last_ivl a) (last_ivl b)) \<longleftrightarrow> sub_at L R u \<and> \<not> first_ivl a < first_ivl b"
proof -
  let ?v = "min (last_ivl a) (last_ivl b)"
  note A = passed_tl [OF w(1) L(1)] and B = passed_tl [OF w(2) R(1)]
  have u: "u < first_ivl a" "u < first_ivl b" using L(2) R(2) by (auto simp: ahead_def)
  have ab: "first_ivl a \<le> last_ivl a" "first_ivl b \<le> last_ivl b" using A B by (auto simp: itv_ok_ends)
  show ?thesis
  proof
    assume s: "sub_at L R ?v"
    have "first_ivl a \<notin> els R" if "first_ivl a < first_ivl b"
    proof
      assume "first_ivl a \<in> els R"
      then have "first_ivl a \<in> els (b # r)" using passed_els(1) [OF R(1)] u by auto
      then show False using that B(2) ab ahead_els [OF B(2)] by (fastforce simp: in_iset)
    qed
    moreover have "first_ivl a \<in> els L" using head_member [OF L(1), of "first_ivl a"] ab by (simp add: in_iset)
    ultimately show "sub_at L R u \<and> \<not> first_ivl a < first_ivl b" using s u ab o by auto
  next
    assume s: "sub_at L R u \<and> \<not> first_ivl a < first_ivl b"
    show "sub_at L R ?v"
    proof
      fix x
      assume x: "x \<in> els L \<inter> {..?v}"
      show "x \<in> els R"
      proof (cases "x \<le> u")
        case False
        then have "x \<in> els (a # l)" using x passed_els(1) [OF L(1)] by auto
        then have "x \<in> iset a" using x ahead_els [OF A(2)] by fastforce
        then have "x \<in> iset b" using x s by (auto simp: in_iset)
        then show ?thesis by (rule head_member [OF R(1)])
      qed (use x s in auto)
    qed
  qed
qed

text \<open>One step over the next interval on the left, below the end of the one on the right.\<close>

lemma sub_at_next:
  assumes w: "wf_itvs L" "wf_itvs R" and L: "passed L (a # l) u" "ahead (a # l) u" and R: "passed R (b # r) u" "u < last_ivl b"
    and o: "first_ivl b \<le> u + 1 \<or> \<not> sub_at L R u"
  shows "sub_at L R (min (last_ivl a) (last_ivl b)) \<longleftrightarrow> sub_at L R u"
    "sub_at R L (min (last_ivl a) (last_ivl b)) \<longleftrightarrow> sub_at R L u \<and> (u + 1 = first_ivl a \<or> \<not> first_ivl b < first_ivl a)"
proof -
  let ?v = "min (last_ivl a) (last_ivl b)"
  note A = passed_tl [OF w(1) L(1)] and B = passed_tl [OF w(2) R(1)]
  have u: "u < first_ivl a" using L(2) by (auto simp: ahead_def)
  have ab: "first_ivl a \<le> last_ivl a" "first_ivl b \<le> last_ivl b" using A B by (auto simp: itv_ok_ends)
  have uv: "u \<le> ?v" using u ab R(2) by simp
  have inL: "x \<in> iset a" if "x \<in> els L" "u < x" "x \<le> ?v" for x
    using passed_els(1) [OF L(1)] ahead_els [OF A(2), of x] that by auto
  have inR: "x \<in> iset b" if "x \<in> els R" "u < x" "x \<le> ?v" for x
    using passed_els(1) [OF R(1)] ahead_els [OF B(2), of x] that by auto
  show "sub_at L R ?v \<longleftrightarrow> sub_at L R u"
  proof
    assume s: "sub_at L R u"
    show "sub_at L R ?v"
    proof
      fix x
      assume x: "x \<in> els L \<inter> {..?v}"
      show "x \<in> els R"
      proof (cases "x \<le> u")
        case False
        then have "x \<in> iset b" using x o s by (auto simp: in_iset)
        then show ?thesis by (rule head_member [OF R(1)])
      qed (use x s in auto)
    qed
  qed (use uv in auto)
  show "sub_at R L ?v \<longleftrightarrow> sub_at R L u \<and> (u + 1 = first_ivl a \<or> \<not> first_ivl b < first_ivl a)"
  proof
    assume s: "sub_at R L ?v"
    have False if g: "u + 1 \<noteq> first_ivl a" "first_ivl b < first_ivl a"
    proof -
      let ?x = "max (first_ivl b) (u + 1)"
      have "?x \<in> iset b" using R(2) ab by (simp add: in_iset)
      then have "?x \<in> els R" by (rule head_member [OF R(1)])
      moreover have "u < ?x" "?x \<le> ?v" "?x < first_ivl a" using R(2) ab u g by auto
      ultimately have "?x \<in> iset a" using s inL [of ?x] by auto
      then show False using \<open>?x < first_ivl a\<close> by (simp add: in_iset)
    qed
    then show "sub_at R L u \<and> (u + 1 = first_ivl a \<or> \<not> first_ivl b < first_ivl a)" using s uv by auto
  next
    assume s: "sub_at R L u \<and> (u + 1 = first_ivl a \<or> \<not> first_ivl b < first_ivl a)"
    show "sub_at R L ?v"
    proof
      fix x
      assume x: "x \<in> els R \<inter> {..?v}"
      show "x \<in> els L"
      proof (cases "x \<le> u")
        case False
        then have "x \<in> iset b" using x inR by auto
        then have "x \<in> iset a" using x s False by (auto simp: in_iset)
        then show ?thesis by (rule head_member [OF L(1)])
      qed (use x s in auto)
    qed
  qed
qed

section \<open>The invariant of the loop\<close>

definition bits_at :: "itv_set \<Rightarrow> itv_set \<Rightarrow> int \<Rightarrow> subset_comparer \<Rightarrow> bool" where
  "bits_at L R u c \<longleftrightarrow> compare_result c = inclusion_code (sub_at L R u) (sub_at R L u)"

definition compare_inv :: "itv_set \<Rightarrow> itv_set \<Rightarrow> compare_state \<times> subset_comparer \<Rightarrow> bool" where
  "compare_inv L R z \<longleftrightarrow> (case z of (st, c) \<Rightarrow> (case st of
      nextboth \<Rightarrow> \<exists>u. passed L (left_it c) u \<and> ahead (left_it c) u \<and> passed R (right_it c) u \<and> ahead (right_it c) u \<and> bits_at L R u c
    | nextleft \<Rightarrow> \<exists>u b r. u = last_ivl (prior_left c) \<and> right_it c = b # r \<and> passed L (left_it c) u \<and> ahead (left_it c) u \<and>
        passed R (b # r) u \<and> u < last_ivl b \<and> (first_ivl b \<le> u + 1 \<or> \<not> sub_at L R u) \<and> bits_at L R u c
    | nextright \<Rightarrow> \<exists>u a l. u = last_ivl (prior_right c) \<and> left_it c = a # l \<and> passed R (right_it c) u \<and> ahead (right_it c) u \<and>
        passed L (a # l) u \<and> u < last_ivl a \<and> (first_ivl a \<le> u + 1 \<or> \<not> sub_at R L u) \<and> bits_at L R u c
    | stop \<Rightarrow> compare_result c = inclusion_code (els L \<subseteq> els R) (els R \<subseteq> els L)))"

definition remaining :: "compare_state \<times> subset_comparer \<Rightarrow> nat" where
  "remaining z = (case z of (st, c) \<Rightarrow> (if st = stop then 0 else Suc (length (left_it c) + length (right_it c))))"

lemma proceed_ok:
  assumes w: "wf_itvs L" "wf_itvs R" and c: "left_it c = a # l" "right_it c = b # r"
    and p: "passed L (a # l) u" "passed R (b # r) u" "u < last_ivl a" "u < last_ivl b"
    and o: "first_ivl b \<le> last_ivl a + 1 \<or> \<not> sub_at L R (min (last_ivl a) (last_ivl b))"
      "first_ivl a \<le> last_ivl b + 1 \<or> \<not> sub_at R L (min (last_ivl a) (last_ivl b))"
    and bits: "bits_at L R (min (last_ivl a) (last_ivl b)) c"
  shows "compare_inv L R (proceed c) \<and> remaining (proceed c) < Suc (length (left_it c) + length (right_it c))"
proof -
  note A = passed_tl [OF w(1) p(1)] and B = passed_tl [OF w(2) p(2)]
  consider "last_ivl a < last_ivl b" | "last_ivl b < last_ivl a" | "last_ivl a = last_ivl b" by linarith
  then show ?thesis
  proof cases
    case 1
    have z: "proceed c = (nextleft, c\<lparr>prior_left := a, left_it := l\<rparr>)" using 1 c by (simp add: proceed_def upper_less_def)
    have "passed R (b # r) (last_ivl a)" using passed_mono [OF p(2)] p(3) by simp
    then show ?thesis unfolding z using A 1 o(1) bits c
      by (auto simp: compare_inv_def remaining_def bits_at_def)
  next
    case 2
    have z: "proceed c = (nextright, c\<lparr>prior_right := b, right_it := r\<rparr>)" using 2 c by (simp add: proceed_def upper_less_def)
    have "passed L (a # l) (last_ivl b)" using passed_mono [OF p(1)] p(4) by simp
    then show ?thesis unfolding z using B 2 o(2) bits c
      by (auto simp: compare_inv_def remaining_def bits_at_def)
  next
    case 3
    have z: "proceed c = (nextboth, c\<lparr>left_it := l, right_it := r\<rparr>)" using 3 c by (simp add: proceed_def upper_less_def)
    show ?thesis unfolding z using A B 3 bits c
      by (auto simp: compare_inv_def remaining_def bits_at_def intro!: exI [of _ "last_ivl b"])
  qed
qed

lemma passed_end: "passed L [] u \<Longrightarrow> x \<in> els L \<Longrightarrow> x \<le> u"
  using passed_els(1) [of L "[]" u] by (metis IntI els_simps(1) empty_iff greaterThan_iff not_le subsetD)

lemma sub_at_all: "passed L [] u \<Longrightarrow> sub_at L R u \<longleftrightarrow> els L \<subseteq> els R"
  using passed_end [of L u] by auto

lemma not_included:
  assumes "wf_itvs R" "passed R (b # r) u" "u < last_ivl b" "\<And>x. x \<in> els L \<Longrightarrow> x < last_ivl b"
  shows "\<not> els R \<subseteq> els L"
proof -
  have "itv_ok b" using passed_tl(3) [OF assms(1,2)] .
  then have "last_ivl b \<in> iset b" by (simp add: in_iset itv_ok_ends)
  then have "last_ivl b \<in> els R" by (rule head_member [OF assms(2)])
  then show ?thesis using assms(4) [of "last_ivl b"] by auto
qed

lemma restricted_ok:
  assumes "bits_at L R v c" "compare_inv L R (k c) \<and> remaining (k c) < Suc n"
  shows "compare_inv L R (unless_unrelated c k) \<and> remaining (unless_unrelated c k) < Suc n"
proof (cases "compare_result c = inclusion_unrelated")
  case True
  then have "inclusion_code (sub_at L R v) (sub_at R L v) = inclusion_unrelated" using assms(1) by (simp add: bits_at_def)
  then have "\<not> els L \<subseteq> els R" "\<not> els R \<subseteq> els L" unfolding code_unrelated by auto
  then show ?thesis using True by (simp add: unless_unrelated_def compare_inv_def remaining_def inclusion_code_def inclusion_defs)
qed (use assms(2) in \<open>simp add: unless_unrelated_def\<close>)

lemma next_left_ok:
  assumes w: "wf_itvs L" "wf_itvs R" and i: "compare_inv L R (nextleft, c)"
  shows "compare_inv L R (next_left c) \<and> remaining (next_left c) < Suc (length (left_it c) + length (right_it c))"
proof -
  obtain u b r where u: "u = last_ivl (prior_left c)" "right_it c = b # r" "passed L (left_it c) u" "ahead (left_it c) u"
    "passed R (b # r) u" "u < last_ivl b" "first_ivl b \<le> u + 1 \<or> \<not> sub_at L R u" "bits_at L R u c"
    using i by (auto simp: compare_inv_def)
  show ?thesis
  proof (cases "left_it c")
    case Nil
    have "\<not> els R \<subseteq> els L"
      by (rule not_included [OF w(2) u(5,6)]) (use passed_end [of L u] u(3,6) Nil in force)
    then show ?thesis using restrict_code(1) [OF u(8) [unfolded bits_at_def]] sub_at_all [of L u R] u(3) Nil
      by (simp add: next_left_def compare_inv_def remaining_def)
  next
    case (Cons a l)
    note p = u(3,4) [unfolded Cons]
    let ?v = "min (last_ivl a) (last_ivl b)" and ?c = "restrict_result inclusion_subset c"
    note S = sub_at_next [OF w p u(5-7)]
    have "itv_ok a" "itv_ok b" using passed_tl(3) w p u(5) by blast+
    then have ends: "u < first_ivl a" "first_ivl a \<le> last_ivl a" "first_ivl b \<le> last_ivl b" using p(2) by (auto simp: ahead_def itv_ok_ends)
    have o: "first_ivl b \<le> last_ivl a + 1 \<or> \<not> sub_at L R ?v" "first_ivl a \<le> last_ivl b + 1 \<or> \<not> sub_at R L ?v"
      using S u(6,7) ends by auto
    have t: "touches (prior_left c) a \<longleftrightarrow> u + 1 = first_ivl a" by (simp add: touches_def domain_next_def u(1))
    have P: "bits_at L R ?v d \<Longrightarrow> left_it d = left_it c \<Longrightarrow> right_it d = right_it c \<Longrightarrow>
      compare_inv L R (proceed d) \<and> remaining (proceed d) < Suc (length (left_it c) + length (right_it c))" for d
      using proceed_ok [OF w, of d a l b r u] Cons u(2) p(1) u(5,6) ends o by simp
    show ?thesis
    proof (cases "\<not> touches (prior_left c) a \<and> lower_less b a")
      case True
      have b: "bits_at L R ?v ?c"
        using restrict_code(1) [OF u(8) [unfolded bits_at_def]] S True by (simp add: bits_at_def t lower_less_def)
      show ?thesis using restricted_ok [where k = proceed, OF b P [OF b]] True Cons u(2) by (simp add: next_left_def)
    next
      case False
      have "bits_at L R ?v c" using u(8) S False by (auto simp: bits_at_def t lower_less_def)
      then show ?thesis using P [of c] False Cons u(2) by (auto simp: next_left_def)
    qed
  qed
qed

lemma next_right_ok:
  assumes w: "wf_itvs L" "wf_itvs R" and i: "compare_inv L R (nextright, c)"
  shows "compare_inv L R (next_right c) \<and> remaining (next_right c) < Suc (length (left_it c) + length (right_it c))"
proof -
  obtain u a l where u: "u = last_ivl (prior_right c)" "left_it c = a # l" "passed R (right_it c) u" "ahead (right_it c) u"
    "passed L (a # l) u" "u < last_ivl a" "first_ivl a \<le> u + 1 \<or> \<not> sub_at R L u" "bits_at L R u c"
    using i by (auto simp: compare_inv_def)
  show ?thesis
  proof (cases "right_it c")
    case Nil
    have "\<not> els L \<subseteq> els R"
      by (rule not_included [OF w(1) u(5,6)]) (use passed_end [of R u] u(3,6) Nil in force)
    then show ?thesis using restrict_code(2) [OF u(8) [unfolded bits_at_def]] sub_at_all [of R u L] u(3) Nil
      by (simp add: next_right_def compare_inv_def remaining_def)
  next
    case (Cons b r)
    note p = u(3,4) [unfolded Cons]
    let ?v = "min (last_ivl a) (last_ivl b)" and ?c = "restrict_result inclusion_superset c"
    note S = sub_at_next [OF w(2,1) p u(5-7), unfolded min.commute [of "last_ivl b"]]
    have "itv_ok a" "itv_ok b" using passed_tl(3) w p u(5) by blast+
    then have ends: "u < first_ivl b" "first_ivl a \<le> last_ivl a" "first_ivl b \<le> last_ivl b" using p(2) by (auto simp: ahead_def itv_ok_ends)
    have o: "first_ivl b \<le> last_ivl a + 1 \<or> \<not> sub_at L R ?v" "first_ivl a \<le> last_ivl b + 1 \<or> \<not> sub_at R L ?v"
      using S u(6,7) ends by auto
    have t: "touches (prior_right c) b \<longleftrightarrow> u + 1 = first_ivl b" by (simp add: touches_def domain_next_def u(1))
    have P: "bits_at L R ?v d \<Longrightarrow> left_it d = left_it c \<Longrightarrow> right_it d = right_it c \<Longrightarrow>
      compare_inv L R (proceed d) \<and> remaining (proceed d) < Suc (length (left_it c) + length (right_it c))" for d
      using proceed_ok [OF w, of d a l b r u] Cons u(2) p(1) u(5,6) ends o by simp
    show ?thesis
    proof (cases "\<not> touches (prior_right c) b \<and> lower_less a b")
      case True
      have b: "bits_at L R ?v ?c"
        using restrict_code(2) [OF u(8) [unfolded bits_at_def]] S True by (simp add: bits_at_def t lower_less_def)
      show ?thesis using restricted_ok [where k = proceed, OF b P [OF b]] True Cons u(2) by (simp add: next_right_def)
    next
      case False
      have "bits_at L R ?v c" using u(8) S False by (auto simp: bits_at_def t lower_less_def)
      then show ?thesis using P [of c] False Cons u(2) by (auto simp: next_right_def)
    qed
  qed
qed

text \<open>Skipping the intervals on the left that lie before the one on the right.\<close>

lemma jump_ok:
  assumes w: "wf_itvs L" "wf_itvs R" and L: "passed L (a # l) u" "ahead (a # l) u" and R: "passed R (b # r) u" "ahead (b # r) u"
    and lt: "last_ivl a < first_ivl b"
  defines "joint \<equiv> set_from_lower b L"
  shows "joint = [] \<Longrightarrow> \<not> els L \<subseteq> els R \<and> \<not> els R \<subseteq> els L"
    "\<exists>v. passed L joint v \<and> ahead joint v \<and> passed R (b # r) v \<and> ahead (b # r) v \<and> \<not> sub_at L R v \<and> (sub_at R L v \<longleftrightarrow> sub_at R L u)"
    "length joint \<le> length l"
proof -
  obtain T where T: "L = T @ a # l" "\<forall>j\<in>set T. last_ivl j \<le> u" using L(1) by (auto simp: passed_def)
  let ?P = "\<lambda>j. non_empty_exclusive_less j b"
  note A = passed_tl [OF w(1) L(1)] and B = passed_tl [OF w(2) R(1)]
  have u: "u < first_ivl a" "first_ivl a \<le> last_ivl a" "first_ivl b \<le> last_ivl b" using L(2) A(3) B(3) by (auto simp: ahead_def itv_ok_ends)
  have Pt: "\<forall>j\<in>set (T @ [a]). ?P j" using T(2) u lt by (auto simp: non_empty_exclusive_less_def)
  have j: "joint = dropWhile ?P l" and k: "takeWhile ?P L = T @ a # takeWhile ?P l"
    using Pt by (simp_all add: joint_def set_from_lower_def T(1) dropWhile_append2 takeWhile_append2)
  then show "length joint \<le> length l" by (simp add: length_dropWhile_le)
  define K where "K = takeWhile ?P L"
  have KL: "L = K @ joint" by (simp add: K_def joint_def set_from_lower_def)
  have wK: "wf_itvs (K @ joint)" using w(1) KL by simp
  define v where "v = last_ivl (last K)"
  have Kne: "K \<noteq> []" "a \<in> set K" by (simp_all add: K_def k)
  have Kv: "\<forall>j\<in>set K. last_ivl j \<le> v" using wf_hd_last(2) [of K] wK by (auto simp: v_def)
  have vb: "v < first_ivl b" using Kne(1) set_takeWhileD [of "last K" ?P L] by (auto simp: v_def K_def non_empty_exclusive_less_def)
  have uv: "u \<le> v" using Kv Kne(2) u by fastforce
  have vj: "ahead joint v" using wK Kne(1) by (auto simp: ahead_def v_def)
  have aL: "last_ivl a \<in> els L" using head_member [OF L(1), of "last_ivl a"] u by (simp add: in_iset)
  have aR: "last_ivl a \<notin> els R"
  proof
    assume "last_ivl a \<in> els R"
    then have "last_ivl a \<in> els (b # r)" using passed_els(1) [OF R(1)] u by auto
    then show False using ahead_els [OF B(2), of "last_ivl a"] lt u(3) by (auto simp: in_iset)
  qed
  have Rb: "first_ivl b \<le> x" if "x \<in> els R" "u < x" for x
  proof -
    have "x \<in> els (b # r)" using passed_els(1) [OF R(1)] that by auto
    then show ?thesis using ahead_els [OF B(2), of x] u(3) by (auto simp: in_iset)
  qed
  have "passed L joint v" using KL Kv by (auto simp: passed_def)
  moreover have "passed R (b # r) v" using passed_mono [OF R(1) uv] .
  moreover have "ahead (b # r) v" using B(2) vb u(3) by (auto simp: ahead_def)
  moreover have "\<not> sub_at L R v" using aL aR Kv Kne(2) by auto
  moreover have "x \<le> u" if "x \<in> els R" "x \<le> v" for x using Rb [OF that(1)] that(2) vb by force
  then have "els R \<inter> {..v} = els R \<inter> {..u}" using uv by force
  then have "sub_at R L v \<longleftrightarrow> sub_at R L u" by simp
  ultimately show "\<exists>v. passed L joint v \<and> ahead joint v \<and> passed R (b # r) v \<and> ahead (b # r) v \<and> \<not> sub_at L R v \<and> (sub_at R L v \<longleftrightarrow> sub_at R L u)"
    using vj by blast
  assume "joint = []"
  then have "x \<le> v" if "x \<in> els L" for x using that KL Kv by (force simp: els_def in_iset)
  then have "first_ivl b \<notin> els L" using vb by fastforce
  moreover have "first_ivl b \<in> els R" using head_member [OF R(1), of "first_ivl b"] u(3) by (simp add: in_iset)
  ultimately show "\<not> els L \<subseteq> els R \<and> \<not> els R \<subseteq> els L" using aL aR by blast
qed

lemma next_both_ok:
  assumes w: "wf_itvs L" "wf_itvs R" and i: "compare_inv L R (nextboth, c)"
  shows "compare_inv L R (next_both L R c) \<and> remaining (next_both L R c) < Suc (length (left_it c) + length (right_it c))"
proof -
  obtain u where u: "passed L (left_it c) u" "ahead (left_it c) u" "passed R (right_it c) u" "ahead (right_it c) u" "bits_at L R u c"
    using i by (auto simp: compare_inv_def)
  note C = restrict_code [OF u(5) [unfolded bits_at_def]]
  have none: "\<not> els X \<subseteq> els Y" if "passed Y [] u" "passed X (e # es) u" "ahead (e # es) u" "wf_itvs X" for X Y e es
  proof -
    have "first_ivl e \<in> iset e" using passed_tl(3) [OF that(4,2)] by (simp add: in_iset itv_ok_ends)
    then have "first_ivl e \<in> els X" by (rule head_member [OF that(2)])
    moreover have "first_ivl e \<notin> els Y" using passed_end [OF that(1)] that(3) by (force simp: ahead_def)
    ultimately show ?thesis by blast
  qed
  show ?thesis
  proof (cases "left_it c")
    case Nil
    then have l: "sub_at L R u \<longleftrightarrow> els L \<subseteq> els R" using passed_end [of L u] u(1) by auto
    show ?thesis
    proof (cases "right_it c")
      case Nil
      then have "sub_at R L u \<longleftrightarrow> els R \<subseteq> els L" using passed_end [of R u] u(3) by auto
      then show ?thesis using l u(5) Nil \<open>left_it c = []\<close> by (simp add: next_both_def compare_inv_def remaining_def bits_at_def)
    next
      case (Cons b r)
      then have "\<not> els R \<subseteq> els L" using none [of L R b r] u \<open>left_it c = []\<close> w by simp
      then show ?thesis using l C(1) Cons \<open>left_it c = []\<close> by (simp add: next_both_def compare_inv_def remaining_def)
    qed
  next
    case a: (Cons a l)
    note L = u(1,2) [unfolded a]
    show ?thesis
    proof (cases "right_it c")
      case Nil
      then have r: "sub_at R L u \<longleftrightarrow> els R \<subseteq> els L" using passed_end [of R u] u(3) by auto
      have "\<not> els L \<subseteq> els R" using none [of R L a l] u Nil a w by simp
      then show ?thesis using r C(2) Nil a by (simp add: next_both_def compare_inv_def remaining_def)
    next
      case b: (Cons b r)
      note R = u(3,4) [unfolded b]
      have ab: "itv_ok a" "itv_ok b" using passed_tl(3) w L(1) R(1) by blast+
      have x: "exclusive_less a b \<longleftrightarrow> last_ivl a < first_ivl b" "exclusive_less b a \<longleftrightarrow> last_ivl b < first_ivl a"
        using ab by (auto simp: exclusive_less_def itv_ok_def)
      consider "last_ivl a < first_ivl b" | "\<not> last_ivl a < first_ivl b" "last_ivl b < first_ivl a"
        | "first_ivl b \<le> last_ivl a" "first_ivl a \<le> last_ivl b" by linarith
      then show ?thesis
      proof cases
        case 1
        note J = jump_ok [OF w L R 1]
        let ?c = "restrict_result inclusion_superset c"
        obtain v where v: "passed L (set_from_lower b L) v" "ahead (set_from_lower b L) v" "passed R (b # r) v" "ahead (b # r) v"
          "\<not> sub_at L R v" "sub_at R L v \<longleftrightarrow> sub_at R L u" using J(2) by blast
        have bits: "bits_at L R v ?c" using C(2) v by (simp add: bits_at_def)
        have n: "next_both L R c = unless_unrelated ?c (\<lambda>c. let joint = set_from_lower (hd (right_it c)) L
             in if joint = [] then (stop, c\<lparr>compare_result := inclusion_unrelated\<rparr>) else (nextboth, c\<lparr>left_it := joint\<rparr>))"
          using 1 a b x by (simp add: next_both_def)
        show ?thesis unfolding n
        proof (rule restricted_ok [OF bits])
          show "compare_inv L R (let joint = set_from_lower (hd (right_it ?c)) L
             in if joint = [] then (stop, ?c\<lparr>compare_result := inclusion_unrelated\<rparr>) else (nextboth, ?c\<lparr>left_it := joint\<rparr>)) \<and>
            remaining (let joint = set_from_lower (hd (right_it ?c)) L
             in if joint = [] then (stop, ?c\<lparr>compare_result := inclusion_unrelated\<rparr>) else (nextboth, ?c\<lparr>left_it := joint\<rparr>))
              < Suc (length (left_it c) + length (right_it c))"
          proof (cases "set_from_lower b L = []")
            case True
            then show ?thesis using J(1) b by (simp add: compare_inv_def remaining_def inclusion_code_def inclusion_defs)
          next
            case False
            have "compare_inv L R (nextboth, ?c\<lparr>left_it := set_from_lower b L\<rparr>)"
              unfolding compare_inv_def prod.case compare_state.case
              by (rule exI [of _ v]) (use v bits b in \<open>simp add: bits_at_def\<close>)
            then show ?thesis using False J(3) a b by (simp add: remaining_def Let_def)
          qed
        qed
      next
        case 2
        note J = jump_ok [OF w(2,1) R L 2(2)]
        let ?c = "restrict_result inclusion_subset c"
        obtain v where v: "passed R (set_from_lower a R) v" "ahead (set_from_lower a R) v" "passed L (a # l) v" "ahead (a # l) v"
          "\<not> sub_at R L v" "sub_at L R v \<longleftrightarrow> sub_at L R u" using J(2) by blast
        have bits: "bits_at L R v ?c" using C(1) v by (simp add: bits_at_def)
        have n: "next_both L R c = unless_unrelated ?c (\<lambda>c. let joint = set_from_lower (hd (left_it c)) R
             in if joint = [] then (stop, c\<lparr>compare_result := inclusion_unrelated\<rparr>) else (nextboth, c\<lparr>right_it := joint\<rparr>))"
          using 2 a b x by (simp add: next_both_def)
        show ?thesis unfolding n
        proof (rule restricted_ok [OF bits])
          show "compare_inv L R (let joint = set_from_lower (hd (left_it ?c)) R
             in if joint = [] then (stop, ?c\<lparr>compare_result := inclusion_unrelated\<rparr>) else (nextboth, ?c\<lparr>right_it := joint\<rparr>)) \<and>
            remaining (let joint = set_from_lower (hd (left_it ?c)) R
             in if joint = [] then (stop, ?c\<lparr>compare_result := inclusion_unrelated\<rparr>) else (nextboth, ?c\<lparr>right_it := joint\<rparr>))
              < Suc (length (left_it c) + length (right_it c))"
          proof (cases "set_from_lower a R = []")
            case True
            then show ?thesis using J(1) a by (simp add: compare_inv_def remaining_def inclusion_code_def inclusion_defs)
          next
            case False
            have "compare_inv L R (nextboth, ?c\<lparr>right_it := set_from_lower a R\<rparr>)"
              unfolding compare_inv_def prod.case compare_state.case
              by (rule exI [of _ v]) (use v bits a in \<open>simp add: bits_at_def\<close>)
            then show ?thesis using False J(3) a b by (simp add: remaining_def Let_def)
          qed
        qed
      next
        case 3
        let ?v = "min (last_ivl a) (last_ivl b)"
        note S1 = sub_at_meet [OF w L R 3(2,1)] and S2 = sub_at_meet [OF w(2,1) R L 3, unfolded min.commute [of "last_ivl b"]]
        have ends: "u < last_ivl a" "u < last_ivl b" using L(2) R(2) ab by (auto simp: ahead_def itv_ok_ends)
        have P: "bits_at L R ?v d \<Longrightarrow> left_it d = left_it c \<Longrightarrow> right_it d = right_it c \<Longrightarrow>
          compare_inv L R (proceed d) \<and> remaining (proceed d) < Suc (length (left_it c) + length (right_it c))" for d
          using proceed_ok [OF w, of d a l b r u] a b L(1) R(1) ends 3 by simp
        have n: "next_both L R c = (if lower_less a b then unless_unrelated (restrict_result inclusion_superset c) proceed
          else if lower_less b a then unless_unrelated (restrict_result inclusion_subset c) proceed else proceed c)"
          using 3 a b x by (simp add: next_both_def)
        consider "first_ivl a < first_ivl b" | "first_ivl b < first_ivl a" | "first_ivl a = first_ivl b" by linarith
        then show ?thesis
        proof cases
          case 1
          then have bb: "bits_at L R ?v (restrict_result inclusion_superset c)" using C(2) S1 S2 by (simp add: bits_at_def)
          show ?thesis using restricted_ok [where k = proceed, OF bb P [OF bb]] 1 by (simp add: n lower_less_def)
        next
          case 2
          then have bb: "bits_at L R ?v (restrict_result inclusion_subset c)" using C(1) S1 S2 by (simp add: bits_at_def)
          show ?thesis using restricted_ok [where k = proceed, OF bb P [OF bb]] 2 by (simp add: n lower_less_def)
        next
          case 3
          then have "bits_at L R ?v c" using u(5) S1 S2 by (simp add: bits_at_def)
          then show ?thesis using P [of c] 3 by (simp add: n lower_less_def)
        qed
      qed
    qed
  qed
qed

section \<open>The comparison decides inclusion\<close>

lemma compare_step_ok:
  assumes "wf_itvs L" "wf_itvs R" "compare_inv L R z" "fst z \<noteq> stop"
  shows "compare_inv L R (compare_step L R z) \<and> remaining (compare_step L R z) < remaining z"
proof (cases z)
  case (Pair st c)
  then show ?thesis using assms next_both_ok [of L R c] next_left_ok [of L R c] next_right_ok [of L R c]
    by (cases st) (simp_all add: compare_step_def remaining_def)
qed

lemma subset_compare_exact:
  assumes w: "wf_itvs L" "wf_itvs R"
  shows "subset_compare L R = Some (inclusion_code (els L \<subseteq> els R) (els R \<subseteq> els L))"
proof -
  let ?z = "(nextboth, start_comparer L R)"
  obtain u where u: "\<forall>j\<in>set L. u < first_ivl j" "\<forall>j\<in>set R. u < first_ivl j"
  proof
    let ?u = "Min (insert 0 (first_ivl ` set L \<union> first_ivl ` set R)) - 1"
    have "?u < x" if "x \<in> first_ivl ` set L \<union> first_ivl ` set R" for x
    proof -
      have "Min (insert 0 (first_ivl ` set L \<union> first_ivl ` set R)) \<le> x" by (rule Min_le) (use that in auto)
      then show ?thesis by linarith
    qed
    then show "\<forall>j\<in>set L. ?u < first_ivl j" "\<forall>j\<in>set R. ?u < first_ivl j" by blast+
  qed
  then have "els L \<inter> {..u} = {}" "els R \<inter> {..u} = {}" by (force simp: els_def in_iset)+
  then have i: "compare_inv L R ?z"
    using u by (auto simp: compare_inv_def start_comparer_def passed_def ahead_def bits_at_def inclusion_code_def inclusion_defs intro!: exI [of _ u])
  obtain t where t: "while_option (\<lambda>z. fst z \<noteq> stop) (compare_step L R) ?z = Some t"
    using measure_while_option_Some [of "compare_inv L R" "\<lambda>z. fst z \<noteq> stop" "compare_step L R" remaining ?z] compare_step_ok [OF w] i by blast
  have "compare_inv L R t"
    by (rule while_option_rule [where P = "compare_inv L R", OF _ t i]) (use compare_step_ok [OF w] in blast)
  moreover have "fst t = stop" using while_option_stop [OF t] by simp
  ultimately show ?thesis using t by (cases t) (simp add: subset_compare_def compare_inv_def)
qed

lemma set_inclusion:
  assumes "wf_itvs L" "wf_itvs R"
  shows "set_within L R = Some (els L \<subseteq> els R)" "set_contains_set L R = Some (els R \<subseteq> els L)"
    "is_element_equal L R = Some (els L = els R)"
  by (auto simp: set_within_def set_contains_set_def is_element_equal_def subset_compare_exact [OF assms] inclusion_code_def inclusion_defs)

end
