(* ===== verification/IclSetProps.thy ===== *)
theory IclSetProps
  imports IclSetCompare
begin

text \<open>The properties of the interval sets, with their witnesses.\<close>

section \<open>The operations are those of sets\<close>

text \<open>C32: For each of the three classes of interval sets, addition (with and without a hint) and subtraction of
  an interval, and the operators on two sets (union, difference, intersection, symmetric difference) compute the
  set operation on the elements and keep the invariant of the class: valid non-empty intervals, disjoint, in
  order, and never touching in \<open>interval_set\<close>. Only an addition to a \<open>split_interval_set\<close> that meets its elements
  can fault.\<close>

theorem set_algebra:
  assumes "set_inv style s" "set_inv style' t" "valid_ivl i"
  shows "(\<forall>u. set_add style s i = Some u \<or> set_add_hint style s i = Some u \<longrightarrow> set_inv style u \<and> els u = els s \<union> iset i) \<and>
    (style \<noteq> splitting \<or> els s \<inter> iset i = {} \<longrightarrow> set_add style s i \<noteq> None) \<and>
    set_inv style (set_subtract s i) \<and> els (set_subtract s i) = els s - iset i \<and>
    (\<exists>u. set_flip (set_add style) set_subtract s i = Some u \<and> set_inv style u \<and> els u = sym_diff (els s) (iset i)) \<and>
    (\<forall>u. set_plus (set_add_hint style) s t = Some u \<longrightarrow> set_inv style u \<and> els u = els s \<union> els t) \<and>
    set_inv style (set_erase set_subtract s t) \<and> els (set_erase set_subtract s t) = els s - els t \<and>
    (\<exists>u. set_and (set_add_hint style) s t = Some u \<and> set_inv style u \<and> els u = els s \<inter> els t) \<and>
    (\<exists>u. set_flip_set (set_add style) (set_add_hint style) set_subtract s t = Some u \<and> set_inv style u \<and>
      els u = sym_diff (els s) (els t))"
proof -
  have t: "wf_itvs t" using assms(2) by (simp add: set_inv_def)
  note w = itv.inv_wf [OF assms(1)]
  have total: "set_add style s i \<noteq> None" if "style \<noteq> splitting \<or> els s \<inter> iset i = {}"
    using itv.add_gap [OF assms(1,3)] set_add_None [OF w assms(3), of style] that by auto
  show ?thesis
    using itv.add_ok [OF assms(1,3)] itv.hint_ok [OF assms(1,3)] total itv.sub_ok [OF assms(1,3)] itv.flip_ok [OF assms(1,3)]
      itv.plus_ok [OF assms(1) t] itv.erase_ok [OF assms(1) t] itv.and_ok [OF w t] itv.flip_set_ok [OF assms(1) t]
    by (intro conjI) (assumption | blast)+
qed

lemmas set_eval = set_inv_def wf_itvs_def itv_ok_def itv_lt_def joined_def ivl_defs bounds_defs valid_ivl_def
  valid_bounds_def touches_def right_open_def construct_def

lemma set_algebra_witness:
  "set_add joining [right_open 0 3, right_open 7 9] (right_open 3 5) = Some [right_open 0 5, right_open 7 9] \<and>
   els [right_open 0 5, right_open 7 9] = els [right_open 0 3, right_open 7 9] \<union> iset (right_open 3 5)"
proof -
  have i: "set_inv joining [right_open 0 3, right_open 7 9]" "set_inv splitting []" "valid_ivl (right_open 3 5)"
    by (simp_all add: set_eval)
  have a: "set_add joining [right_open 0 3, right_open 7 9] (right_open 3 5) = Some [right_open 0 5, right_open 7 9]"
    by code_simp
  show ?thesis using a set_algebra [OF i, THEN conjunct1, THEN spec, THEN mp, OF disjI1 [OF a], THEN conjunct2] ..
qed

section \<open>The splitting style keeps every border\<close>

text \<open>C34: An addition to a \<open>split_interval_set\<close> that returns keeps every border of the set and adds those of the
  addend, and no other. It faults (it takes the iterator before \<open>begin()\<close> as a hint) exactly when the addend
  begins before the first interval and overlaps it and another.\<close>

theorem split_addition:
  assumes "wf_itvs s" "valid_ivl i" "\<not> is_empty_ivl i"
  shows "(\<forall>u. set_add splitting s i = Some u \<longrightarrow> borders u = borders s \<union> borders [i]) \<and>
    (set_add splitting s i = None \<longleftrightarrow>
      (\<exists>a b r. s = a # b # r \<and> first_ivl i < first_ivl a \<and> first_ivl b \<le> last_ivl i))"
proof (intro conjI allI impI)
  show "borders u = borders s \<union> borders [i]" if "set_add splitting s i = Some u" for u
    using set_add_ok(4) [OF assms(1,2) that] assms(3) by simp
  show "set_add splitting s i = None \<longleftrightarrow>
      (\<exists>a b r. s = a # b # r \<and> first_ivl i < first_ivl a \<and> first_ivl b \<le> last_ivl i)"
    unfolding set_add_None [OF assms(1,2)] using assms range_first_two [OF assms] by simp
qed

lemma split_addition_witness:
  "set_add splitting [right_open 2 3, right_open 5 6] (right_open 0 10) = None \<and>
   set_add splitting [right_open 2 3, right_open 5 6] (right_open 2 10) =
     Some [right_open 2 3, right_open 3 5, right_open 5 6, right_open 6 10] \<and>
   borders [right_open 2 3, right_open 3 5, right_open 5 6, right_open 6 10]
     = borders [right_open 2 3, right_open 5 6] \<union> borders [right_open 2 10]"
proof -
  have w: "wf_itvs [right_open 2 3, right_open 5 6]" "valid_ivl (right_open 2 10)" "\<not> is_empty_ivl (right_open 2 10)"
    "valid_ivl (right_open 0 10)" "\<not> is_empty_ivl (right_open 0 10)" by (simp_all add: set_eval)
  have a: "set_add splitting [right_open 2 3, right_open 5 6] (right_open 2 10) =
     Some [right_open 2 3, right_open 3 5, right_open 5 6, right_open 6 10]" by code_simp
  show ?thesis using a split_addition [OF w(1-3)] split_addition [OF w(1,4,5)] by auto
qed

section \<open>Containment and comparison\<close>

text \<open>C33: Containment of an interval, overlap with an interval, and the comparison of two sets, of any styles, are
  decided by their elements; the comparison always returns, although it may move back to a lower bound found by search.\<close>

theorem set_containment:
  assumes "wf_itvs s" "wf_itvs t" "valid_ivl i" "\<not> is_empty_ivl i"
  shows "set_contains s i = (iset i \<subseteq> els s) \<and> set_intersects s i = (els s \<inter> iset i \<noteq> {}) \<and>
    set_contains_elem s x = (x \<in> els s) \<and> set_within s t = Some (els s \<subseteq> els t) \<and>
    set_contains_set s t = Some (els t \<subseteq> els s) \<and> is_element_equal s t = Some (els s = els t)"
  using set_contains_iff [OF assms(1,3)] range_meets(1) [OF assms(1,3,4)] set_find_iff [OF assms(1), of x] set_inclusion [OF assms(1,2)]
  by (simp add: set_contains_elem_def)

lemma set_containment_witness:
  "is_element_equal [right_open 0 3, right_open 3 5] [right_open 0 5] = Some True \<and>
   set_within [right_open 0 3, right_open 3 5] [right_open 0 5] = Some True"
proof -
  have w: "wf_itvs [right_open 0 3, right_open 3 5]" "wf_itvs [right_open 0 5]" "valid_ivl (right_open 1 4)"
    "\<not> is_empty_ivl (right_open 1 4)" by (simp_all add: set_eval)
  have "els [right_open 0 3, right_open 3 5] = els [right_open 0 5]" by (auto simp: in_iset)
  then show ?thesis using set_containment [OF w] by simp
qed

end
