(* ===== verification/Spec2Isabelle.thy ===== *)
theory Spec2Isabelle
  imports ClientTestProps ReplyProps Agents ImQueueAlg IclSetProps
begin

text \<open>
  Verification of tpquery, the Trigger Primitive Query service: a server that keeps the recent
  trigger primitives of a data acquisition system in a queue ordered by time and answers queries
  for the ones that overlap a time interval, and the client that asks it.

  \<^bold>\<open>The program.\<close> The server (\<open>src/tpq_server.cpp\<close> with its generated engine
  \<open>src/tpq_server_engine.inc\<close>) is one thread that reacts to messages on a ROUTER socket, to messages on
  an ingest socket, to commands on a pipe and to timers. It keeps a table of clients, each with a state
  machine, an interval map from time to sets of payloads (the vendored interval container library
  \<open>src/icl\<close>), and the queries that must wait until the queue has reached their end. The client
  (\<open>src/tpq_client.cpp\<close>, \<open>src/tpq_client_engine.inc\<close>) is another such thread, driven by an application over
  two pipes and connected to the server by a DEALER socket. Both speak the messages of the codec
  (\<open>src/tpq_codec.cpp\<close>). Two agents (\<open>src/tpqsvc.cpp\<close>, \<open>src/tpqclt.cpp\<close>) embed server and client in an
  application that is configured by JSON.

  \<^bold>\<open>Vocabulary.\<close> \<open>Prelude\<close>: machine integers are words of their width, \<open>int64_t\<close> is an \<open>int\<close> reached by
  \<open>to_i64\<close>; what the C++ code gives up on (assertion, null or dangling pointer, signed overflow) is a value
  of \<open>fault\<close> on the left of a sum.

  \<^bold>\<open>Intervals and interval maps.\<close>
  \<^item> \<open>IclInterval\<close>: \<open>interval_bounds\<close>, \<open>discrete_interval\<close> and the overloads of
    \<open>concept/interval.hpp\<close> for it; the meaning of an interval is \<open>iset\<close>.
  \<^item> \<open>IclMap\<close>, \<open>IclMapSub\<close>, \<open>IclMapIns\<close>: the algorithms of \<open>interval_base_map.hpp\<close> and
    \<open>interval_map.hpp\<close> on the pairs of the underlying tree map in order, with iterators as cursors, for any
    combiner of values. \<open>IclMapInv\<close>, \<open>IclMapAdd\<close>, \<open>IclMapOps\<close> prove that addition, subtraction,
    insertion and erasure keep \<open>wf_imap\<close> (ordered, disjoint, non-empty, joined segments without the neutral
    value) and change the meaning \<open>den\<close>, \<open>sem\<close> pointwise. \<open>IclMapBounds\<close>: size, bounds and uniqueness of
    the representation. \<open>IclMapAlg\<close>, \<open>IclMapMap\<close>: operations with elements, of one map on another, tests,
    updates guided by a predicate.
  \<^item> \<open>ImQueue\<close>, \<open>ImQueueAlg\<close>: the instance of the server, with sets of payloads as values. The locale
    \<open>interval_store\<close> is what the server relies on (put, cut, view, members, bounds), interpreted on the map;
    the locales \<open>inplace_combiner\<close> and \<open>inplace_subtractor\<close> are what the map relies on, interpreted on the
    functors.

  \<^bold>\<open>Interval sets.\<close> \<open>IclSet\<close>: the intervals of a set in order, and the addition and subtraction of
    \<open>interval_base_set.hpp\<close> in the three styles that \<open>interval_set.hpp\<close>, \<open>separate_interval_set.hpp\<close> and
    \<open>split_interval_set.hpp\<close> choose; \<open>IclSetInv\<close> the invariant \<open>wf_itvs\<close> (for the joining style with
    \<open>joined\<close>) and the elements \<open>els\<close>; \<open>IclSetAdd\<close> the proofs. \<open>IclSetAlg\<close>: the templates of
    \<open>concept/interval_set.hpp\<close> and \<open>concept/interval_associator.hpp\<close>, over the locale \<open>interval_container\<close>
    (what the templates rely on of a set), interpreted on the three styles. \<open>IclSetCompare\<close>: the state machine
    of \<open>detail/interval_subset_comparer.hpp\<close>, as a \<open>while_option\<close> with its invariant and measure.
    \<open>IclSetProps\<close>: the properties.

  \<^bold>\<open>Codec.\<close> \<open>Codec\<close>: the structure, the PUT and GET macros, receive and send; \<open>CodecWire\<close>: round
  trips, sizes, any bytes received; \<open>CodecZpl\<close>: printing and the conversions to and from configuration
  trees; \<open>CodecTest\<close>: the selftest, as a program over the same definitions, passes.

  \<^bold>\<open>Server.\<close> \<open>ServerState\<close>, \<open>ServerActions\<close>, \<open>ServerEngine\<close>: the state, the actions, the engine functions
  and the state machine. \<open>ServerLoop\<close>: one pass of the machine and the loop \<open>s_client_execute\<close>, whose
  termination is a measure on state and event (\<open>event_rank\<close>), so it needs no fuel. \<open>ServerReplies\<close>: the
  contract \<open>reaction\<close> of the machine, and its refinement by the engine. \<open>ServerClients\<close>,
  \<open>ServerProtocol\<close>: the client table and the router handler; its loop ends because each pass takes a frame
  off the socket. \<open>ServerIngest\<close>: slurping, answering, purging. \<open>ServerPipe\<close>: creation, configuration,
  commands. \<open>ServerSystem\<close>: the reactor as a step relation with its invariant. \<open>ServerWaiting\<close>: a query
  that must wait, from the router handler to the ingest handler that answers it. \<open>ServerProps\<close>: the
  properties. \<open>ServerTest\<close>: the selftest as a program, given the batches in which the server reads the sets it
  ingests before the greeting, before the first query and while it waits; \<open>ServerTurns\<close> (what a message leaves alone), \<open>ServerSets\<close> (the queue that holds some of the sets) and
  \<open>ServerTestProps\<close> follow it: it passes exactly when no set is late. \<open>ReplyProps\<close>: what reaches
  a client over several messages, the frames of a result from any reachable state and the effect of a
  truncated frame.

  \<^bold>\<open>Client.\<close> \<open>ClientState\<close>, \<open>ClientEngine\<close>: state, actions, engine, state machine; \<open>ClientContract\<close>: its
  contract and the refinement; \<open>ClientSystem\<close>: the reactor and the invariant on what the caller has been
  told; \<open>ClientApi\<close>: the calls of the class interface; \<open>ClientProps\<close>: the properties. \<open>ClientTest\<close>: the
  selftest as a program, with a server of its own, given the batches of sets before the greeting, before the
  query and after it; \<open>ClientTestProps\<close>: it passes in each of these orders, since a query waits for its data.

  \<^bold>\<open>Client and server together.\<close> \<open>ClientSession\<close> delivers the frames that one side sends to the other;
  \<open>SessionProps\<close> follows a greeting, a query that is answered at once and one that waits for its data from
  the call of the application through both actors and back. \<open>Agents\<close>: the two agents, with the number
  parsing of \<open>CNumbers\<close> (\<open>src/tpqutil.h\<close> over \<open>strtoul\<close> and \<open>strtoll\<close>) and the rounding of \<open>double\<close>
  products of \<open>CDouble\<close> (to the nearest, ties to even, 53 bits).

  \<^bold>\<open>Partial functions.\<close> Three things need not return and are modelled so that this shows: the loops of
  \<open>insert_main\<close> and of \<open>add_if\<close> are \<open>partial_function (option)\<close>, with a lemma that says when they return
  (always for the former on a well-formed map, only when no pair is refused for the latter), and a call of
  the class interface that waits for a reply that is not there gives \<open>None\<close>.

  \<^bold>\<open>Libraries.\<close> What the program takes from ZeroMQ, CZMQ, PTMP and the JSON library is an argument of the
  definitions: \<open>extern\<close> (frame to hexadecimal text, message as one frame, the fields of a payload, endpoints),
  \<open>pipe_extern\<close> (bind, configuration files), \<open>zpl_extern\<close> (configuration trees), \<open>selftest_lib\<close> (sockets and
  their transfer), \<open>server_test_lib\<close> (the message of a set, decoding a frame), \<open>json_extern\<close> (parsing, members
  and conversions of JSON values, for the agents; for the server's INGEST command they are part of
  \<open>endpoint_made\<close>), \<open>hello\<close> and \<open>ask\<close> (the client's calls, for its agent). What is assumed of them is stated
  where it is used and instantiated in a witness: \<open>zpl_library\<close> (for the names and C strings that the codec
  puts), \<open>selftest_library\<close> (for a pair of sockets that were bound and connected), \<open>server_test_library\<close>, an
  injective \<open>strhex\<close>, and \<open>answers\<close> (every query of the client agent is answered).
  A socket is the list of the parts it still delivers and the list of those it has been given.

  \<^bold>\<open>Found.\<close> Proved of the code as it is: a pending request outlives its client and is then answered through a
  dangling pointer; a truncated message is reported as received, so that a query that waits can be stored
  again for another sender and a client can be aborted; the mask test of a query is inverted by the
  precedence of \<open>!\<close>; a client whose machine has stopped leaves its caller waiting; \<open>add_if\<close> never moves on
  past a pair that it refuses; an addition to a \<open>split_interval_set\<close> can step in front of \<open>begin()\<close>; the server's selftest depends on the order in which two sockets are read. The theorems about these state what happens and not what was meant.

  \<^bold>\<open>Not modelled.\<close> Logging; the threads and sockets of the libraries and the memory that destructors
  release; the command-line drivers of the selftests; and of
  \<open>src/icl\<close> what the program does not instantiate: element maps, splitting and total maps, static and
  continuous intervals, printing, iteration over elements.
\<close>

end
